(* ===== verification/Prelude.thy ===== *)
theory Prelude
  imports Main "HOL-Library.Word" "HOL-Library.Sublist" "HOL-Library.Char_ord"
    "HOL-Library.List_Lexorder" "HOL-Library.Monad_Syntax"
begin

text \<open>
  What every component shares: the machine integers, Rust's \<open>Result\<close> as a sum, the string
  operations of the standard library the sources call, and ordered containers.

  A Rust \<open>str\<close> or \<open>[u8]\<close> is modelled by its bytes: HOL's \<open>char\<close> has exactly 256 values, so a
  \<open>string\<close> is a byte sequence and \<open>length\<close> counts bytes as \<open>str::len\<close> does. Non-ASCII text is its
  UTF-8 encoding. Every pattern the sources split or search by is ASCII, and UTF-8 is
  self-synchronising, so searching bytes and searching characters agree.
\<close>

section \<open>Hint collections\<close>

named_theorems text_simps \<open>evaluation and characterisation of string operations\<close>
named_theorems result_simps \<open>laws of the result sum\<close>

section \<open>Machine integers\<close>

type_synonym u8 = "8 word"
type_synonym u16 = "16 word"
type_synonym u32 = "32 word"
type_synonym u64 = "64 word"

section \<open>Results\<close>

text \<open>\<open>Inl\<close> is \<open>Err\<close>, \<open>Inr\<close> is \<open>Ok\<close>.\<close>

type_synonym ('a, 'e) result = "'e + 'a"

fun and_then :: "('a, 'e) result \<Rightarrow> ('a \<Rightarrow> ('b, 'e) result) \<Rightarrow> ('b, 'e) result" where
  "and_then (Inl e) f = Inl e"
| "and_then (Inr a) f = f a"

fun map_err :: "('e \<Rightarrow> 'f) \<Rightarrow> ('a, 'e) result \<Rightarrow> ('a, 'f) result" where
  "map_err g (Inl e) = Inl (g e)"
| "map_err g (Inr a) = Inr a"

fun is_ok :: "('a, 'e) result \<Rightarrow> bool" where
  "is_ok (Inl e) = False"
| "is_ok (Inr a) = True"

fun result_err :: "('a, 'e) result \<Rightarrow> 'e option" where
  "result_err (Inl e) = Some e"
| "result_err (Inr a) = None"

fun ok_or :: "'e \<Rightarrow> 'a option \<Rightarrow> ('a, 'e) result" where
  "ok_or e None = Inl e"
| "ok_or e (Some a) = Inr a"

lemma is_ok_map_err [simp, result_simps]: "is_ok (map_err g r) = is_ok r"
  by (cases r) auto

lemma is_ok_and_then [result_simps]: "is_ok (and_then r f) \<longleftrightarrow> (\<exists>a. r = Inr a \<and> is_ok (f a))"
  by (cases r) auto

lemma and_then_Inr [result_simps]: "and_then r f = Inr b \<longleftrightarrow> (\<exists>a. r = Inr a \<and> f a = Inr b)"
  by (cases r) auto

lemma and_then_Inl [result_simps]:
  "and_then r f = Inl e \<longleftrightarrow> r = Inl e \<or> (\<exists>a. r = Inr a \<and> f a = Inl e)"
  by (cases r) auto

lemma map_err_Inr [simp, result_simps]: "map_err g r = Inr a \<longleftrightarrow> r = Inr a"
  by (cases r) auto

lemma map_err_Inl [result_simps]: "map_err g r = Inl e \<longleftrightarrow> (\<exists>e'. r = Inl e' \<and> e = g e')"
  by (cases r) auto

lemma is_ok_iff [result_simps]: "is_ok r \<longleftrightarrow> (\<exists>a. r = Inr a)"
  by (cases r) auto

lemma result_err_Some [result_simps]: "result_err r = Some e \<longleftrightarrow> r = Inl e"
  by (cases r) auto

lemma is_ok_unit [simp]: "is_ok (r :: (unit, 'e) result) \<longleftrightarrow> r = Inr ()"
  by (cases r) auto

section \<open>Prefixes, suffixes, search\<close>

fun strip_prefix :: "'a list \<Rightarrow> 'a list \<Rightarrow> 'a list option" where
  "strip_prefix [] s = Some s"
| "strip_prefix (p # ps) [] = None"
| "strip_prefix (p # ps) (c # cs) = (if p = c then strip_prefix ps cs else None)"

lemma strip_prefix_Some [text_simps]: "strip_prefix p s = Some r \<longleftrightarrow> s = p @ r"
  by (induction p s rule: strip_prefix.induct) auto

lemma strip_prefix_append [simp]: "strip_prefix p (p @ r) = Some r"
  by (simp add: strip_prefix_Some)

lemma strip_prefix_None [text_simps]: "strip_prefix p s = None \<longleftrightarrow> \<not> prefix p s"
  by (induction p s rule: strip_prefix.induct) auto

definition starts_with :: "'a list \<Rightarrow> 'a list \<Rightarrow> bool" where
  "starts_with s p \<longleftrightarrow> strip_prefix p s \<noteq> None"

lemma starts_with_iff [text_simps]: "starts_with s p \<longleftrightarrow> (\<exists>r. s = p @ r)"
  by (auto simp: starts_with_def strip_prefix_Some)

lemma starts_with_single: "starts_with s [c] \<longleftrightarrow> (\<exists>r. s = c # r)"
  by (simp add: starts_with_iff)

definition strip_suffix :: "'a list \<Rightarrow> 'a list \<Rightarrow> 'a list option" where
  "strip_suffix p s = map_option rev (strip_prefix (rev p) (rev s))"

lemma strip_suffix_Some [text_simps]: "strip_suffix p s = Some r \<longleftrightarrow> s = r @ p"
proof -
  have "strip_suffix p s = Some r \<longleftrightarrow> rev s = rev p @ rev r"
    by (auto simp: strip_suffix_def strip_prefix_Some)
  also have "\<dots> \<longleftrightarrow> s = r @ p"
    by (metis rev_append rev_rev_ident)
  finally show ?thesis .
qed

lemma strip_suffix_append [simp]: "strip_suffix p (r @ p) = Some r"
  by (simp add: strip_suffix_Some)

lemma strip_suffix_None [text_simps]: "strip_suffix p s = None \<longleftrightarrow> \<not> (\<exists>r. s = r @ p)"
  using strip_suffix_Some [of p s] by (cases "strip_suffix p s") auto

definition ends_with :: "'a list \<Rightarrow> 'a list \<Rightarrow> bool" where
  "ends_with s p \<longleftrightarrow> strip_suffix p s \<noteq> None"

lemma ends_with_iff [text_simps]: "ends_with s p \<longleftrightarrow> (\<exists>r. s = r @ p)"
  by (auto simp: ends_with_def strip_suffix_Some)

text \<open>\<open>str::find\<close>: the byte offset of the first occurrence.\<close>

fun find_sub :: "'a list \<Rightarrow> 'a list \<Rightarrow> nat option" where
  "find_sub p [] = (if p = [] then Some 0 else None)"
| "find_sub p (x # xs) = (if starts_with (x # xs) p then Some 0 else map_option Suc (find_sub p xs))"

lemma find_sub_Some_split:
  "find_sub p s = Some i \<Longrightarrow> i + length p \<le> length s \<and> s = take i s @ p @ drop (i + length p) s"
proof (induction p s arbitrary: i rule: find_sub.induct)
  case (1 p)
  then show ?case by (auto split: if_splits)
next
  case (2 p x xs)
  show ?case
  proof (cases "starts_with (x # xs) p")
    case True
    with "2.prems" obtain r where "i = 0" "x # xs = p @ r" by (auto simp: starts_with_iff)
    then show ?thesis by (metis add_0 append_eq_conv_conj append_self_conv2 le_add1 length_append take_0)
  next
    case False
    with "2.prems" obtain j where j: "find_sub p xs = Some j" "i = Suc j" by auto
    with "2.IH" False show ?thesis by auto
  qed
qed

lemma find_sub_None: "find_sub p s = None \<Longrightarrow> s \<noteq> a @ p @ b"
proof (induction p s arbitrary: a rule: find_sub.induct)
  case (1 p)
  then show ?case by (auto split: if_splits)
next
  case (2 p x xs)
  then have ns: "\<not> starts_with (x # xs) p" and n: "find_sub p xs = None"
    by (auto split: if_splits)
  show ?case
  proof (cases a)
    case Nil
    with ns show ?thesis by (auto simp: starts_with_iff)
  next
    case (Cons y ys)
    with "2.IH" [OF ns n, of ys] show ?thesis by auto
  qed
qed

lemma find_sub_least: "s = a @ p @ b \<Longrightarrow> \<exists>i. find_sub p s = Some i \<and> i \<le> length a"
proof (induction p s arbitrary: a rule: find_sub.induct)
  case (1 p)
  then show ?case by auto
next
  case (2 p x xs)
  show ?case
  proof (cases "starts_with (x # xs) p")
    case True
    then show ?thesis by simp
  next
    case False
    with "2.prems" obtain y ys where a: "a = y # ys"
      by (cases a) (auto simp: starts_with_iff)
    with "2.prems" have "xs = ys @ p @ b" by simp
    from "2.IH" [OF False this] a False show ?thesis by auto
  qed
qed

section \<open>Splitting and joining\<close>

text \<open>\<open>str::split\<close> on a character class keeps empty pieces; \<open>n\<close> separators give \<open>n + 1\<close> pieces.\<close>

fun split_by :: "('a \<Rightarrow> bool) \<Rightarrow> 'a list \<Rightarrow> 'a list list" where
  "split_by P [] = [] # []"
| "split_by P (x # xs) =
     (if P x then [] # split_by P xs
      else case split_by P xs of [] \<Rightarrow> [x] # [] | y # ys \<Rightarrow> (x # y) # ys)"

abbreviation split_on :: "'a \<Rightarrow> 'a list \<Rightarrow> 'a list list" where
  "split_on c \<equiv> split_by (\<lambda>x. x = c)"

lemma split_by_not_Nil [simp]: "split_by P xs \<noteq> []"
  by (induction xs) (auto split: list.splits)

lemma split_by_pieces: "p \<in> set (split_by P xs) \<Longrightarrow> c \<in> set p \<Longrightarrow> \<not> P c \<and> c \<in> set xs"
proof (induction xs arbitrary: p)
  case Nil
  then show ?case by simp
next
  case (Cons x xs)
  then show ?case by (fastforce split: if_splits list.splits)
qed

lemma split_by_clean: "\<forall>c \<in> set xs. \<not> P c \<Longrightarrow> split_by P xs = xs # []"
  by (induction xs) auto

lemma split_on_clean [simp]: "c \<notin> set xs \<Longrightarrow> split_on c xs = xs # []"
  by (rule split_by_clean) auto

lemma split_by_append_sep:
  "\<forall>c \<in> set a. \<not> P c \<Longrightarrow> P s \<Longrightarrow> split_by P (a @ s # b) = a # split_by P b"
  by (induction a) auto

lemma split_on_append_sep [simp]: "c \<notin> set a \<Longrightarrow> split_on c (a @ c # b) = a # split_on c b"
  by (rule split_by_append_sep) auto

lemma split_on_append: "split_on c (a @ c # b) = split_on c a @ split_on c b"
proof (induction a)
  case (Cons x a)
  then show ?case using split_by_not_Nil [of "\<lambda>x. x = c" a] by (cases "split_on c a") auto
qed simp

definition join_with :: "'a list \<Rightarrow> 'a list list \<Rightarrow> 'a list" where
  "join_with sep ps = (case ps of [] \<Rightarrow> [] | p # qs \<Rightarrow> p @ concat (map (\<lambda>q. sep @ q) qs))"

lemma join_with_simps [simp]:
  "join_with sep [] = []" "join_with sep [p] = p" "join_with sep (p # q # ps) = p @ sep @ join_with sep (q # ps)"
  by (simp_all add: join_with_def)

lemma join_split: "join_with [c] (split_on c xs) = xs"
proof (induction xs)
  case Nil
  then show ?case by (simp add: join_with_def)
next
  case (Cons x xs)
  then show ?case
    by (cases "split_on c xs") (auto simp: join_with_def split: list.splits)
qed

text \<open>\<open>str::split_once\<close> and \<open>str::rsplit_once\<close> on one character.\<close>

fun split_once :: "'a \<Rightarrow> 'a list \<Rightarrow> ('a list \<times> 'a list) option" where
  "split_once c [] = None"
| "split_once c (x # xs) =
     (if x = c then Some ([], xs)
      else map_option (\<lambda>(a, b). (x # a, b)) (split_once c xs))"

lemma split_once_Some [text_simps]:
  "split_once c s = Some (a, b) \<longleftrightarrow> s = a @ c # b \<and> c \<notin> set a"
proof (induction s arbitrary: a)
  case Nil
  then show ?case by simp
next
  case (Cons x s)
  show ?case
  proof (cases "x = c")
    case True
    then show ?thesis by (cases a) auto
  next
    case False
    then show ?thesis using Cons.IH by (cases a) auto
  qed
qed

lemma split_once_None [text_simps]: "split_once c s = None \<longleftrightarrow> c \<notin> set s"
  by (induction s) auto

definition rsplit_once :: "'a \<Rightarrow> 'a list \<Rightarrow> ('a list \<times> 'a list) option" where
  "rsplit_once c s = map_option (\<lambda>(a, b). (rev b, rev a)) (split_once c (rev s))"

lemma rsplit_once_Some [text_simps]:
  "rsplit_once c s = Some (a, b) \<longleftrightarrow> s = a @ c # b \<and> c \<notin> set b"
proof -
  have "rsplit_once c s = Some (a, b) \<longleftrightarrow> split_once c (rev s) = Some (rev b, rev a)"
    by (auto simp: rsplit_once_def)
  also have "\<dots> \<longleftrightarrow> rev s = rev b @ c # rev a \<and> c \<notin> set b"
    by (simp add: split_once_Some)
  also have "\<dots> \<longleftrightarrow> s = a @ c # b \<and> c \<notin> set b"
  proof -
    have "rev s = rev b @ c # rev a \<longleftrightarrow> rev (rev s) = rev (rev b @ c # rev a)"
      by (metis rev_rev_ident)
    then show ?thesis by simp
  qed
  finally show ?thesis .
qed

lemma rsplit_once_None [text_simps]: "rsplit_once c s = None \<longleftrightarrow> c \<notin> set s"
  by (simp add: rsplit_once_def split_once_None)

lemma set_map_filter: "x \<in> set (List.map_filter f ys) \<longleftrightarrow> (\<exists>y \<in> set ys. f y = Some x)"
  by (force simp: List.map_filter_def)

end
