(* ===== verification/Patterns.thy ===== *)
theory Patterns
  imports Strings
begin

text \<open>
  The pattern grammar behind every policy dimension (crates/core/src/manifest/model.rs): globs
  with \<open>*\<close>, egress patterns \<open>host\<close> and \<open>host:port\<close>, host canonicalisation and host extraction from
  a declared server URL. The greedy glob matcher is proved equal to a backtracking reference
  matcher, and the canonical form of a host is an interface (\<open>host_canon\<close>) the policy engine and
  the proxy rely on.
\<close>

section \<open>Dimensions and denials\<close>

datatype dimension = Tools | Egress | Secrets | FsRead | FsWrite | FsDeny

fun dimension_as_str :: "dimension \<Rightarrow> string" where
  "dimension_as_str Tools = ''[policy.tools]''"
| "dimension_as_str Egress = ''[policy.egress]''"
| "dimension_as_str Secrets = ''[policy.secrets]''"
| "dimension_as_str FsRead = ''[policy.filesystem] read''"
| "dimension_as_str FsWrite = ''[policy.filesystem] write''"
| "dimension_as_str FsDeny = ''[policy.filesystem] deny''"

record rule_denial =
  rd_dimension :: dimension
  rd_message :: string

datatype pattern_match = Match | NoMatch | Malformed

section \<open>Globs\<close>

fun glob_mid :: "string list \<Rightarrow> string \<Rightarrow> nat \<Rightarrow> nat option" where
  "glob_mid [] t pos = Some pos"
| "glob_mid (seg # segs) t pos =
     (case find_sub seg (drop pos t) of
        Some i \<Rightarrow> glob_mid segs t (pos + i + length seg)
      | None \<Rightarrow> None)"

definition glob_match :: "string \<Rightarrow> string \<Rightarrow> bool" where
  "glob_match pat t =
     (let parts = split_on (CHR ''*'') pat in
      if length parts = 1 then pat = t
      else if \<not> starts_with t (hd parts) then False
      else case glob_mid (butlast (tl parts)) t (length (hd parts)) of
             None \<Rightarrow> False
           | Some pos \<Rightarrow> length (last parts) \<le> length (drop pos t) \<and> ends_with t (last parts))"

definition glob_to_match :: "string \<Rightarrow> string \<Rightarrow> pattern_match" where
  "glob_to_match pat subject = (if glob_match pat subject then Match else NoMatch)"

text \<open>The reference matcher: \<open>*\<close> consumes any run of characters, every other character itself.\<close>

fun glob_ref :: "string \<Rightarrow> string \<Rightarrow> bool" where
  "glob_ref [] t = (t = [])"
| "glob_ref (c # cs) [] = (c = CHR ''*'' \<and> glob_ref cs [])"
| "glob_ref (c # cs) (x # xs) =
     (if c = CHR ''*'' then glob_ref cs (x # xs) \<or> glob_ref (c # cs) xs
      else c = x \<and> glob_ref cs xs)"

text \<open>The segments after the first \<open>*\<close>: each occurs after the one before, the last at the end.\<close>

fun tail_match :: "string list \<Rightarrow> string \<Rightarrow> bool" where
  "tail_match [] t = True"
| "tail_match [q] t = ends_with t q"
| "tail_match (q # q' # qs) t = (\<exists>a b. t = a @ q @ b \<and> tail_match (q' # qs) b)"

lemma tail_match_append: "tail_match qs r \<Longrightarrow> tail_match qs (a @ r)"
proof (induction qs r arbitrary: a rule: tail_match.induct)
  case (2 q t)
  then show ?case by (auto simp: ends_with_iff)
next
  case (3 q q' qs t)
  then obtain u v where "t = u @ q @ v" "tail_match (q' # qs) v" by auto
  then have "a @ t = (a @ u) @ q @ v \<and> tail_match (q' # qs) v" by simp
  then show ?case unfolding tail_match.simps by blast
qed auto

lemma tail_match_Cons_Nil: "qs \<noteq> [] \<Longrightarrow> tail_match (q # qs) t \<longleftrightarrow> (\<exists>a b. t = a @ q @ b \<and> tail_match qs b)"
  by (cases qs) auto

lemma glob_ref_star: "glob_ref (CHR ''*'' # cs) t \<longleftrightarrow> (\<exists>a b. t = a @ b \<and> glob_ref cs b)"
proof (induction t)
  case Nil
  then show ?case by simp
next
  case (Cons x xs)
  have "(\<exists>a b. x # xs = a @ b \<and> glob_ref cs b) \<longleftrightarrow>
      glob_ref cs (x # xs) \<or> (\<exists>a b. xs = a @ b \<and> glob_ref cs b)"
    by (auto simp: Cons_eq_append_conv)
  with Cons.IH show ?case by simp
qed

lemma glob_ref_lit: "c \<noteq> CHR ''*'' \<Longrightarrow> glob_ref (c # cs) t \<longleftrightarrow> (\<exists>r. t = c # r \<and> glob_ref cs r)"
  by (cases t) auto

definition parts_match :: "string list \<Rightarrow> string \<Rightarrow> bool" where
  "parts_match ps t =
     (case ps of [] \<Rightarrow> False
      | p # qs \<Rightarrow> if qs = [] then t = p else \<exists>r. t = p @ r \<and> tail_match qs r)"

lemma parts_match_tail: "ps \<noteq> [] \<Longrightarrow> tail_match ps t \<longleftrightarrow> (\<exists>a b. t = a @ b \<and> parts_match ps b)"
proof (cases ps)
  case (Cons p qs)
  then show ?thesis
    by (cases qs) (auto simp: parts_match_def ends_with_iff)
qed simp

lemma glob_ref_parts: "glob_ref pat t \<longleftrightarrow> parts_match (split_on (CHR ''*'') pat) t"
proof (induction pat arbitrary: t)
  case Nil
  then show ?case by (simp add: parts_match_def)
next
  case (Cons c cs)
  show ?case
  proof (cases "c = CHR ''*''")
    case True
    have "glob_ref (c # cs) t \<longleftrightarrow> (\<exists>a b. t = a @ b \<and> parts_match (split_on (CHR ''*'') cs) b)"
      using True Cons.IH by (simp add: glob_ref_star)
    also have "\<dots> \<longleftrightarrow> tail_match (split_on (CHR ''*'') cs) t"
      by (simp add: parts_match_tail)
    also have "\<dots> \<longleftrightarrow> parts_match (split_on (CHR ''*'') (c # cs)) t"
      using True by (simp add: parts_match_def)
    finally show ?thesis .
  next
    case False
    obtain y ys where ps: "split_on (CHR ''*'') cs = y # ys"
      by (cases "split_on (CHR ''*'') cs") auto
    have "glob_ref (c # cs) t \<longleftrightarrow> (\<exists>r. t = c # r \<and> parts_match (y # ys) r)"
      using False Cons.IH ps by (simp add: glob_ref_lit)
    also have "\<dots> \<longleftrightarrow> parts_match ((c # y) # ys) t"
      by (auto simp: parts_match_def)
    finally show ?thesis using False ps by simp
  qed
qed

lemma glob_mid_greedy:
  "pos \<le> length t \<Longrightarrow>
   (case glob_mid mids t pos of None \<Rightarrow> False
    | Some p \<Rightarrow> length l \<le> length (drop p t) \<and> ends_with t l)
   \<longleftrightarrow> tail_match (mids @ [l]) (drop pos t)"
proof (induction mids arbitrary: pos)
  case Nil
  have "ends_with (drop pos t) l \<longleftrightarrow> length l \<le> length (drop pos t) \<and> ends_with t l"
  proof
    assume "ends_with (drop pos t) l"
    then obtain r where r: "drop pos t = r @ l" by (auto simp: ends_with_iff)
    then have "t = (take pos t @ r) @ l" by (metis append.assoc append_take_drop_id)
    with r show "length l \<le> length (drop pos t) \<and> ends_with t l"
      by (metis ends_with_iff length_append le_add2)
  next
    assume a: "length l \<le> length (drop pos t) \<and> ends_with t l"
    then obtain r where r: "t = r @ l" by (auto simp: ends_with_iff)
    from a Nil have "length l + pos \<le> length t" by auto
    with r have "pos \<le> length r" by simp
    with r show "ends_with (drop pos t) l" by (simp add: ends_with_iff)
  qed
  then show ?case by simp
next
  case (Cons q qs)
  show ?case
  proof (cases "find_sub q (drop pos t)")
    case None
    then have "\<nexists>a b. drop pos t = a @ q @ b" using find_sub_None by blast
    with None show ?thesis by (simp add: tail_match_Cons_Nil)
  next
    case (Some i)
    define n where "n = pos + i + length q"
    from find_sub_Some_split [OF Some]
    have len: "i + length q \<le> length t - pos"
      and sp: "drop pos t = take i (drop pos t) @ q @ drop (i + length q) (drop pos t)" by auto
    have dn: "drop (i + length q) (drop pos t) = drop n t"
      by (simp add: n_def add.commute add.left_commute)
    have "n \<le> length t" using len Cons.prems by (simp add: n_def)
    from Cons.IH [OF this] have ih: "(case glob_mid qs t n of None \<Rightarrow> False
        | Some p \<Rightarrow> length l \<le> length (drop p t) \<and> ends_with t l)
        \<longleftrightarrow> tail_match (qs @ [l]) (drop n t)" .
    have "tail_match (q # qs @ [l]) (drop pos t) \<longleftrightarrow> tail_match (qs @ [l]) (drop n t)"
    proof
      assume "tail_match (q # qs @ [l]) (drop pos t)"
      then obtain a b where ab: "drop pos t = a @ q @ b" and b: "tail_match (qs @ [l]) b"
        by (auto simp: tail_match_Cons_Nil)
      from find_sub_least [OF ab] Some have "i \<le> length a" by auto
      then have "drop (i + length q) ((a @ q) @ b) = drop (i + length q) (a @ q) @ b" by simp
      then have "drop n t = drop (i + length q) (a @ q) @ b" using dn ab by simp
      then show "tail_match (qs @ [l]) (drop n t)" by (simp only: tail_match_append [OF b])
    next
      assume "tail_match (qs @ [l]) (drop n t)"
      with sp dn show "tail_match (q # qs @ [l]) (drop pos t)"
        by (auto simp: tail_match_Cons_Nil)
    qed
    with ih Some show ?thesis by (simp add: n_def)
  qed
qed

theorem glob_match_ref: "glob_match pat t \<longleftrightarrow> glob_ref pat t"
proof -
  obtain p qs where ps: "split_on (CHR ''*'') pat = p # qs"
    by (cases "split_on (CHR ''*'') pat") auto
  show ?thesis
  proof (cases qs rule: rev_cases)
    case Nil
    with ps have "p = pat" using join_split [of "CHR ''*''" pat] by (simp add: join_with_def)
    with ps Nil show ?thesis by (auto simp: glob_match_def glob_ref_parts parts_match_def)
  next
    case (snoc mids l)
    have "starts_with t p \<Longrightarrow> length p \<le> length t \<and> t = p @ drop (length p) t"
      by (auto simp: starts_with_iff)
    with glob_mid_greedy [where pos = "length p" and t = t and mids = mids and l = l] ps snoc show ?thesis
      by (auto simp: glob_match_def glob_ref_parts parts_match_def starts_with_iff Let_def
          split: option.splits)
  qed
qed

lemma glob_literal: "CHR ''*'' \<notin> set pat \<Longrightarrow> glob_match pat t \<longleftrightarrow> pat = t"
  by (simp add: glob_match_def split_by_clean Let_def)

lemma glob_star_any: "glob_match ''*'' t"
  by (simp add: glob_match_ref glob_ref_star)

text \<open>Every literal character of a matching pattern occurs in the subject.\<close>

lemma glob_ref_chars: "glob_ref pat t \<Longrightarrow> c \<in> set pat \<Longrightarrow> c \<noteq> CHR ''*'' \<Longrightarrow> c \<in> set t"
  by (induction pat t rule: glob_ref.induct) (auto split: if_splits)

section \<open>Egress patterns\<close>

definition nonzero_port :: "string \<Rightarrow> u16 option" where
  "nonzero_port p = (case parse_u16 p of Some n \<Rightarrow> if n \<noteq> 0 then Some n else None | None \<Rightarrow> None)"

definition split_pattern_port :: "string \<Rightarrow> (string \<times> u16 option) option" where
  "split_pattern_port pat =
     (case strip_prefix ''['' pat of
        Some rest \<Rightarrow>
          do {
            (addr, after) \<leftarrow> split_once (CHR '']'') rest;
            if after = [] then Some (addr, None)
            else do {
              p \<leftarrow> strip_prefix '':'' after;
              if p = ''*'' then Some (addr, None)
              else map_option (\<lambda>n. (addr, Some n)) (nonzero_port p)
            }
          }
      | None \<Rightarrow>
          (case rsplit_once (CHR '':'') pat of
             Some (h, p) \<Rightarrow>
               if CHR '':'' \<notin> set h then
                 (if p = ''*'' then Some (h, None)
                  else map_option (\<lambda>n. (h, Some n)) (nonzero_port p))
               else Some (pat, None)
           | None \<Rightarrow> Some (pat, None)))"

definition egress_match :: "string \<Rightarrow> string \<Rightarrow> u16 option \<Rightarrow> pattern_match" where
  "egress_match pat host port =
     (case split_pattern_port pat of
        None \<Rightarrow> Malformed
      | Some (pat_host, pat_port) \<Rightarrow>
          if \<not> glob_match pat_host host then NoMatch
          else if (case (pat_port, port) of
                     (None, _) \<Rightarrow> True
                   | (Some _, None) \<Rightarrow> True
                   | (Some p, Some q) \<Rightarrow> p = q)
          then Match else NoMatch)"

definition egress_pattern_is_malformed :: "string \<Rightarrow> bool" where
  "egress_pattern_is_malformed pat =
     (split_pattern_port (case strip_prefix ''!'' pat of Some b \<Rightarrow> b | None \<Rightarrow> pat) = None)"

lemma egress_match_Malformed: "egress_match pat host port = Malformed \<longleftrightarrow> split_pattern_port pat = None"
  by (auto simp: egress_match_def split: option.splits prod.splits if_splits)

lemma egress_match_port_mono: "egress_match pat host (Some q) = Match \<Longrightarrow> egress_match pat host None = Match"
  by (auto simp: egress_match_def split: option.splits prod.splits if_splits)

lemma split_pattern_port_plain:
  "CHR '':'' \<notin> set pat \<Longrightarrow> \<not> starts_with pat ''['' \<Longrightarrow> split_pattern_port pat = Some (pat, None)"
proof -
  assume "CHR '':'' \<notin> set pat" and "\<not> starts_with pat ''[''"
  then have "rsplit_once (CHR '':'') pat = None" and "strip_prefix ''['' pat = None"
    by (simp_all add: starts_with_def rsplit_once_None)
  then show ?thesis by (simp add: split_pattern_port_def)
qed

lemma split_pattern_port_pinned:
  assumes "CHR '':'' \<notin> set h" and "\<not> starts_with h ''[''" and "h \<noteq> []" and "0 < n" and "n < 65536"
  shows "split_pattern_port (h @ '':'' @ show_nat n) = Some (h, Some (of_nat n))"
proof -
  have d: "CHR '':'' \<notin> set (show_nat n)"
    using show_nat_digits by (fastforce simp: is_ascii_digit_def byte_def)
  have r: "rsplit_once (CHR '':'') (h @ '':'' @ show_nat n) = Some (h, show_nat n)"
    using d by (simp add: rsplit_once_Some)
  have "strip_prefix ''['' (h @ '':'' @ show_nat n) = None"
    using assms(2,3) by (cases h) (auto simp: starts_with_def split: if_splits)
  moreover have "show_nat n \<noteq> ''*''"
    using show_nat_digits [of "CHR ''*''" n] by (auto simp: is_ascii_digit_def byte_def)
  moreover have "(of_nat n :: u16) \<noteq> 0"
    using assms(4,5) by (simp add: of_nat_eq_0_iff word_of_nat_eq_0_iff nat_dvd_not_less)
  ultimately show ?thesis
    using r assms by (simp add: split_pattern_port_def nonzero_port_def parse_u16_show)
qed

text \<open>The host part of a pattern consists of characters of the pattern.\<close>

lemma split_pattern_port_host_chars:
  "split_pattern_port pat = Some (h, p) \<Longrightarrow> c \<in> set h \<Longrightarrow> c \<in> set pat"
  by (auto simp: split_pattern_port_def strip_prefix_Some split_once_Some rsplit_once_Some
      bind_eq_Some_conv split: option.splits if_splits prod.splits)

section \<open>Canonical hosts\<close>

definition normalize_host :: "string \<Rightarrow> string" where
  "normalize_host host =
     to_ascii_lowercase (case strip_suffix ''.'' host of Some h \<Rightarrow> h | None \<Rightarrow> host)"

text \<open>
  What the enforcers rely on: two spellings of a host that differ in ASCII case or in the root dot
  have one canonical form, and a canonical form is in lower case.
\<close>

locale host_canon =
  fixes canon :: "string \<Rightarrow> string"
  assumes canon_lower: "c \<in> set (canon h) \<Longrightarrow> \<not> is_ascii_upper c"
    and canon_case: "canon (to_ascii_lowercase h) = canon h"
    and canon_dot: "\<not> ends_with h ''.'' \<Longrightarrow> canon (h @ ''.'') = canon h"
begin

definition same_host :: "string \<Rightarrow> string \<Rightarrow> bool" where
  "same_host a b \<longleftrightarrow> canon a = canon b"

lemma same_host_case: "to_ascii_lowercase a = to_ascii_lowercase b \<Longrightarrow> same_host a b"
  unfolding same_host_def by (metis canon_case)

lemma same_host_dot: "\<not> ends_with h ''.'' \<Longrightarrow> same_host (h @ ''.'') h"
  by (simp add: same_host_def canon_dot)

lemma fenced_spelling: "same_host a b \<Longrightarrow> canon a \<in> fence \<longleftrightarrow> canon b \<in> fence"
  by (simp add: same_host_def)

lemma upper_pattern_inert:
  assumes "c \<in> set pat" and "is_ascii_upper c"
  shows "\<not> glob_match pat (canon h)"
proof
  assume "glob_match pat (canon h)"
  moreover have "c \<noteq> CHR ''*''" using assms(2) by (auto simp: is_ascii_upper_def byte_def)
  ultimately have "c \<in> set (canon h)" using assms(1) by (simp add: glob_match_ref glob_ref_chars)
  with assms(2) show False using canon_lower by blast
qed

end

lemma ends_with_lower_dot: "ends_with (to_ascii_lowercase h) ''.'' \<longleftrightarrow> ends_with h ''.''"
proof (cases h rule: rev_cases)
  case Nil
  then show ?thesis by (simp add: to_ascii_lowercase_def)
next
  case (snoc ys y)
  have "ascii_lower y = CHR ''.'' \<longleftrightarrow> y = CHR ''.''"
    by (rule ascii_lower_eq_nonalpha) (simp add: ascii_defs byte_def)
  with snoc show ?thesis by (simp add: ends_with_iff to_ascii_lowercase_def)
qed

lemma normalize_host_undotted: "\<not> ends_with h ''.'' \<Longrightarrow> normalize_host h = to_ascii_lowercase h"
  by (simp add: normalize_host_def ends_with_def)

lemma normalize_host_dotted: "normalize_host (h @ ''.'') = to_ascii_lowercase h"
  by (simp add: normalize_host_def)

interpretation nh: host_canon normalize_host
proof unfold_locales
  show "\<not> is_ascii_upper c" if "c \<in> set (normalize_host h)" for c h
    using that unfolding normalize_host_def by (rule to_ascii_lowercase_no_upper)
  show "normalize_host (to_ascii_lowercase h) = normalize_host h" for h
  proof (cases "ends_with h ''.''")
    case True
    then obtain r where "h = r @ ''.''" by (auto simp: ends_with_iff)
    moreover have "to_ascii_lowercase ''.'' = ''.''"
      by (simp add: to_ascii_lowercase_def ascii_lower_def is_ascii_upper_def byte_def)
    ultimately show ?thesis by (simp add: normalize_host_dotted)
  next
    case False
    then show ?thesis by (simp add: normalize_host_undotted ends_with_lower_dot)
  qed
  show "normalize_host (h @ ''.'') = normalize_host h" if "\<not> ends_with h ''.''" for h
    using that by (simp add: normalize_host_dotted normalize_host_undotted)
qed

section \<open>The host of a declared URL\<close>

definition url_rest :: "string \<Rightarrow> string option" where
  "url_rest url =
     (let lower = to_ascii_lowercase url in
      if starts_with lower ''https://'' then Some (drop (length ''https://'') url)
      else if starts_with lower ''http://'' then Some (drop (length ''http://'') url)
      else None)"

definition host_from_url :: "string \<Rightarrow> string option" where
  "host_from_url url = do {
     rest \<leftarrow> url_rest url;
     let authority = hd (split_by (\<lambda>c. c = CHR ''/'' \<or> c = CHR ''?'' \<or> c = CHR ''#'') rest);
     if authority = [] then None
     else if find_sub ''${'' authority \<noteq> None then None
     else do {
       let authority = (case rsplit_once (CHR ''@'') authority of None \<Rightarrow> authority | Some (_, h) \<Rightarrow> h);
       host \<leftarrow> (case strip_prefix ''['' authority of
                   Some inner \<Rightarrow> map_option fst (split_once (CHR '']'') inner)
                 | None \<Rightarrow> Some (hd (split_on (CHR '':'') authority)));
       if host = [] \<or> \<not> list_all is_ascii host \<or> CHR ''%'' \<in> set host then None else Some host
     }
   }"

section \<open>Properties\<close>

text \<open>C14.
  The greedy glob matcher of the sources accepts exactly what the reference semantics does, where \<open>*\<close>
  matches any sequence of bytes and every other character itself.\<close>

theorem glob_match_correct: "glob_match pat t \<longleftrightarrow> glob_ref pat t"
  by (rule glob_match_ref)

text \<open>
  A pattern pinned to a port matches a connection exactly when its host glob matches and the port is that
  port; without a query port it matches on the host alone.\<close>

theorem egress_port_exact:
  assumes "CHR '':'' \<notin> set h" "\<not> starts_with h ''[''" "h \<noteq> []" "0 < n" "n < 65536"
  shows "egress_match (h @ '':'' @ show_nat n) host port =
    (if glob_match h host \<and> (port = None \<or> port = Some (of_nat n)) then Match else NoMatch)"
  using split_pattern_port_pinned [OF assms] by (auto simp: egress_match_def split: option.splits)

theorem egress_port_exact_witness:
  "egress_match (''*.io'' @ '':'' @ show_nat 443) ''a.io'' (Some 80) = NoMatch"
  using egress_port_exact [of "''*.io''" 443 "''a.io''" "Some 80"] by (simp add: starts_with_def)

text \<open>
  Port zero and ports that are not 16-bit numbers make the whole pattern malformed, so it fails closed
  instead of matching every port or none.\<close>

theorem egress_port_zero_malformed:
  assumes "CHR '':'' \<notin> set h" "CHR '':'' \<notin> set p" "\<not> starts_with h ''[''" "h \<noteq> []" "p \<noteq> ''*''"
    and "parse_u16 p = None \<or> parse_u16 p = Some 0"
  shows "egress_match (h @ '':'' @ p) host port = Malformed \<and> egress_pattern_is_malformed (''!'' @ h @ '':'' @ p)"
proof -
  have "rsplit_once (CHR '':'') (h @ '':'' @ p) = Some (h, p)"
    using assms(2) by (simp add: rsplit_once_Some)
  moreover have "strip_prefix ''['' (h @ '':'' @ p) = None"
    using assms(3,4) by (cases h) (auto simp: starts_with_def split: if_splits)
  moreover have "nonzero_port p = None" using assms(6) by (auto simp: nonzero_port_def)
  ultimately have "split_pattern_port (h @ '':'' @ p) = None"
    using assms(1,5) by (simp add: split_pattern_port_def)
  then show ?thesis by (simp add: egress_match_Malformed egress_pattern_is_malformed_def)
qed

theorem egress_port_zero_malformed_witness: "egress_match (''a'' @ '':'' @ ''99999'') ''a'' (Some 1) = Malformed"
  using egress_port_zero_malformed [of "''a''" "''99999''" "''a''" "Some 1"]
  by (simp add: starts_with_def parse_u16_def digit_val_def ascii_defs byte_def)

text \<open>
  Hosts are compared in canonical form but patterns are not: an egress pattern whose host part has an
  upper-case letter matches no canonical host, so such a deny entry denies nothing.\<close>

theorem uppercase_pattern_inert:
  assumes "split_pattern_port pat = Some (h, p)" "c \<in> set h" "is_ascii_upper c"
  shows "egress_match pat (normalize_host host) port = NoMatch"
  using nh.upper_pattern_inert [OF assms(2,3)] assms(1) by (simp add: egress_match_def)

theorem uppercase_pattern_inert_witness: "egress_match ''Evil.io'' (normalize_host ''evil.io'') (Some 443) = NoMatch"
proof -
  have "split_pattern_port ''Evil.io'' = Some (''Evil.io'', None)"
    by (rule split_pattern_port_plain) (simp_all add: starts_with_def)
  then show ?thesis
    by (rule uppercase_pattern_inert [where c = "CHR ''E''"]) (simp_all add: is_ascii_upper_def byte_def)
qed

text \<open>
  A host extracted from a declared URL is a non-empty ASCII text without percent escapes, path, query,
  fragment or userinfo separators, and none is extracted from an authority that still carries a
  reference: the fence never holds a text that is not a host.\<close>

theorem host_from_url_sound:
  assumes "host_from_url url = Some h"
  shows "h \<noteq> [] \<and> (\<forall>c \<in> set h. is_ascii c \<and> c \<notin> {CHR ''%'', CHR ''/'', CHR ''?'', CHR ''#'', CHR ''@''}) \<and>
    (\<exists>rest. url_rest url = Some rest \<and>
       find_sub ''${'' (hd (split_by (\<lambda>c. c = CHR ''/'' \<or> c = CHR ''?'' \<or> c = CHR ''#'') rest)) = None)"
proof -
  let ?P = "\<lambda>c. c = CHR ''/'' \<or> c = CHR ''?'' \<or> c = CHR ''#''"
  obtain rest where r: "url_rest url = Some rest"
    and f: "find_sub ''${'' (hd (split_by ?P rest)) = None"
    and h: "h \<noteq> []" "list_all is_ascii h" "CHR ''%'' \<notin> set h"
    and sub: "\<exists>auth. auth = (case rsplit_once (CHR ''@'') (hd (split_by ?P rest)) of
        None \<Rightarrow> hd (split_by ?P rest) | Some (_, x) \<Rightarrow> x) \<and>
      (case strip_prefix ''['' auth of Some inner \<Rightarrow> map_option fst (split_once (CHR '']'') inner)
       | None \<Rightarrow> Some (hd (split_on (CHR '':'') auth))) = Some h"
    using assms by (auto simp: host_from_url_def bind_eq_Some_conv Let_def split: if_splits)
  have pieces: "\<not> ?P c" if "c \<in> set (hd (split_by ?P rest))" for c
    using split_by_pieces [of "hd (split_by ?P rest)" ?P rest c] that by simp
  from sub obtain auth where auth: "auth = (case rsplit_once (CHR ''@'') (hd (split_by ?P rest)) of
        None \<Rightarrow> hd (split_by ?P rest) | Some (_, x) \<Rightarrow> x)"
    and hd: "(case strip_prefix ''['' auth of Some inner \<Rightarrow> map_option fst (split_once (CHR '']'') inner)
       | None \<Rightarrow> Some (hd (split_on (CHR '':'') auth))) = Some h" by blast
  have ac: "\<not> ?P c \<and> c \<noteq> CHR ''@''" if "c \<in> set auth" for c
  proof (cases "rsplit_once (CHR ''@'') (hd (split_by ?P rest))")
    case None
    with that auth pieces [of c] show ?thesis by (auto simp: rsplit_once_None)
  next
    case (Some x)
    obtain u v where "x = (u, v)" by fastforce
    with Some have s: "rsplit_once (CHR ''@'') (hd (split_by ?P rest)) = Some (u, v)" by simp
    then have "hd (split_by ?P rest) = u @ CHR ''@'' # v" "CHR ''@'' \<notin> set v" by (simp_all add: rsplit_once_Some)
    moreover have "auth = v" using auth unfolding s by simp
    ultimately have "hd (split_by ?P rest) = u @ CHR ''@'' # v" "CHR ''@'' \<notin> set v" "auth = v" by blast+
    with that pieces [of c] show ?thesis by auto
  qed
  have "set h \<subseteq> set auth"
  proof (cases "strip_prefix ''['' auth")
    case None
    with hd have "h = hd (split_on (CHR '':'') auth)" by simp
    moreover have "hd (split_on (CHR '':'') auth) \<in> set (split_on (CHR '':'') auth)" by simp
    ultimately show ?thesis using split_by_pieces [of h "\<lambda>x. x = CHR '':''" auth] by blast
  next
    case (Some inner)
    with hd obtain b where "split_once (CHR '']'') inner = Some (h, b)" by auto
    then show ?thesis using Some by (auto simp: strip_prefix_Some split_once_Some)
  qed
  then have "\<forall>c \<in> set h. is_ascii c \<and> c \<notin> {CHR ''%'', CHR ''/'', CHR ''?'', CHR ''#'', CHR ''@''}"
    using ac h(2,3) unfolding list_all_iff by blast
  with h(1) r f show ?thesis by blast
qed

theorem host_from_url_sound_witness:
  "\<exists>rest. url_rest ''https://u@Mcp.io:8/x'' = Some rest \<and>
     find_sub ''${'' (hd (split_by (\<lambda>c. c = CHR ''/'' \<or> c = CHR ''?'' \<or> c = CHR ''#'') rest)) = None"
proof -
  have "host_from_url ''https://u@Mcp.io:8/x'' = Some ''Mcp.io''" by code_simp
  from host_from_url_sound [OF this] show ?thesis by blast
qed

end
