(* ===== verification/Policy.thy ===== *)
theory Policy
  imports Patterns
begin

text \<open>
  The policy tables of a manifest (\<open>Policy\<close>, \<open>FsPolicy\<close>, \<open>WorkflowPolicy\<close> and \<open>map_allowed\<close> of
  crates/core/src/manifest/model.rs) and the live two-layer decisions of crates/policy/src/lib.rs.
  The locale \<open>layered_engine\<close> is the contract every decision procedure over a machine and a bundle
  layer keeps: a decision allows exactly what both layers allow, and a refusal names the machine
  layer whenever the machine refuses. It is interpreted here on the live decisions, and in
  \<open>Compile\<close> on the compiled ones.
\<close>

section \<open>The tables\<close>

text \<open>An \<open>IndexMap\<close> is its entries in insertion order.\<close>

type_synonym 'v index_map = "(string \<times> 'v) list"
type_synonym rule_map = "string list index_map"

record fs_policy =
  fs_read :: "string list"
  fs_write :: "string list"
  fs_deny :: "string list"

record workflow_policy =
  wp_max_agents :: "u32 option"
  wp_max_wall_seconds :: "u64 option"
  wp_max_concurrent :: "u32 option"
  wp_max_resident_result_bytes :: "u64 option"

record policy =
  p_require :: "string list"
  p_forbid :: "string list"
  p_allowed_sources :: "string list"
  p_tools :: rule_map
  p_egress :: rule_map
  p_secrets :: rule_map
  p_filesystem :: fs_policy
  p_workflows :: workflow_policy

definition default_fs_policy :: fs_policy where
  "default_fs_policy = \<lparr>fs_read = [], fs_write = [], fs_deny = []\<rparr>"

definition default_workflow_policy :: workflow_policy where
  "default_workflow_policy =
     \<lparr>wp_max_agents = None, wp_max_wall_seconds = None, wp_max_concurrent = None,
      wp_max_resident_result_bytes = None\<rparr>"

definition default_policy :: policy where
  "default_policy =
     \<lparr>p_require = [], p_forbid = [], p_allowed_sources = [], p_tools = [], p_egress = [],
      p_secrets = [], p_filesystem = default_fs_policy, p_workflows = default_workflow_policy\<rparr>"

definition fs_policy_is_empty :: "fs_policy \<Rightarrow> bool" where
  "fs_policy_is_empty f \<longleftrightarrow> fs_read f = [] \<and> fs_write f = [] \<and> fs_deny f = []"

definition workflow_policy_is_empty :: "workflow_policy \<Rightarrow> bool" where
  "workflow_policy_is_empty w \<longleftrightarrow>
     wp_max_agents w = None \<and> wp_max_wall_seconds w = None \<and> wp_max_concurrent w = None \<and>
     wp_max_resident_result_bytes w = None"

definition policy_is_empty :: "policy \<Rightarrow> bool" where
  "policy_is_empty p \<longleftrightarrow>
     p_require p = [] \<and> p_forbid p = [] \<and> p_allowed_sources p = [] \<and> p_tools p = [] \<and>
     p_egress p = [] \<and> p_secrets p = [] \<and> fs_policy_is_empty (p_filesystem p) \<and>
     workflow_policy_is_empty (p_workflows p)"

definition source_allowed :: "policy \<Rightarrow> string \<Rightarrow> bool" where
  "source_allowed p source \<longleftrightarrow>
     p_allowed_sources p = [] \<or> list_ex (\<lambda>q. glob_match q source) (p_allowed_sources p)"

section \<open>The keyed matcher\<close>

definition malformed_denial :: "dimension \<Rightarrow> string \<Rightarrow> string \<Rightarrow> rule_denial" where
  "malformed_denial d key pat =
     \<lparr>rd_dimension = d,
      rd_message = ''malformed '' @ dimension_as_str d @ '' pattern for '' @ key @ '': '' @ dq @ pat @ dq
        @ '' '' @ em_dash @ '' failing closed; fix the pattern in the manifest''\<rparr>"

definition denied_by :: "dimension \<Rightarrow> string \<Rightarrow> string \<Rightarrow> rule_denial" where
  "denied_by d key deny =
     \<lparr>rd_dimension = d,
      rd_message = ''denied by '' @ dimension_as_str d @ '' '' @ key @ '' = '' @ dq @ ''!'' @ deny @ dq\<rparr>"

definition not_in_allowlist :: "dimension \<Rightarrow> string \<Rightarrow> string list \<Rightarrow> rule_denial" where
  "not_in_allowlist d key allows =
     \<lparr>rd_dimension = d,
      rd_message = ''not in the '' @ dimension_as_str d @ '' allowlist for '' @ key @ '' (''
        @ join_with '', '' allows @ '')''\<rparr>"

fun deny_scan :: "dimension \<Rightarrow> string \<Rightarrow> (string \<Rightarrow> pattern_match) \<Rightarrow> string list \<Rightarrow> (unit, rule_denial) result" where
  "deny_scan d key matches [] = Inr ()"
| "deny_scan d key matches (r # rs) =
     (case strip_prefix ''!'' r of
        Some deny \<Rightarrow>
          (case matches deny of
             Match \<Rightarrow> Inl (denied_by d key deny)
           | Malformed \<Rightarrow> Inl (malformed_denial d key r)
           | NoMatch \<Rightarrow> deny_scan d key matches rs)
      | None \<Rightarrow> deny_scan d key matches rs)"

fun allow_scan :: "dimension \<Rightarrow> string \<Rightarrow> (string \<Rightarrow> pattern_match) \<Rightarrow> bool \<Rightarrow> string list \<Rightarrow> (bool, rule_denial) result" where
  "allow_scan d key matches hit [] = Inr hit"
| "allow_scan d key matches hit (a # as) =
     (case matches a of
        Match \<Rightarrow> allow_scan d key matches True as
      | Malformed \<Rightarrow> Inl (malformed_denial d key a)
      | NoMatch \<Rightarrow> allow_scan d key matches hit as)"

definition rules_allowed :: "dimension \<Rightarrow> string \<Rightarrow> (string \<Rightarrow> pattern_match) \<Rightarrow> string list \<Rightarrow> (unit, rule_denial) result" where
  "rules_allowed d key matches rules =
     and_then (deny_scan d key matches rules) (\<lambda>_.
       let allows = filter (\<lambda>r. \<not> starts_with r ''!'') rules in
       if allows = [] then Inr ()
       else and_then (allow_scan d key matches False allows) (\<lambda>hit.
              if \<not> hit then Inl (not_in_allowlist d key allows) else Inr ()))"

definition policy_keys :: "string \<Rightarrow> string list" where
  "policy_keys server = (if server = ''*'' then [''*''] else [server, ''*''])"

fun keys_allowed :: "rule_map \<Rightarrow> dimension \<Rightarrow> (string \<Rightarrow> pattern_match) \<Rightarrow> string list \<Rightarrow> (unit, rule_denial) result" where
  "keys_allowed m d matches [] = Inr ()"
| "keys_allowed m d matches (key # keys) =
     (case map_of m key of
        None \<Rightarrow> keys_allowed m d matches keys
      | Some rules \<Rightarrow>
          and_then (rules_allowed d key matches rules) (\<lambda>_. keys_allowed m d matches keys))"

definition map_allowed :: "rule_map \<Rightarrow> dimension \<Rightarrow> string \<Rightarrow> (string \<Rightarrow> pattern_match) \<Rightarrow> (unit, rule_denial) result" where
  "map_allowed m d server matches = keys_allowed m d matches (policy_keys server)"

definition tool_allowed :: "policy \<Rightarrow> string \<Rightarrow> string \<Rightarrow> (unit, rule_denial) result" where
  "tool_allowed p server tool = map_allowed (p_tools p) Tools server (\<lambda>pat. glob_to_match pat tool)"

definition egress_allowed :: "policy \<Rightarrow> string \<Rightarrow> string \<Rightarrow> (unit, rule_denial) result" where
  "egress_allowed p server host = map_allowed (p_egress p) Egress server (\<lambda>pat. egress_match pat host None)"

definition secret_allowed :: "policy \<Rightarrow> string \<Rightarrow> string \<Rightarrow> (unit, rule_denial) result" where
  "secret_allowed p server reference =
     map_allowed (p_secrets p) Secrets server (\<lambda>pat. glob_to_match pat reference)"

section \<open>What a rule list means\<close>

text \<open>
  The declarative reading: no deny entry matches or is malformed, and the allow entries, if there
  are any, are all well formed and one of them matches.
\<close>

definition denies_of :: "string list \<Rightarrow> string set" where
  "denies_of rules = {d. ''!'' @ d \<in> set rules}"

definition allows_of :: "string list \<Rightarrow> string list" where
  "allows_of rules = filter (\<lambda>r. \<not> starts_with r ''!'') rules"

definition allowlist_ok :: "(string \<Rightarrow> pattern_match) \<Rightarrow> string set \<Rightarrow> bool" where
  "allowlist_ok matches as \<longleftrightarrow> as = {} \<or> (\<forall>a \<in> as. matches a \<noteq> Malformed) \<and> (\<exists>a \<in> as. matches a = Match)"

definition rules_ok :: "(string \<Rightarrow> pattern_match) \<Rightarrow> string list \<Rightarrow> bool" where
  "rules_ok matches rules \<longleftrightarrow>
     (\<forall>d \<in> denies_of rules. matches d = NoMatch) \<and> allowlist_ok matches (set (allows_of rules))"

definition keys_ok :: "rule_map \<Rightarrow> string \<Rightarrow> (string \<Rightarrow> pattern_match) \<Rightarrow> bool" where
  "keys_ok m server matches \<longleftrightarrow>
     (\<forall>key \<in> set (policy_keys server). \<forall>rules. map_of m key = Some rules \<longrightarrow> rules_ok matches rules)"

lemma deny_scan_ok: "deny_scan d key matches rules = Inr () \<longleftrightarrow> (\<forall>x \<in> denies_of rules. matches x = NoMatch)"
proof (induction rules)
  case Nil
  then show ?case by (simp add: denies_of_def)
next
  case (Cons r rs)
  show ?case
  proof (cases "strip_prefix ''!'' r")
    case None
    then have "denies_of (r # rs) = denies_of rs"
      by (auto simp: denies_of_def)
    with None Cons.IH show ?thesis by simp
  next
    case (Some deny)
    then have "denies_of (r # rs) = insert deny (denies_of rs)"
      by (auto simp: denies_of_def strip_prefix_Some)
    with Some Cons.IH show ?thesis by (auto split: pattern_match.splits)
  qed
qed

lemma allow_scan_ok:
  "allow_scan d key matches hit as = Inr b \<longleftrightarrow>
     (\<forall>a \<in> set as. matches a \<noteq> Malformed) \<and> (b \<longleftrightarrow> hit \<or> (\<exists>a \<in> set as. matches a = Match))"
  by (induction as arbitrary: hit) (auto split: pattern_match.splits)

lemma rules_allowed_ok: "rules_allowed d key matches rules = Inr () \<longleftrightarrow> rules_ok matches rules"
proof -
  define as where "as = allows_of rules"
  have tail: "(if as = [] then Inr ()
       else and_then (allow_scan d key matches False as) (\<lambda>hit.
              if \<not> hit then Inl (not_in_allowlist d key as) else Inr ())) = Inr ()
     \<longleftrightarrow> allowlist_ok matches (set as)"
    by (auto simp: and_then_Inr allow_scan_ok allowlist_ok_def split: if_splits)
  have "rules_allowed d key matches rules = Inr () \<longleftrightarrow>
      deny_scan d key matches rules = Inr () \<and> allowlist_ok matches (set as)"
    by (simp add: rules_allowed_def and_then_Inr Let_def flip: tail allows_of_def as_def)
  then show ?thesis
    by (simp add: rules_ok_def deny_scan_ok as_def)
qed

lemma map_allowed_ok: "map_allowed m d server matches = Inr () \<longleftrightarrow> keys_ok m server matches"
proof -
  have "keys_allowed m d matches keys = Inr () \<longleftrightarrow>
      (\<forall>key \<in> set keys. \<forall>rules. map_of m key = Some rules \<longrightarrow> rules_ok matches rules)" for keys
    by (induction keys) (auto simp: and_then_Inr rules_allowed_ok split: option.splits)
  then show ?thesis by (simp add: map_allowed_def keys_ok_def)
qed

lemma map_allowed_dimension: "map_allowed m d server matches = Inl e \<Longrightarrow> rd_dimension e = d"
proof -
  have d: "deny_scan d key matches rules = Inl e \<Longrightarrow> rd_dimension e = d" for key rules
    by (induction rules) (auto simp: denied_by_def malformed_denial_def split: option.splits pattern_match.splits)
  have a: "allow_scan d key matches hit as = Inl e \<Longrightarrow> rd_dimension e = d" for key hit as
    by (induction as arbitrary: hit) (auto simp: malformed_denial_def split: pattern_match.splits)
  have r: "rules_allowed d key matches rules = Inl e \<Longrightarrow> rd_dimension e = d" for key rules
    by (auto simp: rules_allowed_def and_then_Inl Let_def not_in_allowlist_def dest: d a split: if_splits)
  have "keys_allowed m d matches keys = Inl e \<Longrightarrow> rd_dimension e = d" for keys
    by (induction keys) (auto simp: and_then_Inl dest: r split: option.splits)
  then show "map_allowed m d server matches = Inl e \<Longrightarrow> rd_dimension e = d"
    by (simp add: map_allowed_def)
qed

lemma keys_ok_star: "keys_ok m server matches \<Longrightarrow> map_of m ''*'' = Some rules \<Longrightarrow> rules_ok matches rules"
  by (auto simp: keys_ok_def policy_keys_def split: if_splits)

lemma rules_ok_deny: "rules_ok matches rules \<Longrightarrow> ''!'' @ d \<in> set rules \<Longrightarrow> matches d = NoMatch"
  by (simp add: rules_ok_def denies_of_def)

section \<open>Layers\<close>

datatype layer = Machine | Bundle | DenyByDefault

record policy_denial =
  pd_layer :: layer
  pd_denial :: rule_denial

definition machine_denial :: "rule_denial \<Rightarrow> policy_denial" where
  "machine_denial d = \<lparr>pd_layer = Machine, pd_denial = d\<rparr>"

definition bundle_denial :: "rule_denial \<Rightarrow> policy_denial" where
  "bundle_denial d = \<lparr>pd_layer = Bundle, pd_denial = d\<rparr>"

definition denial_to_string :: "policy_denial \<Rightarrow> string" where
  "denial_to_string e =
     (case pd_layer e of
        Machine \<Rightarrow> rd_message (pd_denial e) @ '' (machine policy '' @ em_dash @ '' ~/.agentstack/agentstack.toml)''
      | Bundle \<Rightarrow> rd_message (pd_denial e)
      | DenyByDefault \<Rightarrow> rd_message (pd_denial e))"

definition tool_decision :: "policy \<Rightarrow> policy \<Rightarrow> string \<Rightarrow> string \<Rightarrow> (unit, policy_denial) result" where
  "tool_decision machine project server tool =
     and_then (map_err machine_denial (tool_allowed machine server tool))
       (\<lambda>_. map_err bundle_denial (tool_allowed project server tool))"

definition egress_decision :: "policy \<Rightarrow> policy \<Rightarrow> string \<Rightarrow> string \<Rightarrow> (unit, policy_denial) result" where
  "egress_decision machine project server host =
     and_then (map_err machine_denial (egress_allowed machine server host))
       (\<lambda>_. map_err bundle_denial (egress_allowed project server host))"

definition secret_decision :: "policy \<Rightarrow> policy \<Rightarrow> string \<Rightarrow> string \<Rightarrow> (unit, policy_denial) result" where
  "secret_decision machine project server reference =
     and_then (map_err machine_denial (secret_allowed machine server reference))
       (\<lambda>_. map_err bundle_denial (secret_allowed project server reference))"

section \<open>The contract of a two-layer decision\<close>

locale layered_engine =
  fixes layer_ok :: "policy \<Rightarrow> 'q \<Rightarrow> bool"
    and decide :: "policy \<Rightarrow> policy \<Rightarrow> 'q \<Rightarrow> (unit, policy_denial) result"
  assumes decide_ok: "decide m b q = Inr () \<longleftrightarrow> layer_ok m q \<and> layer_ok b q"
    and decide_layer: "decide m b q = Inl e \<Longrightarrow> pd_layer e = (if layer_ok m q then Bundle else Machine)"
begin

lemma within_machine: "decide m b q = Inr () \<Longrightarrow> layer_ok m q"
  by (simp add: decide_ok)

lemma machine_refusal_wins:
  assumes "\<not> layer_ok m q"
  shows "\<exists>e. decide m b q = Inl e \<and> pd_layer e = Machine"
proof (cases "decide m b q")
  case (Inl e)
  with assms show ?thesis using decide_layer by force
next
  case (Inr u)
  then show ?thesis using assms decide_ok by auto
qed

lemma bundle_cannot_widen: "decide m b q = Inr () \<Longrightarrow> layer_ok b' q \<Longrightarrow> decide m b' q = Inr ()"
  by (simp add: decide_ok)

lemma decide_Inr: "decide m b q = Inr u \<longleftrightarrow> layer_ok m q \<and> layer_ok b q"
  by (cases u) (simp add: decide_ok)

end

text \<open>Any two engines with the same layer test agree on every verdict and on the layer they blame.\<close>

locale engine_pair = a: layered_engine layer_ok decide + b: layered_engine layer_ok decide'
  for layer_ok :: "policy \<Rightarrow> 'q \<Rightarrow> bool" and decide decide'
begin

lemma same_verdict: "decide m b q = Inr () \<longleftrightarrow> decide' m b q = Inr ()"
  by (simp add: a.decide_ok b.decide_ok)

lemma same_layer: "map_err pd_layer (decide m b q) = map_err pd_layer (decide' m b q)"
proof (cases "decide m b q")
  case (Inl e)
  then have "decide' m b q \<noteq> Inr ()"
    using a.decide_ok [of m b q] b.decide_ok [of m b q] by auto
  then obtain e' where "decide' m b q = Inl e'"
    by (cases "decide' m b q") auto
  with Inl show ?thesis using a.decide_layer b.decide_layer by fastforce
next
  case (Inr u)
  then have "decide m b q = Inr ()" by simp
  with same_verdict [of m b q] show ?thesis by simp
qed

end

definition tool_layer_ok :: "policy \<Rightarrow> string \<times> string \<Rightarrow> bool" where
  "tool_layer_ok p q \<longleftrightarrow> tool_allowed p (fst q) (snd q) = Inr ()"

definition egress_layer_ok :: "policy \<Rightarrow> string \<times> string \<Rightarrow> bool" where
  "egress_layer_ok p q \<longleftrightarrow> egress_allowed p (fst q) (snd q) = Inr ()"

definition secret_layer_ok :: "policy \<Rightarrow> string \<times> string \<Rightarrow> bool" where
  "secret_layer_ok p q \<longleftrightarrow> secret_allowed p (fst q) (snd q) = Inr ()"

lemma two_layer_ok:
  "and_then (map_err machine_denial (r :: (unit, rule_denial) result)) (\<lambda>_. map_err bundle_denial s) = Inr ()
     \<longleftrightarrow> r = Inr () \<and> s = Inr ()"
  by (cases r) auto

lemma two_layer_denial:
  "and_then (map_err machine_denial (r :: (unit, rule_denial) result)) (\<lambda>_. map_err bundle_denial s) = Inl e
     \<Longrightarrow> pd_layer e = (if r = Inr () then Bundle else Machine)"
  by (cases r; cases s) (auto simp: machine_denial_def bundle_denial_def)

interpretation live_tools: layered_engine tool_layer_ok "\<lambda>m b q. tool_decision m b (fst q) (snd q)"
  by unfold_locales (auto simp: tool_decision_def tool_layer_ok_def two_layer_ok dest: two_layer_denial split: if_splits)

interpretation live_egress: layered_engine egress_layer_ok "\<lambda>m b q. egress_decision m b (fst q) (snd q)"
  by unfold_locales (auto simp: egress_decision_def egress_layer_ok_def two_layer_ok dest: two_layer_denial split: if_splits)

interpretation live_secrets: layered_engine secret_layer_ok "\<lambda>m b q. secret_decision m b (fst q) (snd q)"
  by unfold_locales (auto simp: secret_decision_def secret_layer_ok_def two_layer_ok dest: two_layer_denial split: if_splits)

end
