(* ===== verification/Manifest.thy ===== *)
theory Manifest
  imports Policy
begin

text \<open>
  The manifest model of crates/core/src/manifest/model.rs and the reference scanner of
  crates/core/src/refs.rs: the declared capabilities, the instruction variants and their selection,
  the default toolset, the declared names, and the secret names a server or manifest references.
\<close>

section \<open>Reference names\<close>

definition is_ref_name :: "string \<Rightarrow> bool" where
  "is_ref_name s =
     (case s of
        [] \<Rightarrow> False
      | c # cs \<Rightarrow>
          (is_ascii_alphabetic c \<or> c = CHR ''_'') \<and> list_all (\<lambda>c. is_ascii_alphanumeric c \<or> c = CHR ''_'') cs)"

text \<open>The scan from position \<open>i\<close> on is the scan of the suffix.\<close>

function refs_in :: "string \<Rightarrow> string list" where
  "refs_in s =
     (case s of
        [] \<Rightarrow> []
      | c # cs \<Rightarrow>
          (case strip_prefix ''${'' s of
             Some rest \<Rightarrow>
               (case split_once (CHR ''}'') rest of
                  Some (name, after) \<Rightarrow> if is_ref_name name then name # refs_in after else refs_in rest
                | None \<Rightarrow> refs_in rest)
           | None \<Rightarrow> refs_in cs))"
  by pat_completeness auto
termination
  by (relation "measure length") (auto simp: strip_prefix_Some split_once_Some split: if_splits)

declare refs_in.simps [simp del]

section \<open>Settings tables\<close>

datatype json = JNull | JBool bool | JNumber string | JString string | JArray "json list" | JObject "(string \<times> json) list"

record delivery =
  dl_render_locally :: "bool option"
  dl_harness :: "bool option index_map"

definition delivery_is_empty :: "delivery \<Rightarrow> bool" where
  "delivery_is_empty d \<longleftrightarrow> dl_render_locally d = None \<and> dl_harness d = []"

definition or_else :: "'a option \<Rightarrow> 'a option \<Rightarrow> 'a option" where
  "or_else a b = (case a of Some x \<Rightarrow> Some x | None \<Rightarrow> b)"

definition renders_locally :: "delivery \<Rightarrow> string \<Rightarrow> bool" where
  "renders_locally d harness_id =
     (case or_else (Option.bind (map_of (dl_harness d) harness_id) id) (dl_render_locally d) of
        Some b \<Rightarrow> b | None \<Rightarrow> False)"

definition overrides_anything :: "delivery \<Rightarrow> bool" where
  "overrides_anything d \<longleftrightarrow>
     dl_render_locally d = Some True \<or> list_ex (\<lambda>(_, h). h = Some True) (dl_harness d)"

record execute_limits =
  xl_timeout_ms :: "u64 option"
  xl_max_calls :: "u32 option"
  xl_max_output_bytes :: "u64 option"

record experimental_config =
  xc_tools_execute :: bool
  xc_tools_execute_limits :: execute_limits

definition execute_limits_is_empty :: "execute_limits \<Rightarrow> bool" where
  "execute_limits_is_empty l \<longleftrightarrow>
     xl_timeout_ms l = None \<and> xl_max_calls l = None \<and> xl_max_output_bytes l = None"

definition experimental_is_empty :: "experimental_config \<Rightarrow> bool" where
  "experimental_is_empty c \<longleftrightarrow> \<not> xc_tools_execute c \<and> execute_limits_is_empty (xc_tools_execute_limits c)"

record guard_config =
  gc_enabled :: "bool option"
  gc_allow_roots :: "string list"
  gc_project_roots :: "string list index_map"

definition guard_config_is_empty :: "guard_config \<Rightarrow> bool" where
  "guard_config_is_empty g \<longleftrightarrow> gc_enabled g = None \<and> gc_allow_roots g = [] \<and> gc_project_roots g = []"

definition guard_enabled :: "guard_config \<Rightarrow> bool" where
  "guard_enabled g \<longleftrightarrow> gc_enabled g = Some True"

record package_override =
  po_remove :: "string list"
  po_replace :: "string index_map"

definition package_override_is_empty :: "package_override \<Rightarrow> bool" where
  "package_override_is_empty p \<longleftrightarrow> po_remove p = [] \<and> po_replace p = []"

record meta =
  mt_name :: "string option"
  mt_gitignore :: "bool option"

definition meta_is_empty :: "meta \<Rightarrow> bool" where
  "meta_is_empty m \<longleftrightarrow> mt_name m = None \<and> mt_gitignore m = None"

definition manages_gitignore :: "meta \<Rightarrow> bool" where
  "manages_gitignore m = (case mt_gitignore m of Some b \<Rightarrow> b | None \<Rightarrow> True)"

section \<open>Instructions\<close>

record instruction_variant =
  iv_cli :: "string option"
  iv_model :: "string option"
  iv_path :: string

record instruction =
  in_path :: "string option"
  in_targets :: "string list"
  in_variants :: "instruction_variant list"
  in_from_user_layer :: bool

definition all_targets :: "string list" where
  "all_targets = [''*'']"

definition is_all_targets :: "string list \<Rightarrow> bool" where
  "is_all_targets targets \<longleftrightarrow> length targets = 1 \<and> hd targets = ''*''"

definition specificity :: "instruction_variant \<Rightarrow> u8" where
  "specificity v =
     (case (iv_cli v, iv_model v) of
        (Some _, Some _) \<Rightarrow> 3
      | (Some _, None) \<Rightarrow> 2
      | (None, Some _) \<Rightarrow> 1
      | (None, None) \<Rightarrow> 0)"

definition variant_matches :: "instruction_variant \<Rightarrow> string \<Rightarrow> string option \<Rightarrow> bool" where
  "variant_matches v cli model =
     (if specificity v = 0 then False
      else if (case iv_cli v of Some c \<Rightarrow> c \<noteq> cli | None \<Rightarrow> False) then False
      else (case iv_model v of Some want \<Rightarrow> model = Some want | None \<Rightarrow> True))"

text \<open>\<open>Iterator::max_by_key\<close>: the last of the maximal elements.\<close>

definition max_by_key :: "('a \<Rightarrow> 'k::linorder) \<Rightarrow> 'a list \<Rightarrow> 'a option" where
  "max_by_key f xs =
     (case xs of
        [] \<Rightarrow> None
      | x # rest \<Rightarrow> Some (fold (\<lambda>y best. if f y < f best then best else y) rest x))"

definition select_variant :: "instruction_variant list \<Rightarrow> string \<Rightarrow> string option \<Rightarrow> nat option" where
  "select_variant variants cli model =
     map_option fst
       (max_by_key (\<lambda>(_, v). specificity v)
         (rev (filter (\<lambda>(_, v). variant_matches v cli model) (List.enumerate 0 variants))))"

definition applies_to :: "string list \<Rightarrow> string \<Rightarrow> bool" where
  "applies_to targets i = list_ex (\<lambda>t. t = ''*'' \<or> t = i) targets"

definition instruction_applies_to :: "instruction \<Rightarrow> string \<Rightarrow> bool" where
  "instruction_applies_to ins i = applies_to (in_targets ins) i"

datatype scope = Global | Project

definition compiles_at :: "instruction \<Rightarrow> string \<Rightarrow> scope \<Rightarrow> bool" where
  "compiles_at ins target_id sc \<longleftrightarrow>
     instruction_applies_to ins target_id \<and> \<not> (in_from_user_layer ins \<and> sc = Project)"

section \<open>Capabilities\<close>

datatype server_type = Http | Stdio

record server =
  sv_type :: server_type
  sv_url :: "string option"
  sv_command :: "string option"
  sv_args :: "string list"
  sv_cwd :: "string option"
  sv_integrity_roots :: "string list"
  sv_targets :: "string list"
  sv_owner :: "string option"
  sv_headers :: "string index_map"
  sv_env :: "string index_map"
  sv_extra :: "json index_map index_map"

definition server_applies_to :: "server \<Rightarrow> string \<Rightarrow> bool" where
  "server_applies_to s i = applies_to (sv_targets s) i"

record skill =
  sk_path :: "string option"
  sk_git :: "string option"
  sk_rev :: "string option"
  sk_subpath :: "string option"

datatype skill_source = SkillPath string | SkillGit string "string option" "string option"

definition skill_source :: "skill \<Rightarrow> (skill_source, string) result" where
  "skill_source s =
     (case sk_git s of
        Some url \<Rightarrow> Inr (SkillGit url (sk_rev s) (sk_subpath s))
      | None \<Rightarrow>
          (case sk_path s of
             Some path \<Rightarrow> Inr (SkillPath path)
           | None \<Rightarrow> Inl ''skill has neither `path` nor `git` source''))"

record extension =
  xt_path :: "string option"
  xt_git :: "string option"
  xt_rev :: "string option"
  xt_subpath :: "string option"
  xt_target :: string
  xt_description :: "string option"

record role_scheduling =
  rs_effect_free :: "bool option"
  rs_retry :: "u32 option"
  rs_speculative :: "bool option"

record workflow =
  wf_description :: "string option"
  wf_path :: "string option"
  wf_git :: "string option"
  wf_rev :: "string option"
  wf_subpath :: "string option"
  wf_blueprint :: "string option"
  wf_roles :: "string list"
  wf_max_agents :: "u32 option"
  wf_max_wall_seconds :: "u64 option"
  wf_scheduling :: "role_scheduling index_map"

definition roles_sorted_unique :: "workflow \<Rightarrow> string list" where
  "roles_sorted_unique w = remdups_adj (sort (wf_roles w))"

record profile =
  pr_servers :: "string list"
  pr_skills :: "string list"
  pr_packages :: "string list"
  pr_harness :: "string option"
  pr_model :: "string option"
  pr_effort :: "string option"

definition loads_all_skills :: "profile \<Rightarrow> bool" where
  "loads_all_skills p = list_ex (\<lambda>s. s = ''*'') (pr_skills p)"

record hook =
  hk_event :: string
  hk_matcher :: "string option"
  hk_command :: string
  hk_args :: "string list"
  hk_timeout :: "u64 option"
  hk_targets :: "string list"

record pack_install =
  pk_version :: string
  pk_description :: string
  pk_source :: "string option"
  pk_rev :: "string option"
  pk_targets :: "string list"
  pk_servers :: "string list"
  pk_skills :: "string list"
  pk_hooks :: "string list"
  pk_instructions :: "string list"

record manifest =
  mf_version :: u32
  mf_meta :: meta
  mf_servers :: "server index_map"
  mf_skills :: "skill index_map"
  mf_default_toolset :: "string option"
  mf_profiles :: "profile index_map"
  mf_instructions :: "instruction index_map"
  mf_settings :: "json index_map"
  mf_hooks :: "hook index_map"
  mf_extensions :: "extension index_map"
  mf_workflows :: "workflow index_map"
  mf_packs :: "pack_install index_map"
  mf_package_overrides :: "package_override index_map"
  mf_targets_default :: "string list"
  mf_policy :: policy
  mf_guard :: guard_config
  mf_experimental :: experimental_config
  mf_delivery :: delivery

section \<open>References and declared names\<close>

text \<open>Appending the names not seen yet, in order: the \<open>push\<close> closures of the source.\<close>

definition push_new :: "string list \<Rightarrow> string list \<Rightarrow> string list" where
  "push_new xs refs = fold (\<lambda>r acc. if r \<in> set acc then acc else acc @ [r]) xs refs"

fun json_strings :: "json \<Rightarrow> string list" where
  "json_strings (JString s) = [s]"
| "json_strings (JArray a) = concat (map json_strings a)"
| "json_strings (JObject o') = concat (map (\<lambda>(_, v). json_strings v) o')"
| "json_strings _ = []"

definition server_strings :: "server \<Rightarrow> string list" where
  "server_strings s =
     (case sv_url s of Some u \<Rightarrow> [u] | None \<Rightarrow> []) @
     (case sv_command s of Some c \<Rightarrow> [c] | None \<Rightarrow> []) @
     sv_args s @
     (case sv_cwd s of Some c \<Rightarrow> [c] | None \<Rightarrow> []) @
     map snd (sv_headers s) @
     map snd (sv_env s) @
     concat (map (\<lambda>(_, fields). concat (map (\<lambda>(_, v). json_strings v) fields)) (sv_extra s))"

definition server_referenced_secrets :: "server \<Rightarrow> string list" where
  "server_referenced_secrets s = fold (\<lambda>text. push_new (refs_in text)) (server_strings s) []"

definition resolved_default_toolset :: "manifest \<Rightarrow> string option" where
  "resolved_default_toolset m =
     (case mf_default_toolset m of
        Some name \<Rightarrow> if name \<in> fst ` set (mf_profiles m) then Some name else None
      | None \<Rightarrow> if length (mf_profiles m) = 1 then Some (fst (hd (mf_profiles m))) else None)"

definition declared_server_names :: "manifest \<Rightarrow> string list" where
  "declared_server_names m =
     fold (\<lambda>(_, p). push_new (pr_servers p)) (mf_profiles m) (map fst (mf_servers m))"

definition declared_skill_names :: "manifest \<Rightarrow> string list" where
  "declared_skill_names m =
     fold (\<lambda>(_, p). push_new (filter (\<lambda>n. n \<noteq> ''*'') (pr_skills p))) (mf_profiles m) (map fst (mf_skills m))"

definition declares_anything :: "manifest \<Rightarrow> bool" where
  "declares_anything m \<longleftrightarrow>
     declared_skill_names m \<noteq> [] \<or> declared_server_names m \<noteq> [] \<or> mf_instructions m \<noteq> [] \<or>
     mf_settings m \<noteq> [] \<or> mf_hooks m \<noteq> [] \<or> mf_extensions m \<noteq> []"

definition hook_strings :: "hook \<Rightarrow> string list" where
  "hook_strings h = hk_command h # hk_args h"

definition referenced_secrets :: "manifest \<Rightarrow> string list" where
  "referenced_secrets m =
     (let refs = fold (\<lambda>(_, s). push_new (server_referenced_secrets s)) (mf_servers m) [];
          refs = fold (\<lambda>(_, h). fold (\<lambda>text. push_new (refs_in text)) (hook_strings h)) (mf_hooks m) refs
      in sort refs)"

section \<open>The scanner finds exactly the references\<close>

definition is_reference :: "string \<Rightarrow> string \<Rightarrow> bool" where
  "is_reference s r \<longleftrightarrow> is_ref_name r \<and> (\<exists>a b. s = a @ ''${'' @ r @ ''}'' @ b)"

lemma ref_name_chars: "is_ref_name r \<Longrightarrow> c \<in> set r \<Longrightarrow> c \<noteq> CHR ''$'' \<and> c \<noteq> CHR ''{'' \<and> c \<noteq> CHR ''}''"
proof -
  have "\<not> (is_ascii_alphanumeric d \<or> is_ascii_alphabetic d \<or> d = CHR ''_'')" if "d \<in> {CHR ''$'', CHR ''{'', CHR ''}''}" for d
    using that by (auto simp: ascii_defs byte_def)
  then show "is_ref_name r \<Longrightarrow> c \<in> set r \<Longrightarrow> c \<noteq> CHR ''$'' \<and> c \<noteq> CHR ''{'' \<and> c \<noteq> CHR ''}''"
    by (auto simp: is_ref_name_def list_all_iff split: list.splits)
qed

lemma refs_in_Nil [simp]: "refs_in [] = []"
  by (simp add: refs_in.simps)

lemma refs_in_other: "strip_prefix ''${'' (c # cs) = None \<Longrightarrow> refs_in (c # cs) = refs_in cs"
  by (subst refs_in.simps) (simp del: strip_prefix.simps)

lemma refs_in_open:
  "refs_in (''${'' @ rest) =
     (case split_once (CHR ''}'') rest of
        Some (name, after) \<Rightarrow> if is_ref_name name then name # refs_in after else refs_in rest
      | None \<Rightarrow> refs_in rest)"
  by (subst refs_in.simps) simp

lemma reference_Cons: "is_reference (c # cs) r \<longleftrightarrow>
    is_reference cs r \<or> (is_ref_name r \<and> (\<exists>b. c # cs = ''${'' @ r @ ''}'' @ b))"
proof -
  have "(\<exists>a b. c # cs = a @ t @ b) \<longleftrightarrow> (\<exists>b. c # cs = t @ b) \<or> (\<exists>a b. cs = a @ t @ b)" for t
  proof
    assume "\<exists>a b. c # cs = a @ t @ b"
    then obtain a b where ab: "c # cs = a @ t @ b" by blast
    show "(\<exists>b. c # cs = t @ b) \<or> (\<exists>a b. cs = a @ t @ b)"
    proof (cases a)
      case Nil
      with ab show ?thesis by auto
    next
      case (Cons d a')
      with ab have "cs = a' @ t @ b" by simp
      then show ?thesis by blast
    qed
  next
    assume "(\<exists>b. c # cs = t @ b) \<or> (\<exists>a b. cs = a @ t @ b)"
    then show "\<exists>a b. c # cs = a @ t @ b"
      by (elim disjE exE) (metis append_Nil, metis append_Cons)
  qed
  from this [of "''${'' @ r @ ''}''"] show ?thesis by (auto simp: is_reference_def)
qed

lemma reference_prefix:
  assumes "\<And>c. c \<in> set p \<Longrightarrow> c \<noteq> CHR ''$''"
  shows "is_reference (p @ s) r \<longleftrightarrow> is_reference s r"
  using assms by (induction p) (auto simp: reference_Cons)

lemma refs_in_iff: "r \<in> set (refs_in s) \<longleftrightarrow> is_reference s r"
proof (induction s rule: length_induct)
  case (1 s)
  show ?case
  proof (cases "strip_prefix ''${'' s")
    case None
    show ?thesis
    proof (cases s)
      case (Cons c cs)
      with None have "\<not> (\<exists>b. c # cs = ''${'' @ r @ ''}'' @ b)" by auto
      then have "is_reference s r \<longleftrightarrow> is_reference cs r" unfolding Cons reference_Cons by blast
      with 1 None Cons show ?thesis by (simp add: refs_in_other del: strip_prefix.simps)
    qed (simp add: is_reference_def)
  next
    case (Some rest)
    then have s: "s = ''${'' @ rest" by (simp add: strip_prefix_Some)
    have skip: "is_reference s r \<longleftrightarrow> is_reference rest r \<or> (is_ref_name r \<and> (\<exists>b. rest = r @ ''}'' @ b))"
      using reference_prefix [of "''{''" rest r] by (auto simp: s reference_Cons)
    have opened: "refs_in s = (case split_once (CHR ''}'') rest of
        Some (name, after) \<Rightarrow> if is_ref_name name then name # refs_in after else refs_in rest
      | None \<Rightarrow> refs_in rest)"
      unfolding s by (rule refs_in_open)
    have ih_rest: "r \<in> set (refs_in rest) \<longleftrightarrow> is_reference rest r" using 1 by (simp add: s)
    show ?thesis
    proof (cases "split_once (CHR ''}'') rest")
      case None
      then have "CHR ''}'' \<notin> set rest" by (simp add: split_once_None)
      then have "\<not> (\<exists>b. rest = r @ ''}'' @ b)" by auto
      then show ?thesis using ih_rest by (simp only: opened None skip option.case) blast
    next
      case (Some p)
      obtain name after where p: "p = (name, after)" by fastforce
      with Some have rest: "rest = name @ ''}'' @ after" and clean: "CHR ''}'' \<notin> set name" by (auto simp: split_once_Some)
      have name: "(\<exists>b. rest = r @ ''}'' @ b) \<longleftrightarrow> r = name" if "is_ref_name r"
      proof -
        have "CHR ''}'' \<notin> set r" using ref_name_chars [OF that] by blast
        then have "rest = r @ ''}'' @ b \<Longrightarrow> r = name" for b
          using split_once_Some [of "CHR ''}''" rest r b] Some p by simp
        then show ?thesis using rest by blast
      qed
      show ?thesis
      proof (cases "is_ref_name name")
        case True
        have "is_reference ((name @ ''}'') @ after) r \<longleftrightarrow> is_reference after r"
          by (rule reference_prefix) (use ref_name_chars [OF True] in auto)
        then have "is_reference rest r \<longleftrightarrow> is_reference after r" by (simp add: rest)
        moreover have "r \<in> set (refs_in after) \<longleftrightarrow> is_reference after r" using 1 by (simp add: s rest)
        ultimately show ?thesis
          using name True by (simp only: opened Some p skip option.case prod.case if_True list.set insert_iff) blast
      next
        case False
        then have "\<not> (is_ref_name r \<and> (\<exists>b. rest = r @ ''}'' @ b))" using name by blast
        then show ?thesis using ih_rest False by (simp only: opened Some p skip option.case prod.case if_False) blast
      qed
    qed
  qed
qed

section \<open>The selected variant\<close>

lemma max_by_key_Some:
  "max_by_key f xs = Some y \<Longrightarrow>
   \<exists>as bs. xs = as @ y # bs \<and> (\<forall>a \<in> set as. f a \<le> f y) \<and> (\<forall>b \<in> set bs. f b < f y)"
  for f :: "'a \<Rightarrow> 'k::linorder"
proof -
  have step: "fold (\<lambda>y best. if f y < f best then best else y) rest x = y \<Longrightarrow>
      \<exists>as bs. x # rest = as @ y # bs \<and> (\<forall>a \<in> set as. f a \<le> f y) \<and> (\<forall>b \<in> set bs. f b < f y)" for rest x
  proof (induction rest arbitrary: y rule: rev_induct)
    case Nil
    then show ?case by (auto intro!: exI [of _ "[]"])
  next
    case (snoc z rest)
    let ?best = "fold (\<lambda>y best. if f y < f best then best else y) rest x"
    obtain as bs where *: "x # rest = as @ ?best # bs" "\<forall>a \<in> set as. f a \<le> f ?best" "\<forall>b \<in> set bs. f b < f ?best"
      using snoc.IH [OF refl] by blast
    show ?case
    proof (cases "f z < f ?best")
      case True
      with snoc.prems have "y = ?best" by simp
      with * True show ?thesis by (intro exI [of _ as] exI [of _ "bs @ [z]"]) auto
    next
      case False
      with snoc.prems have y: "y = z" by simp
      have "\<forall>a \<in> set (x # rest). f a \<le> f z" using * False by (auto simp: not_less dest: less_imp_le order_trans)
      then show ?thesis using y by (intro exI [of _ "x # rest"] exI [of _ "[]"]) auto
    qed
  qed
  show "max_by_key f xs = Some y \<Longrightarrow> ?thesis"
    using step by (auto simp: max_by_key_def split: list.splits)
qed

lemma max_by_key_None: "max_by_key f xs = None \<longleftrightarrow> xs = []"
  by (simp add: max_by_key_def split: list.split)

lemma filter_rev_enumerate_sorted:
  "rev (filter P (List.enumerate 0 vs)) = as @ (i, v) # bs \<Longrightarrow>
   (\<forall>(j, w) \<in> set as. i < j) \<and> (\<forall>(j, w) \<in> set bs. j < i)"
proof -
  assume r: "rev (filter P (List.enumerate 0 vs)) = as @ (i, v) # bs"
  have "sorted_wrt (\<lambda>p q. fst p < fst q) (List.enumerate 0 vs)"
    by (simp add: sorted_wrt_iff_nth_less nth_enumerate_eq)
  then have "sorted_wrt (\<lambda>p q. fst q < fst p) (as @ (i, v) # bs)"
    unfolding r [symmetric] sorted_wrt_rev by (rule sorted_wrt_filter)
  then show ?thesis by (auto simp: sorted_wrt_append)
qed

lemma select_variant_Some:
  "select_variant vs cli model = Some i \<longleftrightarrow>
     i < length vs \<and> variant_matches (vs ! i) cli model \<and>
     (\<forall>j < length vs. variant_matches (vs ! j) cli model \<longrightarrow>
        specificity (vs ! j) < specificity (vs ! i) \<or> (specificity (vs ! j) = specificity (vs ! i) \<and> i \<le> j))"
    (is "?l \<longleftrightarrow> ?best i")
proof -
  let ?f = "\<lambda>(_ :: nat, v). specificity v"
  let ?c = "filter (\<lambda>(_, v). variant_matches v cli model) (List.enumerate 0 vs)"
  have mem: "(j, w) \<in> set ?c \<longleftrightarrow> j < length vs \<and> w = vs ! j \<and> variant_matches w cli model" for j w
    by (auto simp: in_set_enumerate_eq)
  have fwd: "?best i'" if sel: "select_variant vs cli model = Some i'" for i'
  proof -
    obtain v where m: "max_by_key ?f (rev ?c) = Some (i', v)"
      using sel by (auto simp: select_variant_def)
    from max_by_key_Some [OF m] obtain as bs where r: "rev ?c = as @ (i', v) # bs"
      and as: "\<forall>a \<in> set as. ?f a \<le> ?f (i', v)" and bs: "\<forall>b \<in> set bs. ?f b < ?f (i', v)"
      by (elim exE conjE)
    have set: "set ?c = set as \<union> {(i', v)} \<union> set bs"
      using arg_cong [OF r, of set] by auto
    have iv: "(i', v) \<in> set ?c" unfolding set by simp
    have best: "specificity (vs ! j) < specificity v \<or> (specificity (vs ! j) = specificity v \<and> i' \<le> j)"
      if j: "j < length vs" "variant_matches (vs ! j) cli model" for j
    proof -
      have "(j, vs ! j) \<in> set ?c" using j mem by blast
      then consider "(j, vs ! j) \<in> set as" | "j = i'" "vs ! j = v" | "(j, vs ! j) \<in> set bs" unfolding set by blast
      then show ?thesis
      proof cases
        case 1
        then have "i' < j" using filter_rev_enumerate_sorted [OF r] by blast
        moreover have "specificity (vs ! j) \<le> specificity v" using as 1 by auto
        ultimately show ?thesis by auto
      next
        case 3
        then show ?thesis using bs by auto
      qed simp
    qed
    have "i' < length vs" "v = vs ! i'" "variant_matches v cli model" using iv mem by blast+
    then show ?thesis using best by blast
  qed
  show ?thesis
  proof
    assume ?l
    then show "?best i" by (rule fwd)
  next
    assume b: "?best i"
    then have "(i, vs ! i) \<in> set ?c" using mem by blast
    then have "?c \<noteq> []" by (metis empty_iff list.set(1))
    then obtain i' where i': "select_variant vs cli model = Some i'"
      using max_by_key_None [of ?f "rev ?c"] by (auto simp: select_variant_def)
    from fwd [OF i'] b have "i' = i" by (metis le_antisym less_irrefl less_asym)
    with i' show ?l by simp
  qed
qed

lemma select_variant_None:
  "select_variant vs cli model = None \<longleftrightarrow> (\<forall>v \<in> set vs. \<not> variant_matches v cli model)"
proof -
  have "select_variant vs cli model = None \<longleftrightarrow>
      filter (\<lambda>(_, v). variant_matches v cli model) (List.enumerate 0 vs) = []"
    by (simp add: select_variant_def max_by_key_None)
  also have "\<dots> \<longleftrightarrow> (\<forall>v \<in> set vs. \<not> variant_matches v cli model)"
  proof -
    have "filter (\<lambda>p. P (snd p)) (List.enumerate 0 vs) = [] \<longleftrightarrow> (\<forall>v \<in> set (map snd (List.enumerate 0 vs)). \<not> P v)" for P
      by (simp only: filter_empty_conv set_map ball_simps)
    from this [of "\<lambda>v. variant_matches v cli model"] show ?thesis by (simp only: map_snd_enumerate case_prod_unfold)
  qed
  finally show ?thesis .
qed

lemma variant_matches_iff:
  "variant_matches v cli model \<longleftrightarrow>
     (iv_cli v \<noteq> None \<or> iv_model v \<noteq> None) \<and> iv_cli v \<in> {None, Some cli} \<and>
     (iv_model v = None \<or> iv_model v = model)"
  by (auto simp: variant_matches_def specificity_def split: option.splits)

section \<open>The referenced secrets\<close>

lemma set_push_new [simp]: "set (push_new xs refs) = set refs \<union> set xs"
  by (induction xs arbitrary: refs) (auto simp: push_new_def)

lemma distinct_push_new: "distinct refs \<Longrightarrow> distinct (push_new xs refs)"
  by (induction xs arbitrary: refs) (auto simp: push_new_def)

lemma fold_push_new:
  "set (fold (\<lambda>x. push_new (f x)) xs refs) = set refs \<union> (\<Union>x \<in> set xs. set (f x))"
  "distinct refs \<Longrightarrow> distinct (fold (\<lambda>x. push_new (f x)) xs refs)"
  by (induction xs arbitrary: refs) (simp_all add: distinct_push_new Un_assoc)

lemma server_secrets_set: "set (server_referenced_secrets s) = (\<Union>text \<in> set (server_strings s). set (refs_in text))"
  and server_secrets_distinct: "distinct (server_referenced_secrets s)"
  by (simp_all add: server_referenced_secrets_def fold_push_new)

lemma referenced_secrets_set:
  "set (referenced_secrets m) =
     (\<Union>(n, s) \<in> set (mf_servers m). \<Union>text \<in> set (server_strings s). set (refs_in text)) \<union>
     (\<Union>(n, h) \<in> set (mf_hooks m). \<Union>text \<in> set (hook_strings h). set (refs_in text))"
proof -
  have h: "set (fold (\<lambda>(n, h). fold (\<lambda>text. push_new (refs_in text)) (hook_strings h)) hs refs) =
      set refs \<union> (\<Union>(n, h) \<in> set hs. \<Union>text \<in> set (hook_strings h). set (refs_in text))" for hs refs
  proof (induction hs arbitrary: refs)
    case (Cons p hs)
    then show ?case by (simp add: fold_push_new(1) case_prod_unfold Un_assoc)
  qed simp
  have s: "set (fold (\<lambda>(n, s). push_new (server_referenced_secrets s)) ss refs) =
      set refs \<union> (\<Union>(n, s) \<in> set ss. \<Union>text \<in> set (server_strings s). set (refs_in text))" for ss refs
  proof (induction ss arbitrary: refs)
    case (Cons p ss)
    then show ?case by (simp add: server_secrets_set case_prod_unfold Un_assoc)
  qed simp
  show ?thesis by (simp add: referenced_secrets_def Let_def h s)
qed

lemma referenced_secrets_sorted: "sorted (referenced_secrets m) \<and> distinct (referenced_secrets m)"
proof -
  have h: "distinct refs \<Longrightarrow> distinct (fold (\<lambda>(n, h). fold (\<lambda>text. push_new (refs_in text)) (hook_strings h)) hs refs)" for hs refs
    by (induction hs arbitrary: refs) (simp_all add: fold_push_new(2) case_prod_unfold)
  have s: "distinct refs \<Longrightarrow> distinct (fold (\<lambda>(n, s). push_new (server_referenced_secrets s)) ss refs)" for ss refs
    by (induction ss arbitrary: refs) (simp_all add: distinct_push_new case_prod_unfold)
  have e: "distinct ([] :: string list)" by simp
  show ?thesis unfolding referenced_secrets_def Let_def by (simp only: sorted_sort distinct_sort h [OF s [OF e]])
qed

section \<open>Properties\<close>

text \<open>
  The scanner finds exactly the placeholders of a text: a name is found iff it is a valid name and occurs
  between \<open>${\<close> and \<open>}\<close>, nested and unclosed openings notwithstanding.\<close>

theorem refs_exact: "r \<in> set (refs_in s) \<longleftrightarrow> is_ref_name r \<and> (\<exists>a b. s = a @ ''${'' @ r @ ''}'' @ b)"
  by (simp add: refs_in_iff is_reference_def)

text \<open>
  The selected variant is the first declared one among the most specific that match, and none is selected
  exactly when none matches; a variant with a model selector never matches an unknown model.\<close>

theorem variant_selected:
  "(select_variant vs cli model = Some i \<longleftrightarrow>
     i < length vs \<and> variant_matches (vs ! i) cli model \<and>
     (\<forall>j < length vs. variant_matches (vs ! j) cli model \<longrightarrow>
        specificity (vs ! j) < specificity (vs ! i) \<or> (specificity (vs ! j) = specificity (vs ! i) \<and> i \<le> j))) \<and>
   (select_variant vs cli model = None \<longleftrightarrow> (\<forall>v \<in> set vs. \<not> variant_matches v cli model)) \<and>
   (iv_model v \<noteq> None \<longrightarrow> \<not> variant_matches v cli None)"
  using select_variant_Some select_variant_None by (auto simp: variant_matches_iff)

theorem variant_selected_witness:
  "select_variant [\<lparr>iv_cli = None, iv_model = Some ''m'', iv_path = ''a''\<rparr>, \<lparr>iv_cli = Some ''c'', iv_model = None, iv_path = ''b''\<rparr>]
     ''c'' (Some ''m'') = Some 1"
  using variant_selected [of "[\<lparr>iv_cli = None, iv_model = Some ''m'', iv_path = ''a''\<rparr>, \<lparr>iv_cli = Some ''c'', iv_model = None, iv_path = ''b''\<rparr>]"
      "''c''" "Some ''m''" 1 "\<lparr>iv_cli = None, iv_model = None, iv_path = []\<rparr>"]
  by (auto simp: variant_matches_iff specificity_def less_Suc_eq)

text \<open>
  The secrets of a manifest are exactly the names referenced in the strings of its servers and hooks, each
  once, in order.\<close>

theorem secrets_exact:
  "sorted (referenced_secrets m) \<and> distinct (referenced_secrets m) \<and>
   set (referenced_secrets m) =
     {r. \<exists>text. ((\<exists>(n, s) \<in> set (mf_servers m). text \<in> set (server_strings s)) \<or>
                (\<exists>(n, h) \<in> set (mf_hooks m). text \<in> set (hook_strings h))) \<and> is_reference text r}"
proof -
  have "set (referenced_secrets m) = {r. \<exists>text. ((\<exists>(n, s) \<in> set (mf_servers m). text \<in> set (server_strings s)) \<or>
                (\<exists>(n, h) \<in> set (mf_hooks m). text \<in> set (hook_strings h))) \<and> r \<in> set (refs_in text)}"
    unfolding referenced_secrets_set by auto
  then show ?thesis using referenced_secrets_sorted [of m] by (simp only: refs_in_iff)
qed

end
