(* ===== verification/Ruleset.thy ===== *)
theory Ruleset
  imports Policy
begin

text \<open>
  The compiled ruleset of crates/policy/src/ruleset.rs: the artifact every enforcer consumes, its
  per-layer rules, and its decisions on tools, egress, secrets, the workspace mount, denied paths
  and gateway-only hosts. A \<open>BTreeMap\<close> is its sorted entry list, a \<open>BTreeSet\<close> a finite set.
\<close>

section \<open>The artifact\<close>

definition RULESET_VERSION :: u32 where
  "RULESET_VERSION = 3"

datatype action = Allow | Deny

record defaults =
  d_tools :: action
  d_egress :: action
  d_secrets :: action
  d_filesystem :: action

record layer_rules =
  lr_deny :: "string list"
  lr_allow_all_of :: "string list list"

record guard =
  g_machine :: layer_rules
  g_bundle :: layer_rules

record server_rules =
  sr_tools :: guard
  sr_egress :: guard
  sr_secrets :: guard

record fs_rules =
  fr_read :: guard
  fr_write :: guard
  fr_deny :: guard

record compiled_ruleset =
  cr_version :: u32
  cr_defaults :: defaults
  cr_servers :: "(string \<times> server_rules) list"
  cr_any :: server_rules
  cr_filesystem :: fs_rules
  cr_gateway_only_hosts :: "string set"

definition default_defaults :: defaults where
  "default_defaults = \<lparr>d_tools = Allow, d_egress = Allow, d_secrets = Allow, d_filesystem = Allow\<rparr>"

definition default_layer_rules :: layer_rules where
  "default_layer_rules = \<lparr>lr_deny = [], lr_allow_all_of = []\<rparr>"

definition default_guard :: guard where
  "default_guard = \<lparr>g_machine = default_layer_rules, g_bundle = default_layer_rules\<rparr>"

definition default_server_rules :: server_rules where
  "default_server_rules = \<lparr>sr_tools = default_guard, sr_egress = default_guard, sr_secrets = default_guard\<rparr>"

definition default_fs_rules :: fs_rules where
  "default_fs_rules = \<lparr>fr_read = default_guard, fr_write = default_guard, fr_deny = default_guard\<rparr>"

definition default_ruleset :: compiled_ruleset where
  "default_ruleset =
     \<lparr>cr_version = RULESET_VERSION, cr_defaults = default_defaults, cr_servers = [],
      cr_any = default_server_rules, cr_filesystem = default_fs_rules, cr_gateway_only_hosts = {}\<rparr>"

definition layer_rules_is_empty :: "layer_rules \<Rightarrow> bool" where
  "layer_rules_is_empty l \<longleftrightarrow> lr_deny l = [] \<and> lr_allow_all_of l = []"

definition guard_is_empty :: "guard \<Rightarrow> bool" where
  "guard_is_empty g \<longleftrightarrow> layer_rules_is_empty (g_machine g) \<and> layer_rules_is_empty (g_bundle g)"

definition server_rules_is_empty :: "server_rules \<Rightarrow> bool" where
  "server_rules_is_empty s \<longleftrightarrow>
     guard_is_empty (sr_tools s) \<and> guard_is_empty (sr_egress s) \<and> guard_is_empty (sr_secrets s)"

definition fs_rules_is_empty :: "fs_rules \<Rightarrow> bool" where
  "fs_rules_is_empty f \<longleftrightarrow>
     guard_is_empty (fr_read f) \<and> guard_is_empty (fr_write f) \<and> guard_is_empty (fr_deny f)"

section \<open>Checking one layer\<close>

definition compiled_malformed :: "dimension \<Rightarrow> string \<Rightarrow> rule_denial" where
  "compiled_malformed d pat =
     \<lparr>rd_dimension = d,
      rd_message = ''malformed '' @ dimension_as_str d @ '' pattern '' @ dq @ pat @ dq
        @ '' in the compiled ruleset '' @ em_dash
        @ '' failing closed; fix the pattern in the manifest''\<rparr>"

definition compiled_denied :: "dimension \<Rightarrow> string \<Rightarrow> rule_denial" where
  "compiled_denied d pat =
     \<lparr>rd_dimension = d,
      rd_message = ''denied by '' @ dimension_as_str d @ '' rule '' @ dq @ ''!'' @ pat @ dq\<rparr>"

definition compiled_not_allowed :: "dimension \<Rightarrow> string list \<Rightarrow> rule_denial" where
  "compiled_not_allowed d allows =
     \<lparr>rd_dimension = d,
      rd_message = ''not in the '' @ dimension_as_str d @ '' allowlist ('' @ join_with '', '' allows @ '')''\<rparr>"

fun check_denies :: "dimension \<Rightarrow> (string \<Rightarrow> pattern_match) \<Rightarrow> string list \<Rightarrow> (unit, rule_denial) result" where
  "check_denies d matches [] = Inr ()"
| "check_denies d matches (x # xs) =
     (case matches x of
        Match \<Rightarrow> Inl (compiled_denied d x)
      | Malformed \<Rightarrow> Inl (compiled_malformed d x)
      | NoMatch \<Rightarrow> check_denies d matches xs)"

fun check_hit :: "dimension \<Rightarrow> (string \<Rightarrow> pattern_match) \<Rightarrow> bool \<Rightarrow> string list \<Rightarrow> (bool, rule_denial) result" where
  "check_hit d matches hit [] = Inr hit"
| "check_hit d matches hit (a # as) =
     (case matches a of
        Match \<Rightarrow> check_hit d matches True as
      | Malformed \<Rightarrow> Inl (compiled_malformed d a)
      | NoMatch \<Rightarrow> check_hit d matches hit as)"

fun check_bounds :: "dimension \<Rightarrow> (string \<Rightarrow> pattern_match) \<Rightarrow> string list list \<Rightarrow> (unit, rule_denial) result" where
  "check_bounds d matches [] = Inr ()"
| "check_bounds d matches (allows # rest) =
     and_then (check_hit d matches False allows) (\<lambda>hit.
       if \<not> hit then Inl (compiled_not_allowed d allows) else check_bounds d matches rest)"

definition layer_check_with :: "layer_rules \<Rightarrow> dimension \<Rightarrow> (string \<Rightarrow> pattern_match) \<Rightarrow> (unit, rule_denial) result" where
  "layer_check_with l d matches =
     and_then (check_denies d matches (lr_deny l)) (\<lambda>_. check_bounds d matches (lr_allow_all_of l))"

definition guard_check_with :: "guard \<Rightarrow> dimension \<Rightarrow> (string \<Rightarrow> pattern_match) \<Rightarrow> (unit, policy_denial) result" where
  "guard_check_with g d matches =
     and_then (map_err (\<lambda>e. \<lparr>pd_layer = Machine, pd_denial = e\<rparr>) (layer_check_with (g_machine g) d matches))
       (\<lambda>_. map_err (\<lambda>e. \<lparr>pd_layer = Bundle, pd_denial = e\<rparr>) (layer_check_with (g_bundle g) d matches))"

definition guard_check :: "guard \<Rightarrow> dimension \<Rightarrow> string \<Rightarrow> (unit, policy_denial) result" where
  "guard_check g d subject = guard_check_with g d (\<lambda>pat. glob_to_match pat subject)"

section \<open>Decisions\<close>

definition rules_for :: "compiled_ruleset \<Rightarrow> string \<Rightarrow> server_rules" where
  "rules_for rs server = (case map_of (cr_servers rs) server of Some r \<Rightarrow> r | None \<Rightarrow> cr_any rs)"

definition cr_tool_decision :: "compiled_ruleset \<Rightarrow> string \<Rightarrow> string \<Rightarrow> (unit, policy_denial) result" where
  "cr_tool_decision rs server tool = guard_check (sr_tools (rules_for rs server)) Tools tool"

definition cr_egress_decision :: "compiled_ruleset \<Rightarrow> string \<Rightarrow> string \<Rightarrow> u16 option \<Rightarrow> (unit, policy_denial) result" where
  "cr_egress_decision rs server host port =
     guard_check_with (sr_egress (rules_for rs server)) Egress (\<lambda>pat. egress_match pat host port)"

definition cr_secret_decision :: "compiled_ruleset \<Rightarrow> string \<Rightarrow> string \<Rightarrow> (unit, policy_denial) result" where
  "cr_secret_decision rs server reference = guard_check (sr_secrets (rules_for rs server)) Secrets reference"

definition no_write_scope :: policy_denial where
  "no_write_scope =
     \<lparr>pd_layer = DenyByDefault,
      pd_denial = \<lparr>rd_dimension = FsWrite,
        rd_message = ''no [policy.filesystem] write scope covers the workspace ''
          @ ''(sandbox workspace writes are deny-by-default)''\<rparr>\<rparr>"

fun try_spellings :: "guard \<Rightarrow> policy_denial option \<Rightarrow> string list \<Rightarrow> (unit, policy_denial) result option" where
  "try_spellings g refusal [] = map_option Inl refusal"
| "try_spellings g refusal (s # ss) =
     (case guard_check g FsWrite s of
        Inr _ \<Rightarrow> Some (Inr ())
      | Inl e \<Rightarrow> try_spellings g (case refusal of None \<Rightarrow> Some e | Some r \<Rightarrow> Some r) ss)"

text \<open>\<open>None\<close> would be the \<open>expect\<close> of the source failing; \<open>workspace_write_total\<close> excludes it.\<close>

definition workspace_write_decision :: "compiled_ruleset \<Rightarrow> (unit, policy_denial) result option" where
  "workspace_write_decision rs =
     (if guard_is_empty (fr_write (cr_filesystem rs)) then Some (Inl no_write_scope)
      else try_spellings (fr_write (cr_filesystem rs)) None [''./'', ''.''])"

definition fs_deny_decision :: "compiled_ruleset \<Rightarrow> string list \<Rightarrow> (unit, policy_denial) result" where
  "fs_deny_decision rs spellings =
     guard_check_with (fr_deny (cr_filesystem rs)) FsDeny
       (\<lambda>pat. if list_ex (\<lambda>s. glob_match pat s) spellings then Match else NoMatch)"

definition egress_constrained :: "compiled_ruleset \<Rightarrow> string \<Rightarrow> bool" where
  "egress_constrained rs server \<longleftrightarrow> \<not> guard_is_empty (sr_egress (rules_for rs server))"

definition is_gateway_only_host :: "compiled_ruleset \<Rightarrow> string \<Rightarrow> bool" where
  "is_gateway_only_host rs host =
     (if cr_gateway_only_hosts rs = {} then False
      else normalize_host host \<in> cr_gateway_only_hosts rs)"

section \<open>What a check means\<close>

definition bound_ok :: "(string \<Rightarrow> pattern_match) \<Rightarrow> string list \<Rightarrow> bool" where
  "bound_ok matches as \<longleftrightarrow> (\<forall>a \<in> set as. matches a \<noteq> Malformed) \<and> (\<exists>a \<in> set as. matches a = Match)"

definition layer_rules_ok :: "(string \<Rightarrow> pattern_match) \<Rightarrow> layer_rules \<Rightarrow> bool" where
  "layer_rules_ok matches l \<longleftrightarrow>
     (\<forall>x \<in> set (lr_deny l). matches x = NoMatch) \<and> (\<forall>as \<in> set (lr_allow_all_of l). bound_ok matches as)"

lemma layer_check_ok: "layer_check_with l d matches = Inr () \<longleftrightarrow> layer_rules_ok matches l"
proof -
  have d: "check_denies d matches xs = Inr () \<longleftrightarrow> (\<forall>x \<in> set xs. matches x = NoMatch)" for xs
    by (induction xs) (auto split: pattern_match.splits)
  have h: "check_hit d matches hit as = Inr b \<longleftrightarrow>
      (\<forall>a \<in> set as. matches a \<noteq> Malformed) \<and> (b \<longleftrightarrow> hit \<or> (\<exists>a \<in> set as. matches a = Match))" for hit as b
    by (induction as arbitrary: hit) (auto split: pattern_match.splits)
  have b: "check_bounds d matches bs = Inr () \<longleftrightarrow> (\<forall>as \<in> set bs. bound_ok matches as)" for bs
    by (induction bs) (auto simp: and_then_Inr h bound_ok_def split: if_splits)
  show ?thesis by (simp add: layer_check_with_def and_then_Inr d b layer_rules_ok_def)
qed

lemma guard_check_ok:
  "guard_check_with g d matches = Inr () \<longleftrightarrow>
     layer_rules_ok matches (g_machine g) \<and> layer_rules_ok matches (g_bundle g)"
  by (simp add: guard_check_with_def and_then_Inr layer_check_ok)

lemma guard_check_layer:
  "guard_check_with g d matches = Inl e \<Longrightarrow>
     pd_layer e = (if layer_rules_ok matches (g_machine g) then Bundle else Machine)"
  using layer_check_ok [of "g_machine g" d matches]
  by (cases "layer_check_with (g_machine g) d matches"; cases "layer_check_with (g_bundle g) d matches")
    (auto simp: guard_check_with_def)

lemma layer_check_dimension: "layer_check_with l d matches = Inl e \<Longrightarrow> rd_dimension e = d"
proof -
  have d: "check_denies d matches xs = Inl e \<Longrightarrow> rd_dimension e = d" for xs
    by (induction xs) (auto simp: compiled_denied_def compiled_malformed_def split: pattern_match.splits)
  have h: "check_hit d matches hit as = Inl e \<Longrightarrow> rd_dimension e = d" for hit as
    by (induction as arbitrary: hit) (auto simp: compiled_malformed_def split: pattern_match.splits)
  have b: "check_bounds d matches bs = Inl e \<Longrightarrow> rd_dimension e = d" for bs
    by (induction bs) (auto simp: and_then_Inl compiled_not_allowed_def dest: h split: if_splits)
  show "layer_check_with l d matches = Inl e \<Longrightarrow> rd_dimension e = d"
    by (auto simp: layer_check_with_def and_then_Inl dest: d b)
qed

text \<open>A stricter matcher, in the sense of the two kinds of entries, keeps a layer satisfied.\<close>

lemma layer_rules_ok_mono:
  assumes "layer_rules_ok matches l"
    and "\<And>x. x \<in> set (lr_deny l) \<Longrightarrow> matches x = NoMatch \<Longrightarrow> matches' x = NoMatch"
    and "\<And>as a. as \<in> set (lr_allow_all_of l) \<Longrightarrow> a \<in> set as \<Longrightarrow>
      (matches' a = Malformed \<longrightarrow> matches a = Malformed) \<and> (matches a = Match \<longrightarrow> matches' a = Match)"
  shows "layer_rules_ok matches' l"
  using assms unfolding layer_rules_ok_def bound_ok_def by meson

lemma workspace_write_total: "workspace_write_decision rs \<noteq> None"
  by (auto simp: workspace_write_decision_def split: sum.splits)

lemma workspace_write_ok:
  "workspace_write_decision rs = Some (Inr ()) \<longleftrightarrow>
     \<not> guard_is_empty (fr_write (cr_filesystem rs)) \<and>
     (\<exists>s \<in> {''./'', ''.''}. guard_check (fr_write (cr_filesystem rs)) FsWrite s = Inr ())"
  by (auto simp: workspace_write_decision_def split: sum.splits)

lemma fs_deny_ok:
  "fs_deny_decision rs spellings = Inr () \<longleftrightarrow>
     (\<forall>l \<in> {g_machine (fr_deny (cr_filesystem rs)), g_bundle (fr_deny (cr_filesystem rs))}.
        (\<forall>pat \<in> set (lr_deny l). \<forall>s \<in> set spellings. \<not> glob_match pat s) \<and>
        (\<forall>as \<in> set (lr_allow_all_of l). \<exists>a \<in> set as. \<exists>s \<in> set spellings. glob_match a s))"
  by (auto simp: fs_deny_decision_def guard_check_ok layer_rules_ok_def bound_ok_def list_ex_iff split: if_splits)

text \<open>Host spellings the fence does not tell apart, from the canonical form's contract.\<close>

lemma gateway_only_spelling: "nh.same_host a b \<Longrightarrow> is_gateway_only_host rs a = is_gateway_only_host rs b"
  using nh.fenced_spelling [of a b "cr_gateway_only_hosts rs"] by (simp add: is_gateway_only_host_def)

end
