(* ===== verification/Compile.thy ===== *)
theory Compile
  imports Ruleset
begin

text \<open>
  \<open>compile\<close> of crates/policy/src/compile.rs: the machine and bundle tables folded into a
  \<open>compiled_ruleset\<close>. The one ambient read of the source, the \<open>HOME\<close> variable, is the argument
  \<open>env_home\<close>. The compiled decisions are proved to be engines of the same contract as the live
  ones, so that the two agree on every server name, whether compilation listed it or not.
\<close>

section \<open>Folding a layer\<close>

definition sort_dedup :: "'a::linorder list \<Rightarrow> 'a list" where
  "sort_dedup xs = remdups_adj (sort xs)"

lemma set_sort_dedup [simp]: "set (sort_dedup xs) = set xs"
  by (simp add: sort_dedup_def)

lemma sort_dedup_Nil [simp]: "sort_dedup xs = [] \<longleftrightarrow> xs = []"
  by (metis set_sort_dedup set_empty)

lemma distinct_remdups_adj: "sorted xs \<Longrightarrow> distinct (remdups_adj xs)"
  by (induction xs rule: remdups_adj.induct) auto

lemma sorted_sort_dedup: "sorted_wrt (<) (sort_dedup xs)"
  by (simp add: sort_dedup_def strict_sorted_iff distinct_remdups_adj)

text \<open>One key's allow entries, and the deny entries of the keys, as the fold collects them.\<close>

definition fold_denies :: "string list \<Rightarrow> string list" where
  "fold_denies rules = List.map_filter (strip_prefix ''!'') rules"

definition fold_allows :: "string list \<Rightarrow> string list" where
  "fold_allows rules = filter (\<lambda>r. strip_prefix ''!'' r = None) rules"

fun fold_keys :: "rule_map \<Rightarrow> string list \<Rightarrow> string list \<times> string list list" where
  "fold_keys m [] = ([], [])"
| "fold_keys m (key # keys) =
     (case map_of m key of
        None \<Rightarrow> fold_keys m keys
      | Some rules \<Rightarrow>
          let (deny, bounds) = fold_keys m keys; allows = fold_allows rules
          in (fold_denies rules @ deny, if allows = [] then bounds else sort_dedup allows # bounds))"

definition fold_layer :: "rule_map \<Rightarrow> string \<Rightarrow> layer_rules" where
  "fold_layer m name =
     (let (deny, bounds) = fold_keys m (policy_keys name)
      in \<lparr>lr_deny = sort_dedup deny, lr_allow_all_of = sort bounds\<rparr>)"

definition compile_server_rules :: "policy \<Rightarrow> policy \<Rightarrow> string \<Rightarrow> server_rules" where
  "compile_server_rules machine bundle name =
     \<lparr>sr_tools = \<lparr>g_machine = fold_layer (p_tools machine) name, g_bundle = fold_layer (p_tools bundle) name\<rparr>,
      sr_egress = \<lparr>g_machine = fold_layer (p_egress machine) name, g_bundle = fold_layer (p_egress bundle) name\<rparr>,
      sr_secrets = \<lparr>g_machine = fold_layer (p_secrets machine) name, g_bundle = fold_layer (p_secrets bundle) name\<rparr>\<rparr>"

section \<open>The filesystem layers\<close>

definition fs_layer :: "string list \<Rightarrow> layer_rules" where
  "fs_layer globs =
     (if globs = [] then default_layer_rules
      else \<lparr>lr_deny = [], lr_allow_all_of = [sort_dedup globs]\<rparr>)"

text \<open>\<open>Path::join\<close> on Unix: an absolute right side replaces the left one.\<close>

definition path_join :: "string \<Rightarrow> string \<Rightarrow> string" where
  "path_join base rest =
     (if starts_with rest ''/'' then rest
      else if base = [] \<or> ends_with base ''/'' then base @ rest
      else base @ ''/'' @ rest)"

definition home_rest :: "string \<Rightarrow> string option" where
  "home_rest glob =
     (if glob = ''~'' \<or> glob = ''$HOME'' \<or> glob = ''${HOME}'' then Some []
      else case strip_prefix ''~/'' glob of
        Some r \<Rightarrow> Some r
      | None \<Rightarrow> (case strip_prefix ''$HOME/'' glob of
          Some r \<Rightarrow> Some r
        | None \<Rightarrow> strip_prefix ''${HOME}/'' glob))"

definition expand_home :: "string \<Rightarrow> string option \<Rightarrow> string" where
  "expand_home glob home =
     (case home of
        None \<Rightarrow> glob
      | Some h \<Rightarrow>
          (case home_rest glob of
             Some rest \<Rightarrow> if rest = [] then from_utf8_lossy h else from_utf8_lossy (path_join h rest)
           | None \<Rightarrow> glob))"

definition absolute_home :: "string option \<Rightarrow> string option" where
  "absolute_home env_home =
     (case env_home of Some h \<Rightarrow> if starts_with h ''/'' then Some h else None | None \<Rightarrow> None)"

definition fs_deny_layer :: "string option \<Rightarrow> string list \<Rightarrow> layer_rules" where
  "fs_deny_layer env_home globs =
     \<lparr>lr_deny = sort_dedup (map (\<lambda>g. expand_home g (absolute_home env_home)) globs), lr_allow_all_of = []\<rparr>"

section \<open>Compiling\<close>

definition policy_names :: "policy \<Rightarrow> policy \<Rightarrow> string list" where
  "policy_names machine bundle =
     filter (\<lambda>k. k \<noteq> ''*'')
       (concat (map (map fst)
         [p_tools machine, p_tools bundle, p_egress machine, p_egress bundle,
          p_secrets machine, p_secrets bundle]))"

definition compile :: "string option \<Rightarrow> policy \<Rightarrow> policy \<Rightarrow> string list \<Rightarrow> compiled_ruleset" where
  "compile env_home machine bundle servers =
     (let names = sort_dedup (servers @ policy_names machine bundle) in
      \<lparr>cr_version = RULESET_VERSION,
       cr_defaults = default_defaults,
       cr_servers = map (\<lambda>n. (n, compile_server_rules machine bundle n)) names,
       cr_any = compile_server_rules machine bundle ''*'',
       cr_filesystem =
         \<lparr>fr_read = \<lparr>g_machine = fs_layer (fs_read (p_filesystem machine)),
                    g_bundle = fs_layer (fs_read (p_filesystem bundle))\<rparr>,
          fr_write = \<lparr>g_machine = fs_layer (fs_write (p_filesystem machine)),
                     g_bundle = fs_layer (fs_write (p_filesystem bundle))\<rparr>,
          fr_deny = \<lparr>g_machine = fs_deny_layer env_home (fs_deny (p_filesystem machine)),
                    g_bundle = fs_deny_layer env_home (fs_deny (p_filesystem bundle))\<rparr>\<rparr>,
       cr_gateway_only_hosts = {}\<rparr>)"

section \<open>A folded layer means what its table means\<close>

lemma fold_denies_set: "set (fold_denies rules) = denies_of rules"
  by (auto simp: fold_denies_def denies_of_def set_map_filter strip_prefix_Some)

lemma fold_allows_eq: "fold_allows rules = allows_of rules"
  by (simp add: fold_allows_def allows_of_def starts_with_def)

lemma fold_keys_ok:
  "fold_keys m keys = (deny, bounds) \<Longrightarrow>
   (\<forall>x \<in> set deny. matches x = NoMatch) \<and> (\<forall>as \<in> set bounds. bound_ok matches as) \<longleftrightarrow>
   (\<forall>key \<in> set keys. \<forall>rules. map_of m key = Some rules \<longrightarrow> rules_ok matches rules)"
proof (induction keys arbitrary: deny bounds)
  case Nil
  then show ?case by simp
next
  case (Cons key keys)
  obtain deny' bounds' where r: "fold_keys m keys = (deny', bounds')" by fastforce
  show ?case
  proof (cases "map_of m key")
    case None
    with Cons r show ?thesis by simp
  next
    case (Some rules)
    with Cons.prems r have eq: "deny = fold_denies rules @ deny'"
      "bounds = (if allows_of rules = [] then bounds' else sort_dedup (allows_of rules) # bounds')"
      by (auto simp: Let_def fold_allows_eq)
    have "rules_ok matches rules \<longleftrightarrow> (\<forall>x \<in> set (fold_denies rules). matches x = NoMatch) \<and>
        (allows_of rules = [] \<or> bound_ok matches (sort_dedup (allows_of rules)))"
      by (simp add: rules_ok_def fold_denies_set allowlist_ok_def bound_ok_def)
    with Cons.IH [OF r] Some eq show ?thesis by auto
  qed
qed

lemma fold_layer_ok: "layer_rules_ok matches (fold_layer m name) \<longleftrightarrow> keys_ok m name matches"
proof -
  obtain deny bounds where r: "fold_keys m (policy_keys name) = (deny, bounds)" by fastforce
  with fold_keys_ok [OF r, of matches] show ?thesis
    by (simp add: fold_layer_def layer_rules_ok_def keys_ok_def)
qed

text \<open>A name that no table mentions folds to the wildcard rules, so the \<open>any\<close> bucket is exact.\<close>

lemma keys_ok_unlisted: "name \<notin> fst ` set m \<Longrightarrow> keys_ok m name matches = keys_ok m ''*'' matches"
  by (auto simp: keys_ok_def policy_keys_def map_of_eq_None_iff [symmetric])

definition compiled_layer_ok :: "dimension \<Rightarrow> policy \<Rightarrow> string \<Rightarrow> (string \<Rightarrow> pattern_match) \<Rightarrow> bool" where
  "compiled_layer_ok d p server matches =
     keys_ok (case d of Tools \<Rightarrow> p_tools p | Egress \<Rightarrow> p_egress p | _ \<Rightarrow> p_secrets p) server matches"

definition dim_guard :: "dimension \<Rightarrow> server_rules \<Rightarrow> guard" where
  "dim_guard d s = (case d of Tools \<Rightarrow> sr_tools s | Egress \<Rightarrow> sr_egress s | _ \<Rightarrow> sr_secrets s)"

lemma rules_for_compile:
  "rules_for (compile home m b servers) server =
     compile_server_rules m b (if server \<in> set servers \<union> set (policy_names m b) then server else ''*'')"
  by (auto simp: rules_for_def compile_def Let_def map_of_map_restrict restrict_map_def split: option.splits)

lemma policy_names_listed:
  "server \<noteq> ''*'' \<Longrightarrow> server \<notin> set (policy_names m b) \<Longrightarrow>
   server \<notin> fst ` set (p_tools m) \<and> server \<notin> fst ` set (p_tools b) \<and>
   server \<notin> fst ` set (p_egress m) \<and> server \<notin> fst ` set (p_egress b) \<and>
   server \<notin> fst ` set (p_secrets m) \<and> server \<notin> fst ` set (p_secrets b)"
  by (auto simp: policy_names_def)

lemma compiled_guard_layers:
  "layer_rules_ok matches (g_machine (dim_guard d (rules_for (compile home m b servers) server)))
     = compiled_layer_ok d m server matches \<and>
   layer_rules_ok matches (g_bundle (dim_guard d (rules_for (compile home m b servers) server)))
     = compiled_layer_ok d b server matches"
proof (cases "server \<in> set servers \<union> set (policy_names m b) \<or> server = ''*''")
  case True
  then show ?thesis
    by (cases d) (auto simp: rules_for_compile dim_guard_def compile_server_rules_def compiled_layer_ok_def fold_layer_ok)
next
  case False
  then have n: "server \<noteq> ''*''" "server \<notin> set (policy_names m b)" by auto
  from False policy_names_listed [OF n] show ?thesis
    by (cases d) (simp_all add: rules_for_compile dim_guard_def compile_server_rules_def compiled_layer_ok_def
        fold_layer_ok keys_ok_unlisted)
qed

section \<open>The compiled decisions keep the contract\<close>

lemma tool_layer_keys: "tool_layer_ok p (server, tool) = compiled_layer_ok Tools p server (\<lambda>pat. glob_to_match pat tool)"
  by (simp add: tool_layer_ok_def tool_allowed_def map_allowed_ok compiled_layer_ok_def)

lemma egress_layer_keys: "egress_layer_ok p (server, host) = compiled_layer_ok Egress p server (\<lambda>pat. egress_match pat host None)"
  by (simp add: egress_layer_ok_def egress_allowed_def map_allowed_ok compiled_layer_ok_def)

lemma secret_layer_keys: "secret_layer_ok p (server, r) = compiled_layer_ok Secrets p server (\<lambda>pat. glob_to_match pat r)"
  by (simp add: secret_layer_ok_def secret_allowed_def map_allowed_ok compiled_layer_ok_def)

lemma compiled_check_ok:
  "guard_check_with (dim_guard d (rules_for (compile home m b servers) server)) d' matches = Inr () \<longleftrightarrow>
     compiled_layer_ok d m server matches \<and> compiled_layer_ok d b server matches"
  by (simp add: guard_check_ok compiled_guard_layers)

lemma compiled_check_layer:
  "guard_check_with (dim_guard d (rules_for (compile home m b servers) server)) d' matches = Inl e \<Longrightarrow>
     pd_layer e = (if compiled_layer_ok d m server matches then Bundle else Machine)"
  using guard_check_layer by (simp add: compiled_guard_layers)

lemma cr_decisions_dim:
  "cr_tool_decision rs server tool = guard_check_with (dim_guard Tools (rules_for rs server)) Tools (\<lambda>pat. glob_to_match pat tool)"
  "cr_egress_decision rs server host port = guard_check_with (dim_guard Egress (rules_for rs server)) Egress (\<lambda>pat. egress_match pat host port)"
  "cr_secret_decision rs server r = guard_check_with (dim_guard Secrets (rules_for rs server)) Secrets (\<lambda>pat. glob_to_match pat r)"
  by (simp_all add: cr_tool_decision_def cr_egress_decision_def cr_secret_decision_def guard_check_def dim_guard_def)

lemmas compiled_check = compiled_check_ok compiled_check_layer cr_decisions_dim

interpretation compiled_tools: engine_pair tool_layer_ok
  "\<lambda>m b q. tool_decision m b (fst q) (snd q)"
  "\<lambda>m b q. cr_tool_decision (compile home m b servers) (fst q) (snd q)" for home servers
  by unfold_locales
    (use tool_layer_keys in \<open>auto simp: compiled_check dest!: compiled_check_layer split: if_splits\<close>)

interpretation compiled_egress: engine_pair egress_layer_ok
  "\<lambda>m b q. egress_decision m b (fst q) (snd q)"
  "\<lambda>m b q. cr_egress_decision (compile home m b servers) (fst q) (snd q) None" for home servers
  by unfold_locales
    (use egress_layer_keys in \<open>auto simp: compiled_check dest!: compiled_check_layer split: if_splits\<close>)

interpretation compiled_secrets: engine_pair secret_layer_ok
  "\<lambda>m b q. secret_decision m b (fst q) (snd q)"
  "\<lambda>m b q. cr_secret_decision (compile home m b servers) (fst q) (snd q)" for home servers
  by unfold_locales
    (use secret_layer_keys in \<open>auto simp: compiled_check dest!: compiled_check_layer split: if_splits\<close>)

end
