(* ===== verification/Decide.thy ===== *)
theory Decide
  imports Compile
begin

text \<open>
  The per-connection decision of crates/egress/src/decide.rs (\<open>EgressGuard::decide\<close>,
  \<open>guard_block_event\<close>) and the flight-recorder event it produces (\<open>RunEvent::Egress\<close> of
  crates/recorder/src/lib.rs). The clock is an argument.
\<close>

section \<open>Events and decisions\<close>

record egress_event =
  ev_ts :: u64
  ev_server :: string
  ev_host :: string
  ev_allowed :: bool
  ev_rule :: "string option"

record egress_verdict =
  dc_allowed :: bool
  dc_event :: egress_event

definition version_refusal :: "u32 \<Rightarrow> string" where
  "version_refusal v =
     ''ruleset version '' @ show_nat (unat v) @ '' is newer than this proxy understands (max ''
       @ show_nat (unat RULESET_VERSION) @ '') '' @ em_dash @ '' failing closed''"

definition gateway_refusal :: "string \<Rightarrow> string" where
  "gateway_refusal host =
     [CHR 0x27] @ host @ [CHR 0x27] @ '' is a declared MCP upstream '' @ em_dash
       @ '' reachable only through the gateway relay under lockdown, not by direct egress''"

definition decide_result :: "compiled_ruleset \<Rightarrow> string \<Rightarrow> string \<Rightarrow> u16 \<Rightarrow> (unit, string) result" where
  "decide_result rs server host port =
     (if RULESET_VERSION < cr_version rs then Inl (version_refusal (cr_version rs))
      else if is_gateway_only_host rs host then Inl (gateway_refusal host)
      else map_err denial_to_string (cr_egress_decision rs server host (Some port)))"

definition decide :: "u64 \<Rightarrow> compiled_ruleset \<Rightarrow> string \<Rightarrow> string \<Rightarrow> u16 \<Rightarrow> egress_verdict" where
  "decide now rs server host port =
     (let r = decide_result rs server host port; allowed = is_ok r
      in \<lparr>dc_allowed = allowed,
          dc_event = \<lparr>ev_ts = now, ev_server = server, ev_host = host, ev_allowed = allowed,
                      ev_rule = result_err r\<rparr>\<rparr>)"

definition guard_block_event :: "u64 \<Rightarrow> string \<Rightarrow> string \<Rightarrow> string \<Rightarrow> egress_event" where
  "guard_block_event now server host rule =
     \<lparr>ev_ts = now, ev_server = server, ev_host = host, ev_allowed = False, ev_rule = Some rule\<rparr>"

section \<open>What a decision allows\<close>

lemma decide_allowed:
  "dc_allowed (decide now rs server host port) \<longleftrightarrow>
     cr_version rs \<le> RULESET_VERSION \<and> \<not> is_gateway_only_host rs host \<and>
     cr_egress_decision rs server host (Some port) = Inr ()"
  by (cases "cr_egress_decision rs server host (Some port)") (auto simp: decide_def decide_result_def)

lemma decide_event [simp]:
  "ev_allowed (dc_event (decide now rs server host port)) = dc_allowed (decide now rs server host port)"
  "ev_server (dc_event (decide now rs server host port)) = server"
  "ev_host (dc_event (decide now rs server host port)) = host"
  "ev_ts (dc_event (decide now rs server host port)) = now"
  by (simp_all add: decide_def Let_def)

lemma decide_rule:
  "ev_rule (dc_event (decide now rs server host port)) = None \<longleftrightarrow> dc_allowed (decide now rs server host port)"
  by (cases "decide_result rs server host port") (simp_all add: decide_def)

lemma guard_block_event_simps [simp]:
  "ev_allowed (guard_block_event now server host rule) = False"
  "ev_server (guard_block_event now server host rule) = server"
  "ev_host (guard_block_event now server host rule) = host"
  "ev_rule (guard_block_event now server host rule) = Some rule"
  by (simp_all add: guard_block_event_def)

lemma decide_fence: "cr_gateway_only_hosts rs = H \<Longrightarrow> normalize_host host \<in> H \<Longrightarrow>
   \<not> dc_allowed (decide now rs server host port)"
  by (auto simp: decide_allowed is_gateway_only_host_def)

lemma decide_compiled:
  "dc_allowed (decide now (compile home m b servers) server host port) \<longleftrightarrow>
     compiled_layer_ok Egress m server (\<lambda>pat. egress_match pat host (Some port)) \<and>
     compiled_layer_ok Egress b server (\<lambda>pat. egress_match pat host (Some port))"
  by (simp add: decide_allowed cr_decisions_dim compiled_check_ok)
    (simp add: compile_def Let_def is_gateway_only_host_def)

section \<open>Properties\<close>

text \<open>C3.
  Compiling loses nothing: for every machine and bundle policy, every list of servers handed to the
  compiler and every server name, listed or not, the compiled tool, egress and secret decisions give
  the verdict of the live ones and blame the same layer.\<close>

theorem compiled_equals_live:
  "map_err pd_layer (cr_tool_decision (compile home m b servers) server tool)
     = map_err pd_layer (tool_decision m b server tool) \<and>
   map_err pd_layer (cr_egress_decision (compile home m b servers) server host None)
     = map_err pd_layer (egress_decision m b server host) \<and>
   map_err pd_layer (cr_secret_decision (compile home m b servers) server reference)
     = map_err pd_layer (secret_decision m b server reference)"
  using compiled_tools.same_layer [of m b "(server, tool)"] compiled_egress.same_layer [of m b "(server, host)"]
    compiled_secrets.same_layer [of m b "(server, reference)"] by simp

text \<open>
  At the proxy the compiled ruleset decides what both policy layers say of the host at the exact
  CONNECT port: neither layer can be bypassed and neither adds a refusal of its own.\<close>

theorem decide_exact_port:
  "dc_allowed (decide now (compile home m b servers) server host port) \<longleftrightarrow>
     map_allowed (p_egress m) Egress server (\<lambda>pat. egress_match pat host (Some port)) = Inr () \<and>
     map_allowed (p_egress b) Egress server (\<lambda>pat. egress_match pat host (Some port)) = Inr ()"
  by (simp add: decide_compiled compiled_layer_ok_def map_allowed_ok)

text \<open>
  The machine layer is a ceiling: what it refuses a server stays refused, with the machine named,
  whatever bundle policy it is compiled with and whatever the server is called.\<close>

theorem machine_refusal_final:
  assumes "tool_allowed m server tool \<noteq> Inr ()"
  shows "\<forall>b home servers. \<exists>e. cr_tool_decision (compile home m b servers) server tool = Inl e \<and> pd_layer e = Machine"
proof (intro allI)
  fix b home servers
  have "\<not> tool_layer_ok m (server, tool)" using assms by (simp add: tool_layer_ok_def)
  from compiled_tools.b.machine_refusal_wins [OF this, of home b servers] show
    "\<exists>e. cr_tool_decision (compile home m b servers) server tool = Inl e \<and> pd_layer e = Machine" by simp
qed

theorem machine_refusal_final_witness:
  "\<exists>e. cr_tool_decision (compile None (default_policy\<lparr>p_tools := [(''*'', [ ''!rm'' ])]\<rparr>) default_policy [ ''fs'' ]) ''fs'' ''rm''
     = Inl e \<and> pd_layer e = Machine"
proof -
  have "tool_allowed (default_policy\<lparr>p_tools := [(''*'', [ ''!rm'' ])]\<rparr>) ''fs'' ''rm'' \<noteq> Inr ()" by code_simp
  from machine_refusal_final [OF this] show ?thesis by blast
qed

text \<open>
  A bundle policy never widens: whatever the compiled ruleset allows with a bundle, it allows with an
  empty bundle, in each of the three dimensions.\<close>

theorem bundle_only_narrows:
  "(cr_tool_decision (compile home m b servers) server tool = Inr () \<longrightarrow>
      cr_tool_decision (compile home m default_policy servers') server tool = Inr ()) \<and>
   (cr_egress_decision (compile home m b servers) server host port = Inr () \<longrightarrow>
      cr_egress_decision (compile home m default_policy servers') server host port = Inr ()) \<and>
   (cr_secret_decision (compile home m b servers) server reference = Inr () \<longrightarrow>
      cr_secret_decision (compile home m default_policy servers') server reference = Inr ())"
proof -
  have "compiled_layer_ok d default_policy server matches" for d matches
    by (cases d) (simp_all add: compiled_layer_ok_def default_policy_def keys_ok_def)
  then show ?thesis by (simp add: cr_decisions_dim compiled_check_ok)
qed

theorem bundle_only_narrows_witness:
  "cr_tool_decision (compile None default_policy default_policy []) ''fs'' ''ls'' = Inr ()"
proof -
  have "cr_tool_decision (compile None default_policy (default_policy\<lparr>p_tools := [(''fs'', [ ''l*'' ])]\<rparr>) []) ''fs'' ''ls'' = Inr ()"
    by code_simp
  then show ?thesis using bundle_only_narrows by blast
qed

text \<open>
  A deny under the wildcard key of the machine's egress table that matches, or that does not parse,
  refuses the host to every server, however the manifest names it, at every proxy decision.\<close>

theorem star_deny_rename_proof:
  assumes "map_of (p_egress m) ''*'' = Some rules" "''!'' @ pat \<in> set rules"
    and "egress_match pat host (Some port) \<noteq> NoMatch"
  shows "\<forall>server b home servers now. \<not> dc_allowed (decide now (compile home m b servers) server host port)"
proof (intro allI notI)
  fix server b home servers now
  assume "dc_allowed (decide now (compile home m b servers) server host port)"
  then have "keys_ok (p_egress m) server (\<lambda>pat. egress_match pat host (Some port))"
    by (simp add: decide_compiled compiled_layer_ok_def)
  then have "rules_ok (\<lambda>pat. egress_match pat host (Some port)) rules" using assms(1) by (rule keys_ok_star)
  with assms(2,3) show False by (auto dest: rules_ok_deny)
qed

theorem star_deny_rename_proof_witness:
  "\<not> dc_allowed (decide 0 (compile None (default_policy\<lparr>p_egress := [(''*'', [ ''!evil:0'' ])]\<rparr>) default_policy []) ''any'' ''ok'' 443)"
proof -
  have "map_of (p_egress (default_policy\<lparr>p_egress := [(''*'', [ ''!evil:0'' ])]\<rparr>)) ''*'' = Some [ ''!evil:0'' ]" by simp
  moreover have "egress_match ''evil:0'' ''ok'' (Some 443) \<noteq> NoMatch"
    by (simp add: egress_match_def split_pattern_port_def rsplit_once_def nonzero_port_def parse_u16_def digit_val_def
        ascii_defs byte_def)
  ultimately show ?thesis
    using star_deny_rename_proof [of "default_policy\<lparr>p_egress := [(''*'', [ ''!evil:0'' ])]\<rparr>" "[ ''!evil:0'' ]" "''evil:0''"]
    by simp
qed

text \<open>A layer's write globs cover a spelling of the root; a layer without write globs does not object.\<close>

definition scope_covers :: "string list \<Rightarrow> string \<Rightarrow> bool" where
  "scope_covers globs s \<longleftrightarrow> globs = [] \<or> (\<exists>g \<in> set globs. glob_match g s)"

text \<open>
  Workspace writes are denied by default and granted only when every layer that declares write globs
  matches one and the same spelling of the workspace root; an engine with no write globs at all refuses.\<close>

theorem workspace_write_scope:
  "workspace_write_decision (compile home m b servers) = Some (Inr ()) \<longleftrightarrow>
     \<not> (fs_write (p_filesystem m) = [] \<and> fs_write (p_filesystem b) = []) \<and>
     (\<exists>s \<in> {''./'', ''.''}. scope_covers (fs_write (p_filesystem m)) s \<and> scope_covers (fs_write (p_filesystem b)) s)"
proof -
  have l: "layer_rules_ok (\<lambda>pat. glob_to_match pat s) (fs_layer globs) \<longleftrightarrow> globs = [] \<or> (\<exists>g \<in> set globs. glob_match g s)"
    for globs s
    by (auto simp: fs_layer_def default_layer_rules_def layer_rules_ok_def bound_ok_def glob_to_match_def)
  have e: "layer_rules_is_empty (fs_layer globs) \<longleftrightarrow> globs = []" for globs
    by (simp add: fs_layer_def default_layer_rules_def layer_rules_is_empty_def)
  show ?thesis
    by (simp add: workspace_write_ok compile_def Let_def guard_is_empty_def guard_check_def guard_check_ok l e scope_covers_def)
qed

text \<open>
  The denied paths of both layers add up: a path is let through exactly when no deny glob of the machine
  or the bundle, with the home prefix expanded, matches any of its spellings.\<close>

theorem fs_deny_union:
  "fs_deny_decision (compile home m b servers) spellings = Inr () \<longleftrightarrow>
     \<not> (\<exists>g \<in> set (fs_deny (p_filesystem m)) \<union> set (fs_deny (p_filesystem b)). \<exists>s \<in> set spellings.
        glob_match (expand_home g (absolute_home home)) s)"
  by (auto simp: fs_deny_ok compile_def Let_def fs_deny_layer_def)

text \<open>
  A gateway-only host is unreachable by direct egress in every spelling of case and root dot, for every
  server and port, even where the policy allows it; and a ruleset of a newer version allows nothing.\<close>

theorem gateway_fence:
  assumes "normalize_host h \<in> cr_gateway_only_hosts rs \<or> RULESET_VERSION < cr_version rs"
    and "to_ascii_lowercase host = to_ascii_lowercase h \<or> (\<not> ends_with h ''.'' \<and> host = h @ ''.'')"
  shows "\<not> dc_allowed (decide now rs server host port)"
proof -
  have "nh.same_host host h" using assms(2) nh.same_host_case nh.same_host_dot by blast
  then have "normalize_host host = normalize_host h" by (simp add: nh.same_host_def)
  with assms(1) show ?thesis by (auto simp: decide_allowed is_gateway_only_host_def)
qed

theorem gateway_fence_witness:
  "\<not> dc_allowed (decide 0 (default_ruleset\<lparr>cr_gateway_only_hosts := {''mcp.io''}\<rparr>) ''s'' ''MCP.io'' 443)"
proof (rule gateway_fence [where h = "''mcp.io''"])
  have "normalize_host ''mcp.io'' = ''mcp.io''" by code_simp
  then show "normalize_host ''mcp.io'' \<in> cr_gateway_only_hosts (default_ruleset\<lparr>cr_gateway_only_hosts := {''mcp.io''}\<rparr>) \<or>
      RULESET_VERSION < cr_version (default_ruleset\<lparr>cr_gateway_only_hosts := {''mcp.io''}\<rparr>)" by simp
  have "to_ascii_lowercase ''MCP.io'' = to_ascii_lowercase ''mcp.io''" by code_simp
  then show "to_ascii_lowercase ''MCP.io'' = to_ascii_lowercase ''mcp.io'' \<or>
      (\<not> ends_with ''mcp.io'' ''.'' \<and> ''MCP.io'' = ''mcp.io'' @ ''.'')" by blast
qed

end
