(* ===== verification/Fence.thy ===== *)
theory Fence
  imports Manifest Decide
begin

text \<open>
  The gateway-only fence of a lockdown run: \<open>gateway_only_hosts\<close> of crates/cli/src/resolve.rs derives
  the fenced hosts from the frozen servers, or refuses the whole run. A frozen server is its name with
  the resolved server, or the reason it is unavailable.
\<close>

type_synonym frozen_server = "string \<times> (server, string) result"

definition unavailable_message :: "string \<Rightarrow> string \<Rightarrow> string" where
  "unavailable_message name reason =
     ''lockdown: server '' @ [CHR 0x27] @ name @ [CHR 0x27] @ '' is not available ('' @ reason @ '') '' @ em_dash
       @ '' refusing to start; a selected server that might still be reachable directly must not be ''
       @ ''silently omitted from the gateway-only fence''"

definition unclassifiable_message :: "string \<Rightarrow> string \<Rightarrow> string" where
  "unclassifiable_message name url =
     ''lockdown: HTTP server '' @ [CHR 0x27] @ name @ [CHR 0x27] @ '' has no classifiable host in its URL ''
       @ debug_string url @ '' (empty, malformed, or an unresolved ${REF} in the host) '' @ em_dash
       @ '' refusing to start''"

fun fence_hosts :: "string set \<Rightarrow> frozen_server list \<Rightarrow> (string set, string) result" where
  "fence_hosts hosts [] = Inr hosts"
| "fence_hosts hosts ((name, Inl reason) # rest) = Inl (unavailable_message name reason)"
| "fence_hosts hosts ((name, Inr server) # rest) =
     (if sv_type server \<noteq> Http then fence_hosts hosts rest
      else let url = (case sv_url server of Some u \<Rightarrow> u | None \<Rightarrow> []) in
        (case host_from_url url of
           None \<Rightarrow> Inl (unclassifiable_message name url)
         | Some host \<Rightarrow> fence_hosts (insert (normalize_host host) hosts) rest))"

definition gateway_only_hosts :: "frozen_server list \<Rightarrow> (string set, string) result" where
  "gateway_only_hosts servers = fence_hosts {} servers"

text \<open>The host a frozen server declares, when it has an HTTP endpoint.\<close>

definition declared_host :: "server \<Rightarrow> string option" where
  "declared_host s = (if sv_type s = Http then host_from_url (case sv_url s of Some u \<Rightarrow> u | None \<Rightarrow> []) else None)"

lemma fence_hosts_Inr:
  "fence_hosts hosts servers = Inr H \<longleftrightarrow>
     (\<forall>(name, r) \<in> set servers. \<exists>s. r = Inr s \<and> (sv_type s = Http \<longrightarrow> declared_host s \<noteq> None)) \<and>
     H = hosts \<union> {normalize_host h | name s h. (name, Inr s) \<in> set servers \<and> declared_host s = Some h}"
proof (induction hosts servers rule: fence_hosts.induct)
  case (3 hosts name server rest)
  show ?case
  proof (cases "declared_host server")
    case None
    then show ?thesis
      using "3.IH"(1) by (cases "sv_type server = Http") (auto simp: declared_host_def Let_def split: if_splits)
  next
    case (Some h)
    then have "sv_type server = Http" by (auto simp: declared_host_def split: if_splits)
    then have "fence_hosts hosts ((name, Inr server) # rest) = fence_hosts (insert (normalize_host h) hosts) rest"
      using Some by (simp add: declared_host_def Let_def)
    moreover have "fence_hosts (insert (normalize_host h) hosts) rest = Inr H \<longleftrightarrow>
      (\<forall>(name, r) \<in> set rest. \<exists>s. r = Inr s \<and> (sv_type s = Http \<longrightarrow> declared_host s \<noteq> None)) \<and>
      H = insert (normalize_host h) hosts \<union> {normalize_host h | name s h. (name, Inr s) \<in> set rest \<and> declared_host s = Some h}"
      using "3.IH"(2) [OF _ refl] Some \<open>sv_type server = Http\<close> by (simp add: declared_host_def)
    ultimately show ?thesis using Some by auto
  qed
qed auto

section \<open>Properties\<close>

text \<open>
  The fence covers every server or the run does not start: it is computed exactly when every frozen
  server is available and every HTTP server has a classifiable host, and then it holds the canonical
  host of each of them and nothing else.\<close>

theorem fence_complete:
  "gateway_only_hosts servers = Inr H \<longleftrightarrow>
     (\<forall>(name, r) \<in> set servers. \<exists>s. r = Inr s \<and> (sv_type s = Http \<longrightarrow> declared_host s \<noteq> None)) \<and>
     H = {normalize_host h | name s h. (name, Inr s) \<in> set servers \<and> declared_host s = Some h}"
  by (simp add: gateway_only_hosts_def fence_hosts_Inr)

definition sample_server :: server where
  "sample_server =
     \<lparr>sv_type = Http, sv_url = Some ''https://Mcp.io/x'', sv_command = None, sv_args = [], sv_cwd = None,
      sv_integrity_roots = [], sv_targets = all_targets, sv_owner = None, sv_headers = [], sv_env = [], sv_extra = []\<rparr>"

lemma sample_declared: "declared_host sample_server = Some ''Mcp.io''"
  by code_simp

theorem fence_complete_witness:
  "gateway_only_hosts [(''a'', Inr sample_server)] = Inr {normalize_host ''Mcp.io''}"
  unfolding fence_complete by (auto simp: sample_declared)

text \<open>
  Fence and proxy together: once a lockdown ruleset carries the fence of the frozen servers, no declared
  HTTP upstream can be reached directly, by any server at any port, in any case or root-dot spelling of
  its host, whatever the policies allow.\<close>

theorem fence_blocks_direct_egress:
  assumes "gateway_only_hosts servers = Inr H" "(name, Inr s) \<in> set servers" "declared_host s = Some h"
    and "to_ascii_lowercase host = to_ascii_lowercase h \<or> (\<not> ends_with h ''.'' \<and> host = h @ ''.'')"
  shows "\<not> dc_allowed (decide now ((compile home m b names)\<lparr>cr_gateway_only_hosts := H\<rparr>) server host port)"
proof -
  have "nh.same_host host h" using assms(4) nh.same_host_case nh.same_host_dot by blast
  then have "normalize_host host = normalize_host h" by (simp add: nh.same_host_def)
  moreover have "normalize_host h \<in> H"
    using assms(1-3) by (auto simp: gateway_only_hosts_def fence_hosts_Inr)
  ultimately show ?thesis by (auto simp: decide_allowed is_gateway_only_host_def)
qed

theorem fence_blocks_direct_egress_witness:
  "\<not> dc_allowed (decide 0 ((compile None default_policy default_policy [])\<lparr>cr_gateway_only_hosts := {normalize_host ''Mcp.io''}\<rparr>)
      ''s'' ''Mcp.io.'' 443)"
proof (rule fence_blocks_direct_egress [where servers = "[(''a'', Inr sample_server)]" and name = "''a''" and s = sample_server and h = "''Mcp.io''"])
  show "gateway_only_hosts [(''a'', Inr sample_server)] = Inr {normalize_host ''Mcp.io''}"
    unfolding gateway_only_hosts_def fence_hosts_Inr by (auto simp: sample_declared)
  show "to_ascii_lowercase ''Mcp.io.'' = to_ascii_lowercase ''Mcp.io'' \<or> (\<not> ends_with ''Mcp.io'' ''.'' \<and> ''Mcp.io.'' = ''Mcp.io'' @ ''.'')"
    by (auto simp: ends_with_iff append_eq_Cons_conv Cons_eq_append_conv)
qed (simp_all add: sample_declared)

end
