(* ===== verification/Auth.thy ===== *)
theory Auth
  imports Strings
begin

unbundle bit_operations_syntax

text \<open>
  The proxy credentials of crates/egress/src/proxy.rs: the hand-written base64 encoder, proved
  injective, and the search of a request head for the expected \<open>Proxy-Authorization\<close> value.
\<close>

section \<open>Base64\<close>

definition B64 :: string where
  "B64 = ''ABCDEFGHIJKLMNOPQRSTUVWXYZabcdefghijklmnopqrstuvwxyz0123456789+/''"

definition b64_word :: "char \<Rightarrow> char \<Rightarrow> char \<Rightarrow> u32" where
  "b64_word b0 b1 b2 =
     push_bit 16 (of_nat (byte b0)) OR push_bit 8 (of_nat (byte b1)) OR of_nat (byte b2)"

definition sextet :: "u32 \<Rightarrow> nat \<Rightarrow> char" where
  "sextet n k = B64 ! unat (drop_bit k n AND 63)"

text \<open>One chunk of three, padded with zero bytes; \<open>n\<close> is the number of bytes present.\<close>

definition b64_chunk :: "nat \<Rightarrow> char \<Rightarrow> char \<Rightarrow> char \<Rightarrow> string" where
  "b64_chunk n b0 b1 b2 =
     (let w = b64_word b0 b1 b2 in
      [sextet w 18, sextet w 12,
       if 1 < n then sextet w 6 else CHR ''='',
       if 2 < n then sextet w 0 else CHR ''=''])"

fun base64_encode :: "string \<Rightarrow> string" where
  "base64_encode [] = []"
| "base64_encode [a] = b64_chunk 1 a (CHR 0x00) (CHR 0x00)"
| "base64_encode [a, b] = b64_chunk 2 a b (CHR 0x00)"
| "base64_encode (a # b # c # rest) = b64_chunk 3 a b c @ base64_encode rest"

text \<open>The same chunk in natural numbers.\<close>

definition b64_num :: "char \<Rightarrow> char \<Rightarrow> char \<Rightarrow> nat" where
  "b64_num a b c = byte a * 65536 + byte b * 256 + byte c"

lemma b64_num_less: "b64_num a b c < 16777216"
  using byte_less [of a] byte_less [of b] byte_less [of c] unfolding b64_num_def by linarith

lemma b64_word_num: "b64_word a b c = of_nat (b64_num a b c)"
proof -
  have "byte b * 256 + byte c < 65536" using byte_less [of b] byte_less [of c] by linarith
  then have bc: "byte b * 256 + byte c < 2 ^ 16" by simp
  have "b64_num a b c = push_bit 16 (byte a) OR (push_bit 8 (byte b) OR byte c)"
    using or_low [of "byte c" 8 "byte b"] or_low [of "byte b * 256 + byte c" 16 "byte a"] bc
    by (simp add: b64_num_def)
  then have "of_nat (b64_num a b c) =
      (push_bit 16 (of_nat (byte a)) OR (push_bit 8 (of_nat (byte b)) OR of_nat (byte c)) :: u32)"
    by (simp add: of_nat_or_eq of_nat_push_bit)
  then show ?thesis by (simp add: b64_word_def or.assoc)
qed

lemma sextet_num: "n < 16777216 \<Longrightarrow> sextet (of_nat n) k = B64 ! (n div 2 ^ k mod 64)"
proof -
  assume n: "n < 16777216"
  have m: "x AND 63 = take_bit 6 x" for x :: u32 by (simp add: take_bit_eq_mask mask_eq_exp_minus_1)
  have "unat (of_nat n :: u32) = n"
    using n by (simp add: unsigned_of_nat take_bit_nat_eq_self)
  then have "unat (drop_bit k (of_nat n :: u32)) = drop_bit k n"
    using n by (simp add: unsigned_drop_bit_eq take_bit_nat_eq_self)
  then have "unat (drop_bit k (of_nat n :: u32)) = n div 2 ^ k"
    by (simp only: drop_bit_eq_div)
  then have "unat (drop_bit k (of_nat n :: u32) AND 63) = n div 2 ^ k mod 64"
    by (simp only: m unsigned_take_bit_eq) (simp add: take_bit_eq_mod)
  then show ?thesis by (simp add: sextet_def)
qed

lemma B64_props: "length B64 = 64" "distinct B64" "CHR ''='' \<notin> set B64"
  by (simp_all add: B64_def)

lemma B64_nth_eq [simp]: "i < 64 \<Longrightarrow> j < 64 \<Longrightarrow> B64 ! i = B64 ! j \<longleftrightarrow> i = j"
  using B64_props by (simp add: nth_eq_iff_index_eq)

lemma B64_nth_pad [simp]: "i < 64 \<Longrightarrow> B64 ! i \<noteq> CHR ''=''" "i < 64 \<Longrightarrow> CHR ''='' \<noteq> B64 ! i"
  using B64_props by (metis nth_mem)+

lemma sextets_sum:
  assumes "n < (16777216 :: nat)"
  shows "n = (n div 2 ^ 18 mod 64) * 262144 + (n div 2 ^ 12 mod 64) * 4096 + (n div 2 ^ 6 mod 64) * 64
    + n div 2 ^ 0 mod 64"
proof -
  have "n div 262144 mod 64 = n div 262144" using assms by simp
  moreover have "n div 4096 = 64 * (n div 262144) + n div 4096 mod 64"
    using div_mult2_eq [of n 4096 64] by simp
  moreover have "n div 64 = 64 * (n div 4096) + n div 64 mod 64"
    using div_mult2_eq [of n 64 64] by simp
  moreover have "n = 64 * (n div 64) + n mod 64" by simp
  ultimately have "n = (n div 262144 mod 64) * 262144 + (n div 4096 mod 64) * 4096
    + (n div 64 mod 64) * 64 + n mod 64" by linarith
  moreover have "(2 :: nat) ^ 18 = 262144" "(2 :: nat) ^ 12 = 4096" "(2 :: nat) ^ 6 = 64" "(2 :: nat) ^ 0 = 1"
    by simp_all
  ultimately show ?thesis by (simp only: div_by_1)
qed

lemma sextets_determine:
  assumes "n < 16777216" "m < (16777216 :: nat)"
    and "n div 2 ^ 18 mod 64 = m div 2 ^ 18 mod 64" "n div 2 ^ 12 mod 64 = m div 2 ^ 12 mod 64"
    and "n div 2 ^ 6 mod 64 = m div 2 ^ 6 mod 64" "n div 2 ^ 0 mod 64 = m div 2 ^ 0 mod 64"
  shows "n = m"
  by (subst sextets_sum [OF assms(1)], subst sextets_sum [OF assms(2)]) (simp only: assms(3-6))

lemma b64_num_bytes:
  "b64_num a b c div 65536 = byte a" "b64_num a b c div 256 mod 256 = byte b" "b64_num a b c mod 256 = byte c"
proof -
  note l = byte_less [of a] byte_less [of b] byte_less [of c]
  have e: "b64_num a b c = 256 * (byte a * 256 + byte b) + byte c" by (simp add: b64_num_def)
  from l(3) show "b64_num a b c mod 256 = byte c"
    by (subst e) (simp only: mod_mult_self4 mod_less)
  from l(3) have d: "b64_num a b c div 256 = byte a * 256 + byte b"
    by (subst e) (simp only: div_mult_self4 div_less add_0_right)
  with l(2) show "b64_num a b c div 256 mod 256 = byte b" by simp
  have "b64_num a b c div 65536 = b64_num a b c div 256 div 256" by (simp add: div_mult2_eq [symmetric])
  with d l(2) show "b64_num a b c div 65536 = byte a" by simp
qed

lemma b64_num_inj: "b64_num a b c = b64_num a' b' c' \<Longrightarrow> a = a' \<and> b = b' \<and> c = c'"
  by (metis b64_num_bytes byte_inj)

lemma b64_chunk_num:
  "b64_chunk n a b c =
     (let w = b64_num a b c in
      [B64 ! (w div 2 ^ 18 mod 64), B64 ! (w div 2 ^ 12 mod 64),
       if 1 < n then B64 ! (w div 2 ^ 6 mod 64) else CHR ''='',
       if 2 < n then B64 ! (w div 2 ^ 0 mod 64) else CHR ''=''])"
  by (simp only: b64_chunk_def b64_word_num sextet_num [OF b64_num_less] Let_def)

text \<open>The bits a padded chunk leaves out are zero, so the characters present determine it.\<close>

lemma b64_pad: "b64_num a b (CHR 0x00) div 2 ^ 0 mod 64 = b64_num a' b' (CHR 0x00) div 2 ^ 0 mod 64"
    "b64_num a (CHR 0x00) (CHR 0x00) div 2 ^ 6 mod 64 = b64_num a' (CHR 0x00) (CHR 0x00) div 2 ^ 6 mod 64"
proof -
  have z: "byte (CHR 0x00) = 0" by (simp add: byte_def)
  have "b64_num a b (CHR 0x00) = 64 * (byte a * 1024 + byte b * 4)" for a b
    by (simp add: b64_num_def z)
  then show "b64_num a b (CHR 0x00) div 2 ^ 0 mod 64 = b64_num a' b' (CHR 0x00) div 2 ^ 0 mod 64" by simp
  have "b64_num a (CHR 0x00) (CHR 0x00) = 64 * (64 * (byte a * 16))" for a
    by (simp add: b64_num_def z)
  then show "b64_num a (CHR 0x00) (CHR 0x00) div 2 ^ 6 mod 64 = b64_num a' (CHR 0x00) (CHR 0x00) div 2 ^ 6 mod 64"
    by simp
qed

lemma b64_chunk_inj1:
  "b64_chunk 1 a (CHR 0x00) (CHR 0x00) = b64_chunk 1 a' (CHR 0x00) (CHR 0x00) \<Longrightarrow> a = a'"
  using sextets_determine [OF b64_num_less b64_num_less _ _ b64_pad(2) b64_pad(1)] b64_num_inj
  by (simp add: b64_chunk_num Let_def) blast

lemma b64_chunk_inj2:
  "b64_chunk 2 a b (CHR 0x00) = b64_chunk 2 a' b' (CHR 0x00) \<Longrightarrow> a = a' \<and> b = b'"
  using sextets_determine [OF b64_num_less b64_num_less _ _ _ b64_pad(1)] b64_num_inj
  by (simp add: b64_chunk_num Let_def) blast

lemma b64_chunk_inj3: "b64_chunk 3 a b c = b64_chunk 3 a' b' c' \<Longrightarrow> a = a' \<and> b = b' \<and> c = c'"
  using sextets_determine [OF b64_num_less b64_num_less] b64_num_inj
  by (simp add: b64_chunk_num Let_def) blast

lemma b64_chunk_shapes:
  "b64_chunk 1 a b c \<noteq> b64_chunk 2 a' b' c'" "b64_chunk 2 a' b' c' \<noteq> b64_chunk 1 a b c"
  "b64_chunk 1 a b c \<noteq> b64_chunk 3 a' b' c' @ r" "b64_chunk 3 a' b' c' @ r \<noteq> b64_chunk 1 a b c"
  "b64_chunk 2 a b c \<noteq> b64_chunk 3 a' b' c' @ r" "b64_chunk 3 a' b' c' @ r \<noteq> b64_chunk 2 a b c"
  by (simp_all add: b64_chunk_num Let_def)

lemma b64_chunk_length [simp]: "length (b64_chunk n a b c) = 4"
  by (simp add: b64_chunk_def Let_def)

lemma b64_chunk_not_Nil [simp]: "b64_chunk n a b c \<noteq> []" "[] \<noteq> b64_chunk n a b c"
  by (simp_all add: b64_chunk_def Let_def)

lemma base64_inj: "base64_encode s = base64_encode t \<Longrightarrow> s = t"
proof (induction s arbitrary: t rule: base64_encode.induct)
  case 1
  then show ?case by (cases t rule: base64_encode.cases) auto
next
  case (2 a)
  then show ?case
    by (cases t rule: base64_encode.cases) (auto simp: b64_chunk_shapes dest: b64_chunk_inj1 simp del: One_nat_def)
next
  case (3 a b)
  then show ?case
    by (cases t rule: base64_encode.cases) (auto simp: b64_chunk_shapes dest: b64_chunk_inj2 simp del: One_nat_def)
next
  case (4 a b c rest)
  then show ?case
    by (cases t rule: base64_encode.cases) (auto simp: b64_chunk_shapes dest: b64_chunk_inj3 simp del: One_nat_def)
qed

section \<open>The credentials of a request head\<close>

definition expected_credentials :: "string \<Rightarrow> string" where
  "expected_credentials token = ''Basic '' @ base64_encode (''agentstack:'' @ token)"

definition is_auth_line :: "string \<Rightarrow> string \<Rightarrow> bool" where
  "is_auth_line expected line =
     (case split_once (CHR '':'') line of
        None \<Rightarrow> False
      | Some (name, value) \<Rightarrow>
          eq_ignore_ascii_case (trim name) ''proxy-authorization'' \<and> trim value = expected)"

definition head_has_valid_auth :: "string \<Rightarrow> string \<Rightarrow> bool" where
  "head_has_valid_auth head token =
     list_ex (is_auth_line (expected_credentials token)) (str_lines (from_utf8_lossy head))"

lemma expected_credentials_inj: "expected_credentials a = expected_credentials b \<Longrightarrow> a = b"
  by (auto simp: expected_credentials_def dest: base64_inj)

section \<open>Properties\<close>

text \<open>
  A header line authenticates at most one token: base64 as written here is injective, so the credentials of
  two tokens never coincide.\<close>

theorem auth_line_one_token:
  assumes "is_auth_line (expected_credentials a) line" "is_auth_line (expected_credentials b) line"
  shows "a = b"
  using assms expected_credentials_inj [of a b] by (auto simp: is_auth_line_def split: option.splits)

theorem auth_line_one_token_witness:
  "is_auth_line (expected_credentials ''t'') (''Proxy-Authorization: '' @ expected_credentials ''t'') \<and>
   \<not> is_auth_line (expected_credentials ''u'') (''Proxy-Authorization: '' @ expected_credentials ''t'')"
proof -
  have t: "is_auth_line (expected_credentials ''t'') (''Proxy-Authorization: '' @ expected_credentials ''t'')"
    by code_simp
  with auth_line_one_token [OF t, of "''u''"] show ?thesis by auto
qed

end
