(* ===== verification/Netguard.thy ===== *)
theory Netguard
  imports Strings
begin

unbundle bit_operations_syntax

text \<open>
  The address-class guard of crates/egress/src/netguard.rs. Addresses are their octets and
  segments at their width, classified with the standard library's predicates written out. The
  refused IPv4 space is proved to be exactly a list of CIDR blocks.
\<close>

section \<open>Addresses\<close>

datatype ipv4 = V4 u8 u8 u8 u8
datatype ipv6 = V6 u16 u16 u16 u16 u16 u16 u16 u16
datatype ip_addr = IpV4 ipv4 | IpV6 ipv6

fun segments :: "ipv6 \<Rightarrow> u16 list" where
  "segments (V6 a b c d e f g h) = [a, b, c, d, e, f, g, h]"

text \<open>\<open>std::net\<close>'s classification of IPv4 addresses.\<close>

fun v4_is_loopback :: "ipv4 \<Rightarrow> bool" where
  "v4_is_loopback (V4 a b c d) = (a = 127)"
fun v4_is_private :: "ipv4 \<Rightarrow> bool" where
  "v4_is_private (V4 a b c d) = (a = 10 \<or> (a = 172 \<and> 16 \<le> b \<and> b \<le> 31) \<or> (a = 192 \<and> b = 168))"
fun v4_is_link_local :: "ipv4 \<Rightarrow> bool" where
  "v4_is_link_local (V4 a b c d) = (a = 169 \<and> b = 254)"
fun v4_is_broadcast :: "ipv4 \<Rightarrow> bool" where
  "v4_is_broadcast (V4 a b c d) = (a = 255 \<and> b = 255 \<and> c = 255 \<and> d = 255)"
fun v4_is_documentation :: "ipv4 \<Rightarrow> bool" where
  "v4_is_documentation (V4 a b c d) =
     ((a = 192 \<and> b = 0 \<and> c = 2) \<or> (a = 198 \<and> b = 51 \<and> c = 100) \<or> (a = 203 \<and> b = 0 \<and> c = 113))"
fun v4_is_unspecified :: "ipv4 \<Rightarrow> bool" where
  "v4_is_unspecified (V4 a b c d) = (a = 0 \<and> b = 0 \<and> c = 0 \<and> d = 0)"
fun v4_is_multicast :: "ipv4 \<Rightarrow> bool" where
  "v4_is_multicast (V4 a b c d) = (224 \<le> a \<and> a \<le> 239)"

definition split_segment :: "u16 \<Rightarrow> u8 \<times> u8" where
  "split_segment s = (ucast (drop_bit 8 s), ucast (s AND 0xff))"

fun to_ipv4_mapped :: "ipv6 \<Rightarrow> ipv4 option" where
  "to_ipv4_mapped (V6 a b c d e f g h) =
     (if a = 0 \<and> b = 0 \<and> c = 0 \<and> d = 0 \<and> e = 0 \<and> f = 0xffff
      then Some (V4 (fst (split_segment g)) (snd (split_segment g)) (fst (split_segment h)) (snd (split_segment h)))
      else None)"

section \<open>The guard\<close>

fun is_forbidden_v4 :: "ipv4 \<Rightarrow> bool" where
  "is_forbidden_v4 (V4 a b c d) =
     (v4_is_loopback (V4 a b c d) \<or> v4_is_private (V4 a b c d) \<or> v4_is_link_local (V4 a b c d)
      \<or> v4_is_broadcast (V4 a b c d) \<or> v4_is_documentation (V4 a b c d) \<or> v4_is_unspecified (V4 a b c d)
      \<or> v4_is_multicast (V4 a b c d)
      \<or> a = 0
      \<or> 240 \<le> a
      \<or> (a = 100 \<and> 64 \<le> b \<and> b \<le> 127)
      \<or> (a = 198 \<and> 18 \<le> b \<and> b \<le> 19)
      \<or> (a = 192 \<and> b = 0))"

definition is_forbidden_v6 :: "ipv6 \<Rightarrow> bool" where
  "is_forbidden_v6 ip =
     (let s = segments ip;
          global_unicast = (s ! 0 AND 0xe000 = 0x2000)
      in if \<not> global_unicast then True
         else
           let is_6to4 = (s ! 0 = 0x2002);
               is_teredo = (s ! 0 = 0x2001 \<and> s ! 1 = 0x0000);
               is_documentation = (s ! 0 = 0x2001 \<and> s ! 1 = 0x0db8);
               is_benchmarking = (s ! 0 = 0x2001 \<and> s ! 1 = 0x0002 \<and> s ! 2 = 0x0000);
               is_orchid = (s ! 0 = 0x2001 \<and> (s ! 1 AND 0xfff0 = 0x0010 \<or> s ! 1 AND 0xfff0 = 0x0020))
           in is_6to4 \<or> is_teredo \<or> is_documentation \<or> is_benchmarking \<or> is_orchid)"

definition to_ipv4_compatible :: "ipv6 \<Rightarrow> ipv4 option" where
  "to_ipv4_compatible ip =
     (let s = segments ip
      in if list_all (\<lambda>x. x = 0) (take 6 s) \<and> \<not> (s ! 6 = 0 \<and> (s ! 7 = 0 \<or> s ! 7 = 1))
         then Some (V4 (ucast (drop_bit 8 (s ! 6))) (ucast (s ! 6 AND 0xff))
                       (ucast (drop_bit 8 (s ! 7))) (ucast (s ! 7 AND 0xff)))
         else None)"

fun is_forbidden_target :: "ip_addr \<Rightarrow> bool" where
  "is_forbidden_target (IpV4 v4) = is_forbidden_v4 v4"
| "is_forbidden_target (IpV6 v6) =
     (case (case to_ipv4_mapped v6 of Some v4 \<Rightarrow> Some v4 | None \<Rightarrow> to_ipv4_compatible v6) of
        Some v4 \<Rightarrow> is_forbidden_v4 v4
      | None \<Rightarrow> is_forbidden_v6 v6)"

section \<open>Printing an address\<close>

text \<open>\<open>Display\<close> of the standard library, used in the audit record.\<close>

fun show_ipv4 :: "ipv4 \<Rightarrow> string" where
  "show_ipv4 (V4 a b c d) =
     show_nat (unat a) @ ''.'' @ show_nat (unat b) @ ''.'' @ show_nat (unat c) @ ''.'' @ show_nat (unat d)"

text \<open>The first longest run of zero segments: (start, length), and the run being extended.\<close>

fun zero_runs :: "nat \<Rightarrow> nat \<times> nat \<Rightarrow> nat \<times> nat \<Rightarrow> u16 list \<Rightarrow> nat \<times> nat" where
  "zero_runs i longest current [] = longest"
| "zero_runs i longest current (x # xs) =
     (if x = 0 then
        let cur = (if snd current = 0 then (i, 1) else (fst current, snd current + 1))
        in zero_runs (Suc i) (if snd longest < snd cur then cur else longest) cur xs
      else zero_runs (Suc i) longest (0, 0) xs)"

definition show_segments :: "u16 list \<Rightarrow> string" where
  "show_segments ss = join_with '':'' (map (\<lambda>s. show_hex (unat s)) ss)"

definition show_ipv6 :: "ipv6 \<Rightarrow> string" where
  "show_ipv6 ip =
     (case to_ipv4_mapped ip of
        Some v4 \<Rightarrow> ''::ffff:'' @ show_ipv4 v4
      | None \<Rightarrow>
          let s = segments ip; (start, len) = zero_runs 0 (0, 0) (0, 0) s
          in if 1 < len then show_segments (take start s) @ ''::'' @ show_segments (drop (start + len) s)
             else show_segments s)"

fun show_ip :: "ip_addr \<Rightarrow> string" where
  "show_ip (IpV4 a) = show_ipv4 a"
| "show_ip (IpV6 a) = show_ipv6 a"

section \<open>The refused IPv4 space as CIDR blocks\<close>

fun v4_num :: "ipv4 \<Rightarrow> nat" where
  "v4_num (V4 a b c d) = unat a * 2 ^ 24 + unat b * 2 ^ 16 + unat c * 2 ^ 8 + unat d"

definition in_cidr :: "ipv4 \<times> nat \<Rightarrow> ipv4 \<Rightarrow> bool" where
  "in_cidr n ip \<longleftrightarrow> v4_num ip div 2 ^ (32 - snd n) = v4_num (fst n) div 2 ^ (32 - snd n)"

definition refused_blocks :: "(ipv4 \<times> nat) list" where
  "refused_blocks =
     [(V4 0 0 0 0, 8), (V4 10 0 0 0, 8), (V4 100 64 0 0, 10), (V4 127 0 0 0, 8), (V4 169 254 0 0, 16),
      (V4 172 16 0 0, 12), (V4 192 0 0 0, 16), (V4 192 168 0 0, 16), (V4 198 18 0 0, 15),
      (V4 198 51 100 0, 24), (V4 203 0 113 0, 24), (V4 224 0 0 0, 4), (V4 240 0 0 0, 4)]"

lemma byte_unat_less: "unat (x :: u8) < 256"
  using unsigned_less [of x, where ?'a = nat] by simp

lemma cidr_octets:
  assumes "a < 256" "b < 256" "c < 256" "d < (256 :: nat)"
  defines "n \<equiv> a * 2 ^ 24 + b * 2 ^ 16 + c * 2 ^ 8 + d"
  shows "n div 2 ^ 8 = a * 65536 + b * 256 + c" and "n div 2 ^ 16 = a * 256 + b"
    and "n div 2 ^ 17 = a * 128 + b div 2" and "n div 2 ^ 20 = a * 16 + b div 16"
    and "n div 2 ^ 22 = a * 4 + b div 64" and "n div 2 ^ 24 = a" and "n div 2 ^ 28 = a div 16"
  using assms by simp_all

section \<open>Properties\<close>

lemma word_octet_simps:
  "x = y \<longleftrightarrow> unat x = unat y" "x \<le> y \<longleftrightarrow> unat x \<le> unat y" for x y :: u8
  by (simp_all add: word_le_nat_alt word_unat_eq_iff)

lemma pair_code_eq: "x * m + y = p * m + q \<longleftrightarrow> x = p \<and> y = q" if "y < m" "q < m" for x y m p q :: nat
proof
  assume e: "x * m + y = p * m + q"
  from arg_cong [OF e, of "\<lambda>n. n div m"] arg_cong [OF e, of "\<lambda>n. n mod m"] show "x = p \<and> y = q"
    using that by simp
qed simp

lemma prefix_shift: "(32::nat) - 24 = 8" "(32::nat) - 16 = 16" "(32::nat) - 15 = 17" "(32::nat) - 12 = 20"
  "(32::nat) - 10 = 22" "(32::nat) - 8 = 24" "(32::nat) - 4 = 28"
  by simp_all

lemma in_cidr_octets:
  "in_cidr (V4 p q r s, 24) (V4 a b c d) \<longleftrightarrow>
     unat a * 65536 + unat b * 256 + unat c = unat p * 65536 + unat q * 256 + unat r"
  "in_cidr (V4 p q r s, 16) (V4 a b c d) \<longleftrightarrow> unat a * 256 + unat b = unat p * 256 + unat q"
  "in_cidr (V4 p q r s, 15) (V4 a b c d) \<longleftrightarrow> unat a * 128 + unat b div 2 = unat p * 128 + unat q div 2"
  "in_cidr (V4 p q r s, 12) (V4 a b c d) \<longleftrightarrow> unat a * 16 + unat b div 16 = unat p * 16 + unat q div 16"
  "in_cidr (V4 p q r s, 10) (V4 a b c d) \<longleftrightarrow> unat a * 4 + unat b div 64 = unat p * 4 + unat q div 64"
  "in_cidr (V4 p q r s, 8) (V4 a b c d) \<longleftrightarrow> unat a = unat p"
  "in_cidr (V4 p q r s, 4) (V4 a b c d) \<longleftrightarrow> unat a div 16 = unat p div 16"
  by (simp_all only: in_cidr_def snd_conv fst_conv v4_num.simps prefix_shift
        cidr_octets [OF byte_unat_less byte_unat_less byte_unat_less byte_unat_less])

text \<open>
  The IPv4 guard is the membership test of a list of CIDR blocks: an address is refused exactly when it
  lies in one of them.\<close>

theorem ipv4_refused_space: "is_forbidden_v4 ip \<longleftrightarrow> list_ex (\<lambda>block. in_cidr block ip) refused_blocks"
proof (cases ip)
  case (V4 a b c d)
  define x y z w where "x = unat a" and "y = unat b" and "z = unat c" and "w = unat d"
  have lt: "x < 256" "y < 256" "z < 256" "w < 256" by (simp_all add: x_def y_def z_def w_def byte_unat_less)
  have l: "is_forbidden_v4 ip \<longleftrightarrow>
     x = 127 \<or> x = 10 \<or> (x = 172 \<and> 16 \<le> y \<and> y \<le> 31) \<or> (x = 192 \<and> y = 168) \<or> (x = 169 \<and> y = 254)
      \<or> (x = 198 \<and> y = 51 \<and> z = 100) \<or> (x = 203 \<and> y = 0 \<and> z = 113) \<or> 224 \<le> x
      \<or> x = 0 \<or> (x = 100 \<and> 64 \<le> y \<and> y \<le> 127) \<or> (x = 198 \<and> 18 \<le> y \<and> y \<le> 19) \<or> (x = 192 \<and> y = 0)"
  proof -
    have "is_forbidden_v4 ip \<longleftrightarrow>
      x = 127 \<or> (x = 10 \<or> (x = 172 \<and> 16 \<le> y \<and> y \<le> 31) \<or> (x = 192 \<and> y = 168)) \<or> (x = 169 \<and> y = 254) \<or>
      (x = 255 \<and> y = 255 \<and> z = 255 \<and> w = 255) \<or>
      ((x = 192 \<and> y = 0 \<and> z = 2) \<or> (x = 198 \<and> y = 51 \<and> z = 100) \<or> (x = 203 \<and> y = 0 \<and> z = 113)) \<or>
      (x = 0 \<and> y = 0 \<and> z = 0 \<and> w = 0) \<or> (224 \<le> x \<and> x \<le> 239) \<or> x = 0 \<or> 240 \<le> x \<or>
      (x = 100 \<and> 64 \<le> y \<and> y \<le> 127) \<or> (x = 198 \<and> 18 \<le> y \<and> y \<le> 19) \<or> (x = 192 \<and> y = 0)"
      unfolding V4 is_forbidden_v4.simps v4_is_loopback.simps v4_is_private.simps v4_is_link_local.simps
        v4_is_broadcast.simps v4_is_documentation.simps v4_is_unspecified.simps v4_is_multicast.simps
        word_octet_simps x_def y_def z_def w_def
      by simp
    moreover have "x = 255 \<longrightarrow> 240 \<le> x" and "240 \<le> x \<longrightarrow> 224 \<le> x" and "x \<le> 239 \<or> 240 \<le> x"
      and "x = 0 \<longrightarrow> \<not> 240 \<le> x" by arith+
    ultimately show ?thesis by satx
  qed
  have r: "list_ex (\<lambda>block. in_cidr block ip) refused_blocks \<longleftrightarrow>
      x = 0 \<or> x = 10 \<or> x * 4 + y div 64 = 401 \<or> x = 127 \<or> x * 256 + y = 43518 \<or> x * 16 + y div 16 = 2753 \<or>
      x * 256 + y = 49152 \<or> x * 256 + y = 49320 \<or> x * 128 + y div 2 = 25353 \<or> x * 65536 + y * 256 + z = 12989284 \<or>
      x * 65536 + y * 256 + z = 13303921 \<or> x div 16 = 14 \<or> x div 16 = 15"
    by (simp add: V4 refused_blocks_def in_cidr_octets x_def [symmetric] y_def [symmetric] z_def [symmetric] w_def [symmetric])
  have e1: "x * 4 + y div 64 = 401 \<longleftrightarrow> x = 100 \<and> 64 \<le> y \<and> y \<le> 127"
    using pair_code_eq [of "y div 64" 4 1 x 100] lt(2) by auto
  have e2: "x * 256 + y = 43518 \<longleftrightarrow> x = 169 \<and> y = 254" using pair_code_eq [of y 256 254 x 169] lt(2) by simp
  have e3: "x * 16 + y div 16 = 2753 \<longleftrightarrow> x = 172 \<and> 16 \<le> y \<and> y \<le> 31"
    using pair_code_eq [of "y div 16" 16 1 x 172] lt(2) by auto
  have e4: "x * 256 + y = 49152 \<longleftrightarrow> x = 192 \<and> y = 0" using pair_code_eq [of y 256 0 x 192] lt(2) by simp
  have e5: "x * 256 + y = 49320 \<longleftrightarrow> x = 192 \<and> y = 168" using pair_code_eq [of y 256 168 x 192] lt(2) by simp
  have e6: "x * 128 + y div 2 = 25353 \<longleftrightarrow> x = 198 \<and> 18 \<le> y \<and> y \<le> 19"
    using pair_code_eq [of "y div 2" 128 9 x 198] lt(2) by auto
  have e7: "x * 65536 + y * 256 + z = 12989284 \<longleftrightarrow> x = 198 \<and> y = 51 \<and> z = 100"
    using pair_code_eq [of "y * 256 + z" 65536 13156 x 198] pair_code_eq [of z 256 100 y 51] lt(2,3) by (simp add: add.assoc)
  have e8: "x * 65536 + y * 256 + z = 13303921 \<longleftrightarrow> x = 203 \<and> y = 0 \<and> z = 113"
    using pair_code_eq [of "y * 256 + z" 65536 113 x 203] pair_code_eq [of z 256 113 y 0] lt(2,3) by (simp add: add.assoc)
  have e9: "x div 16 = 14 \<or> x div 16 = 15 \<longleftrightarrow> 224 \<le> x" using lt(1) by auto
  show ?thesis unfolding l r e1 e2 e3 e4 e5 e6 e7 e8 e9 by satx
qed

definition last_octets :: "u16 \<Rightarrow> u16 \<Rightarrow> ipv4" where
  "last_octets g h = V4 (ucast (drop_bit 8 g)) (ucast (g AND 0xff)) (ucast (drop_bit 8 h)) (ucast (h AND 0xff))"

text \<open>
  An IPv6 address cannot smuggle an IPv4 one past the guard: a mapped address is judged as the IPv4
  address in its last four bytes, and so is every IPv4-compatible one but \<open>::\<close> and \<open>::1\<close>.\<close>

theorem embedded_ipv4_judged:
  "is_forbidden_target (IpV6 (V6 0 0 0 0 0 0xffff g h)) = is_forbidden_v4 (last_octets g h) \<and>
   is_forbidden_target (IpV6 (V6 0 0 0 0 0 0 g h)) =
     (if g = 0 \<and> (h = 0 \<or> h = 1) then True else is_forbidden_v4 (last_octets g h))"
proof -
  have "h = 0 \<or> h = 1 \<longleftrightarrow> g = 0 \<and> (h = 0 \<or> h = 1)" if "g = 0" using that by simp
  then show ?thesis
    by (cases "g = 0 \<and> (h = 0 \<or> h = 1)")
      (auto simp: last_octets_def split_segment_def to_ipv4_compatible_def is_forbidden_v6_def Let_def)
qed

lemma high_bits_and: "x AND NOT (mask k) = push_bit k (drop_bit k x)" for x :: u16
  by (rule bit_eqI) (auto simp: bit_and_iff bit_not_iff bit_mask_iff bit_push_bit_iff bit_drop_bit_eq
      bit_imp_le_length)

lemma high_bits_eq: "x AND NOT (mask k) = v \<longleftrightarrow> unat x div 2 ^ k * 2 ^ k = unat v" for x v :: u16
proof -
  have "unat x div 2 ^ k * 2 ^ k < 2 ^ 16"
    using unsigned_less [of x, where ?'a = nat] by (auto intro: le_less_trans [OF div_times_less_eq_dividend])
  then have "unat (x AND NOT (mask k)) = unat x div 2 ^ k * 2 ^ k"
    unfolding high_bits_and unsigned_push_bit_eq unsigned_drop_bit_eq
    using unsigned_less [of x, where ?'a = nat] by (simp add: drop_bit_eq_div push_bit_eq_mult take_bit_eq_mod)
  then show ?thesis by (simp add: word_unat_eq_iff)
qed

lemma mask_range:
  "x AND 0xe000 = 0x2000 \<longleftrightarrow> 0x2000 \<le> x \<and> x \<le> 0x3fff"
  "x AND 0xfff0 = 0x0010 \<or> x AND 0xfff0 = 0x0020 \<longleftrightarrow> 0x0010 \<le> x \<and> x \<le> 0x002f" for x :: u16
proof -
  have n: "(0xe000 :: u16) = NOT (mask 13)" "(0xfff0 :: u16) = NOT (mask 4)" by (simp_all add: mask_eq_exp_minus_1)
  have "unat x div 8192 * 8192 = 8192 \<longleftrightarrow> 8192 \<le> unat x \<and> unat x \<le> 16383" by auto
  then show "x AND 0xe000 = 0x2000 \<longleftrightarrow> 0x2000 \<le> x \<and> x \<le> 0x3fff"
    unfolding n high_bits_eq by (simp add: word_le_nat_alt)
  have "unat x div 16 * 16 = 16 \<or> unat x div 16 * 16 = 32 \<longleftrightarrow> 16 \<le> unat x \<and> unat x \<le> 47" by auto
  then show "x AND 0xfff0 = 0x0010 \<or> x AND 0xfff0 = 0x0020 \<longleftrightarrow> 0x0010 \<le> x \<and> x \<le> 0x002f"
    unfolding n high_bits_eq by (simp add: word_le_nat_alt)
qed

text \<open>
  An IPv6 address whose first segment is not zero is refused exactly when it lies outside 2000::/3 or in
  one of the 6to4, Teredo, documentation, benchmarking or ORCHID ranges inside it.\<close>

theorem ipv6_refused_space:
  assumes "a \<noteq> 0"
  shows "is_forbidden_target (IpV6 (V6 a b c d e f g h)) \<longleftrightarrow>
     \<not> (0x2000 \<le> a \<and> a \<le> 0x3fff) \<or> a = 0x2002 \<or>
     (a = 0x2001 \<and> (b = 0 \<or> b = 0x0db8 \<or> (b = 2 \<and> c = 0) \<or> (0x0010 \<le> b \<and> b \<le> 0x002f)))"
  using assms mask_range(2) [of b]
  by (auto simp: to_ipv4_compatible_def is_forbidden_v6_def Let_def mask_range(1))

theorem ipv6_refused_space_witness:
  "\<not> is_forbidden_target (IpV6 (V6 0x2606 0x4700 0 0 0 0 0 0x1111)) \<and>
   is_forbidden_target (IpV6 (V6 0xfd00 0 0 0 0 0 0 1)) \<and>
   is_forbidden_target (IpV6 (V6 0x2001 0x0020 0 0 0 0 0 1))"
  using ipv6_refused_space [of "0x2606" "0x4700" 0 0 0 0 0 "0x1111"] ipv6_refused_space [of "0xfd00" 0 0 0 0 0 0 1]
    ipv6_refused_space [of "0x2001" "0x0020" 0 0 0 0 0 1]
  by simp

end
