(* ===== verification/Connect.thy ===== *)
theory Connect
  imports Patterns Netguard
begin

text \<open>
  The CONNECT request line of crates/egress/src/connect.rs: the parsed target, and the lexical
  test for a numeric host that the lockdown guard applies to it.
\<close>

section \<open>The target\<close>

record target =
  t_host :: string
  t_port :: u16

definition split_host_port :: "string \<Rightarrow> target option" where
  "split_host_port authority = do {
     (host, port) \<leftarrow>
       (case strip_prefix ''['' authority of
          Some rest \<Rightarrow> do {
            (addr, after) \<leftarrow> split_once (CHR '']'') rest;
            port \<leftarrow> strip_prefix '':'' after;
            Some (addr, port)
          }
        | None \<Rightarrow> do {
            (host, port) \<leftarrow> rsplit_once (CHR '':'') authority;
            if host = [] then None else Some (host, port)
          });
     port \<leftarrow> parse_u16 port;
     if port = 0 then None
     else let host = normalize_host host
          in if host = [] then None else Some \<lparr>t_host = host, t_port = port\<rparr>
   }"

definition first_line :: "string \<Rightarrow> string" where
  "first_line line = takeWhile (\<lambda>b. b \<noteq> CHR 0x0D \<and> b \<noteq> CHR 0x0A) line"

text \<open>The words of the line: method, authority, version; more words are ignored.\<close>

fun connect_words :: "string list \<Rightarrow> target option" where
  "connect_words (meth # authority # version # rest) =
     (if \<not> eq_ignore_ascii_case meth ''CONNECT'' then None
      else if \<not> starts_with version ''HTTP/'' then None
      else split_host_port authority)"
| "connect_words _ = None"

definition parse_connect_target :: "string \<Rightarrow> target option" where
  "parse_connect_target line = do {
     line \<leftarrow> from_utf8 (first_line line);
     connect_words (filter (\<lambda>s. s \<noteq> []) (split_on (CHR '' '') line))
   }"

section \<open>Numeric hosts\<close>

definition is_numeric_label :: "string \<Rightarrow> bool" where
  "is_numeric_label label =
     (case (case strip_prefix ''0x'' label of Some h \<Rightarrow> Some h | None \<Rightarrow> strip_prefix ''0X'' label) of
        Some hex \<Rightarrow> hex \<noteq> [] \<and> list_all is_ascii_hexdigit hex
      | None \<Rightarrow> label \<noteq> [] \<and> list_all is_ascii_digit label)"

text \<open>
  \<open>IpAddr::from_str\<close> on a text without a colon: an IPv6 spelling always has one, so this is the
  four decimal octets of \<open>Ipv4Addr::from_str\<close>, one to three digits each and no leading zero.
\<close>

definition parse_octet :: "string \<Rightarrow> u8 option" where
  "parse_octet s =
     (if s = [] \<or> 3 < length s \<or> (1 < length s \<and> hd s = CHR ''0'') then None
      else case parse_digits 0 s of
             Some n \<Rightarrow> if n < 256 then Some (of_nat n) else None
           | None \<Rightarrow> None)"

definition parse_ipv4 :: "string \<Rightarrow> ipv4 option" where
  "parse_ipv4 s =
     (case split_on (CHR ''.'') s of
        [a, b, c, d] \<Rightarrow> do {
          a \<leftarrow> parse_octet a; b \<leftarrow> parse_octet b; c \<leftarrow> parse_octet c; d \<leftarrow> parse_octet d;
          Some (V4 a b c d)
        }
      | _ \<Rightarrow> None)"

definition is_numeric_host :: "string \<Rightarrow> bool" where
  "is_numeric_host host =
     (let host = (case strip_suffix ''.'' host of Some h \<Rightarrow> h | None \<Rightarrow> host);
          host = hd (split_on (CHR ''%'') host)
      in if CHR '':'' \<in> set host then True
         else if parse_ipv4 host \<noteq> None then True
         else let parts = split_on (CHR ''.'') host
              in if parts = [] \<or> 4 < length parts then False
                 else list_all is_numeric_label parts)"

section \<open>Targets are canonical\<close>

lemma split_host_port_Some:
  "split_host_port a = Some t \<Longrightarrow>
     t_host t \<noteq> [] \<and> t_port t \<noteq> 0 \<and> (\<exists>h. t_host t = normalize_host h)"
  by (auto simp: split_host_port_def bind_eq_Some_conv Let_def split: if_splits)

fun_cases connect_words_Some: "connect_words ws = Some t"

lemma connect_words_target:
  "connect_words ws = Some t \<Longrightarrow> \<exists>authority \<in> set ws. split_host_port authority = Some t"
  by (erule connect_words_Some) (auto split: if_splits)

lemma parse_connect_Some:
  "parse_connect_target line = Some t \<Longrightarrow>
     t_host t \<noteq> [] \<and> t_port t \<noteq> 0 \<and> (\<exists>h. t_host t = normalize_host h)"
  by (auto simp: parse_connect_target_def bind_eq_Some_conv
      dest!: connect_words_target split_host_port_Some)

lemma split_host_port_plain:
  assumes "h \<noteq> []" "\<not> starts_with h ''[''" "normalize_host h \<noteq> []" "0 < n" "n < 65536"
  shows "split_host_port (h @ '':'' @ show_nat n) = Some \<lparr>t_host = normalize_host h, t_port = of_nat n\<rparr>"
proof -
  have d: "CHR '':'' \<notin> set (show_nat n)"
    using show_nat_digits by (fastforce simp: is_ascii_digit_def byte_def)
  then have r: "rsplit_once (CHR '':'') (h @ '':'' @ show_nat n) = Some (h, show_nat n)"
    by (simp add: rsplit_once_Some)
  have s: "strip_prefix ''['' (h @ '':'' @ show_nat n) = None"
    using assms(1,2) by (cases h) (auto simp: starts_with_def split: if_splits)
  have "(of_nat n :: u16) \<noteq> 0"
    using assms(4,5) by (simp add: of_nat_eq_0_iff word_of_nat_eq_0_iff nat_dvd_not_less)
  then show ?thesis
    using r s assms by (simp add: split_host_port_def parse_u16_show Let_def)
qed

section \<open>Every printed address is numeric\<close>

lemma show_nat_label: "is_numeric_label (show_nat n)"
proof -
  have "CHR ''x'' \<notin> set (show_nat n)" "CHR ''X'' \<notin> set (show_nat n)"
    using show_nat_digits by (fastforce simp: is_ascii_digit_def byte_def)+
  then have "strip_prefix ''0x'' (show_nat n) = None" "strip_prefix ''0X'' (show_nat n) = None"
    by (auto simp: strip_prefix_None prefix_def)
  then show ?thesis using show_nat_digits by (auto simp: is_numeric_label_def list_all_iff)
qed

lemma show_nat_no_char: "\<not> is_ascii_digit c \<Longrightarrow> c \<notin> set (show_nat n)"
  using show_nat_digits by blast

lemma show_ipv4_numeric: "is_numeric_host (show_ipv4 ip)"
proof (cases ip)
  case (V4 a b c d)
  define parts where "parts = [show_nat (unat a), show_nat (unat b), show_nat (unat c), show_nat (unat d)]"
  have nd: "c \<notin> set (show_nat n)" if "c \<in> {CHR ''.'', CHR ''%'', CHR '':''}" for c n
    using that by (intro show_nat_no_char) (auto simp: is_ascii_digit_def byte_def)
  have sp: "split_on (CHR ''.'') (show_ipv4 ip) = parts"
    using V4 nd by (simp add: parts_def)
  have "\<not> ends_with (show_ipv4 ip) ''.''"
  proof
    assume "ends_with (show_ipv4 ip) ''.''"
    then obtain r where "show_ipv4 ip = r @ ''.''" by (auto simp: ends_with_iff)
    then have "last (show_ipv4 ip) = CHR ''.''" by simp
    moreover have "last (show_ipv4 ip) = last (show_nat (unat d))" using V4 by simp
    ultimately show False using nd [of "CHR ''.''" "unat d"] by (metis insertI1 last_in_set show_nat_not_Nil)
  qed
  then have "strip_suffix ''.'' (show_ipv4 ip) = None" by (simp add: ends_with_def)
  moreover have "CHR ''%'' \<notin> set (show_ipv4 ip)" "CHR '':'' \<notin> set (show_ipv4 ip)"
    using V4 nd by auto
  ultimately show ?thesis
    using sp by (simp add: is_numeric_host_def Let_def parts_def show_nat_label)
qed

lemma colon_numeric: "CHR '':'' \<in> set a \<Longrightarrow> CHR ''%'' \<notin> set a \<Longrightarrow> a \<noteq> [] \<Longrightarrow> last a \<noteq> CHR ''.'' \<Longrightarrow> is_numeric_host a"
proof -
  assume a: "CHR '':'' \<in> set a" "CHR ''%'' \<notin> set a" "a \<noteq> []" "last a \<noteq> CHR ''.''"
  then have "strip_suffix ''.'' a = None" by (auto simp: strip_suffix_None)
  with a show ?thesis by (simp add: is_numeric_host_def Let_def)
qed

text \<open>A name with a label that is not a number is not numeric: ordinary DNS names pass.\<close>

lemma named_host_not_numeric:
  assumes "CHR '':'' \<notin> set h" "CHR ''%'' \<notin> set h" "\<not> ends_with h ''.''"
    and l: "l \<in> set (split_on (CHR ''.'') h)" "\<not> is_numeric_label l" and p: "parse_ipv4 h = None"
  shows "\<not> is_numeric_host h"
  using assms by (auto simp: is_numeric_host_def Let_def ends_with_def list_all_iff)

section \<open>Printed IPv6 addresses\<close>

lemma hex_digit_hex: "n < 16 \<Longrightarrow> is_ascii_hexdigit (hex_digit n)"
  by (auto simp: hex_digit_def ascii_defs)

lemma show_hex_chars: "c \<in> set (show_hex n) \<Longrightarrow> is_ascii_hexdigit c"
proof (induction n rule: show_hex.induct)
  case (1 n)
  then show ?case by (subst (asm) show_hex.simps) (auto simp: hex_digit_hex split: if_splits)
qed

lemma join_with_chars: "set (join_with sep ps) \<subseteq> set sep \<union> (\<Union>p \<in> set ps. set p)"
  by (cases ps) (auto simp: join_with_def)

lemma show_segments_chars: "c \<in> set (show_segments ss) \<Longrightarrow> is_ascii_hexdigit c \<or> c = CHR '':''"
  using join_with_chars [of "'':''" "map (\<lambda>s. show_hex (unat s)) ss"] by (auto simp: show_segments_def dest: show_hex_chars)

lemma show_segments_colon: "1 < length ss \<Longrightarrow> CHR '':'' \<in> set (show_segments ss)"
  by (cases ss; cases "tl ss") (auto simp: show_segments_def join_with_def)

lemma show_ipv6_numeric: "is_numeric_host (show_ipv6 ip)"
proof (cases "to_ipv4_mapped ip")
  case (Some v4)
  obtain a b c d where v4: "v4 = V4 a b c d" by (cases v4)
  have nc: "CHR ''%'' \<notin> set (show_nat n)" "CHR ''.'' \<notin> set (show_nat n)" for n
    by (rule show_nat_no_char, simp add: is_ascii_digit_def byte_def)+
  have "last (show_ipv4 v4) = last (show_nat (unat d))" using v4 by simp
  then have "last (show_ipv4 v4) \<noteq> CHR ''.''" using nc(2) [of "unat d"] by (metis last_in_set show_nat_not_Nil)
  moreover have "show_ipv4 v4 \<noteq> []" "CHR ''%'' \<notin> set (show_ipv4 v4)" using v4 nc(1) by auto
  ultimately show ?thesis using Some by (intro colon_numeric) (auto simp: show_ipv6_def)
next
  case None
  define r where "r = show_ipv6 ip"
  have chars: "is_ascii_hexdigit c \<or> c = CHR '':''" if "c \<in> set r" for c
    using that None by (auto simp: r_def show_ipv6_def Let_def dest: show_segments_chars split: prod.splits if_splits)
  have len: "length (segments ip) = 8" by (cases ip) simp
  have colon: "CHR '':'' \<in> set r"
    using None len
    by (cases "zero_runs 0 (0, 0) (0, 0) (segments ip)") (auto simp: r_def show_ipv6_def Let_def show_segments_colon)
  then have "r \<noteq> []" by auto
  then have "is_ascii_hexdigit (last r) \<or> last r = CHR '':''" by (intro chars) simp
  then have "last r \<noteq> CHR ''.''" by (auto simp: ascii_defs byte_def)
  moreover have "CHR ''%'' \<notin> set r" using chars [of "CHR ''%''"] by (auto simp: ascii_defs byte_def)
  ultimately show ?thesis using colon \<open>r \<noteq> []\<close> unfolding r_def by (intro colon_numeric)
qed

section \<open>Properties\<close>

text \<open>
  A CONNECT line that parses gives a canonical target: the line's method is CONNECT in any case, the port
  is not zero, and the host is the non-empty lower-case form of what the authority names.\<close>

theorem connect_parse_canonical:
  assumes "parse_connect_target line = Some t"
  shows "t_host t \<noteq> [] \<and> t_port t \<noteq> 0 \<and> (\<forall>c \<in> set (t_host t). \<not> is_ascii_upper c) \<and>
    (\<exists>h. t_host t = normalize_host h)"
  using parse_connect_Some [OF assms] nh.canon_lower by fastforce

theorem connect_parse_canonical_witness:
  "\<exists>t. parse_connect_target ''connect A.b:80 HTTP/1.1'' = Some t \<and> t_port t \<noteq> 0"
proof -
  have n: "normalize_host ''A.b'' = ''a.b''" by code_simp
  have "split_host_port ''A.b:80'' = Some \<lparr>t_host = ''a.b'', t_port = 80\<rparr>"
    by (simp add: split_host_port_def rsplit_once_def parse_u16_def n digit_val_def ascii_defs byte_def)
  moreover have "eq_ignore_ascii_case ''connect'' ''CONNECT''" by code_simp
  ultimately have "parse_connect_target ''connect A.b:80 HTTP/1.1'' = Some \<lparr>t_host = ''a.b'', t_port = 80\<rparr>"
    by (simp add: parse_connect_target_def first_line_def from_utf8_def utf8_valid_ascii is_ascii_def byte_def
        starts_with_def)
  with connect_parse_canonical [OF this] show ?thesis by blast
qed

text \<open>
  A request line written for a host and a port reads back as the canonical host and that port.\<close>

theorem connect_round_trip:
  assumes "h \<noteq> []" "\<not> starts_with h ''[''" "normalize_host h \<noteq> []" "0 < n" "n < 65536"
    and "\<forall>c \<in> set h. is_ascii c \<and> c \<notin> {CHR '' '', CHR 0x0D, CHR 0x0A}"
  shows "parse_connect_target (''CONNECT '' @ h @ '':'' @ show_nat n @ '' HTTP/1.1'' @ crlf @ rest) =
    Some \<lparr>t_host = normalize_host h, t_port = of_nat n\<rparr>"
proof -
  define a where "a = h @ '':'' @ show_nat n"
  have line: "''CONNECT '' @ h @ '':'' @ show_nat n @ '' HTTP/1.1'' @ crlf @ rest = ''CONNECT '' @ a @ '' HTTP/1.1'' @ crlf @ rest"
    by (simp add: a_def)
  have d: "is_ascii c \<and> c \<notin> {CHR '' '', CHR 0x0D, CHR 0x0A}" if "c \<in> set (show_nat n)" for c
    using show_nat_digits [OF that] by (auto simp: ascii_defs byte_def)
  have chars: "is_ascii c \<and> c \<notin> {CHR '' '', CHR 0x0D, CHR 0x0A}" if in_a: "c \<in> set a" for c
  proof -
    consider "c \<in> set h" | "c = CHR '':''" | "c \<in> set (show_nat n)" using in_a by (auto simp: a_def)
    then show ?thesis
    proof cases
      case 1
      then show ?thesis using assms(6) by blast
    next
      case 2
      then show ?thesis by (simp add: is_ascii_def byte_def)
    qed (rule d)
  qed
  have sp: "CHR '' '' \<notin> set a" using chars by blast
  have tw: "takeWhile (\<lambda>b. b \<noteq> CHR 0x0D \<and> b \<noteq> CHR 0x0A) (s @ r) = s @ takeWhile (\<lambda>b. b \<noteq> CHR 0x0D \<and> b \<noteq> CHR 0x0A) r"
    if "\<forall>c \<in> set s. c \<noteq> CHR 0x0D \<and> c \<noteq> CHR 0x0A" for s r :: string
    using that by (induction s) auto
  have fl: "first_line (''CONNECT '' @ a @ '' HTTP/1.1'' @ crlf @ rest) = ''CONNECT '' @ a @ '' HTTP/1.1''"
    unfolding first_line_def using chars by (subst tw, simp, subst tw, blast, subst tw, simp) (simp add: crlf_def)
  have "\<forall>c \<in> set (''CONNECT '' @ a @ '' HTTP/1.1''). is_ascii c"
    using chars by (auto simp: is_ascii_def byte_def)
  then have u: "from_utf8 (''CONNECT '' @ a @ '' HTTP/1.1'') = Some (''CONNECT '' @ a @ '' HTTP/1.1'')"
    by (simp only: from_utf8_def utf8_valid_ascii if_True)
  have "split_on (CHR '' '') (''CONNECT '' @ a @ '' HTTP/1.1'') = [''CONNECT'', a, ''HTTP/1.1'']"
    using split_on_append_sep [OF sp, of "''HTTP/1.1''"] by simp
  moreover have "a \<noteq> []" using assms(1) by (simp add: a_def)
  moreover have "connect_words [''CONNECT'', a, ''HTTP/1.1''] = split_host_port a"
    by (simp add: eq_ignore_ascii_case_def starts_with_def)
  ultimately show ?thesis
    unfolding line parse_connect_target_def fl u using split_host_port_plain [OF assms(1-5)] by (simp add: a_def)
qed

theorem connect_round_trip_witness:
  "parse_connect_target (''CONNECT '' @ ''A.b'' @ '':'' @ show_nat 80 @ '' HTTP/1.1'' @ crlf @ crlf) =
     Some \<lparr>t_host = normalize_host ''A.b'', t_port = of_nat 80\<rparr>"
proof (rule connect_round_trip)
  have "normalize_host ''A.b'' = ''a.b''" by code_simp
  then show "normalize_host ''A.b'' \<noteq> []" by simp
qed (simp_all add: starts_with_def is_ascii_def byte_def)

text \<open>
  The lexical test of the lockdown guard catches every literal address: the printed form of any IPv4 or
  IPv6 address is a numeric host, so no address can be dialed past the host-name fence.\<close>

theorem literal_ip_is_numeric: "is_numeric_host (show_ip ip)"
  by (cases ip) (simp_all add: show_ipv4_numeric show_ipv6_numeric)

end
