(* ===== verification/Sni.thy ===== *)
theory Sni
  imports Strings
begin

unbundle bit_operations_syntax

text \<open>
  The ClientHello walker of crates/egress/src/sni.rs: a bounds-checked reader over a byte
  sequence, and the three-way verdict on the first flight of a tunnel. \<open>None\<close> is the early return
  of the \<open>?\<close> operator: a length that claims more bytes than are present.
\<close>

section \<open>The reader\<close>

text \<open>A reader is the bytes that remain; every read returns the value and the reader after it.\<close>

type_synonym reader = string

fun rd_u8 :: "reader \<Rightarrow> (nat \<times> reader) option" where
  "rd_u8 [] = None"
| "rd_u8 (b # bs) = Some (byte b, bs)"

definition rd_u16 :: "reader \<Rightarrow> (nat \<times> reader) option" where
  "rd_u16 r = do { (hi, r) \<leftarrow> rd_u8 r; (lo, r) \<leftarrow> rd_u8 r; Some (push_bit 8 hi OR lo, r) }"

definition rd_u24 :: "reader \<Rightarrow> (nat \<times> reader) option" where
  "rd_u24 r = do { (a, r) \<leftarrow> rd_u8 r; (b, r) \<leftarrow> rd_u16 r; Some (push_bit 16 a OR b, r) }"

definition rd_take :: "nat \<Rightarrow> reader \<Rightarrow> (string \<times> reader) option" where
  "rd_take n r = (if length r < n then None else Some (take n r, drop n r))"

section \<open>The verdict\<close>

datatype sni_verdict = Present string | Absent | Unverifiable

function server_name_entries :: "reader \<Rightarrow> string option" where
  "server_name_entries l =
     (if l = [] then None
      else case rd_u8 l of None \<Rightarrow> None | Some (name_type, r1) \<Rightarrow>
        (case rd_u16 r1 of None \<Rightarrow> None | Some (name_len, r2) \<Rightarrow>
          (case rd_take name_len r2 of None \<Rightarrow> None | Some (name, r3) \<Rightarrow>
             if name_type = 0 then from_utf8 name else server_name_entries r3)))"
  by pat_completeness auto
termination
  by (relation "measure length")
    (auto simp: rd_u16_def rd_take_def bind_eq_Some_conv elim!: rd_u8.elims split: if_splits)

definition parse_server_name :: "string \<Rightarrow> string option" where
  "parse_server_name data = do {
     (list_len, r) \<leftarrow> rd_u16 data;
     (list, _) \<leftarrow> rd_take list_len r;
     server_name_entries list
   }"

function walk_extensions :: "reader \<Rightarrow> sni_verdict option" where
  "walk_extensions e =
     (if e = [] then Some Absent
      else case rd_u16 e of None \<Rightarrow> None | Some (ext_type, r1) \<Rightarrow>
        (case rd_u16 r1 of None \<Rightarrow> None | Some (ext_len, r2) \<Rightarrow>
          (case rd_take ext_len r2 of None \<Rightarrow> None | Some (ext_data, r3) \<Rightarrow>
             if ext_type = 0 then
               Some (case parse_server_name ext_data of Some name \<Rightarrow> Present name | None \<Rightarrow> Unverifiable)
             else walk_extensions r3)))"
  by pat_completeness auto
termination
  by (relation "measure length")
    (auto simp: rd_u16_def rd_take_def bind_eq_Some_conv elim!: rd_u8.elims split: if_splits)

declare server_name_entries.simps [simp del] walk_extensions.simps [simp del]

definition parse_hello_body :: "string \<Rightarrow> sni_verdict option" where
  "parse_hello_body body = do {
     (_, c) \<leftarrow> rd_take 2 body;
     (_, c) \<leftarrow> rd_take 32 c;
     (sid_len, c) \<leftarrow> rd_u8 c;
     (_, c) \<leftarrow> rd_take sid_len c;
     (cs_len, c) \<leftarrow> rd_u16 c;
     (_, c) \<leftarrow> rd_take cs_len c;
     (comp_len, c) \<leftarrow> rd_u8 c;
     (_, c) \<leftarrow> rd_take comp_len c;
     if c = [] then Some Absent
     else do {
       (ext_total, c) \<leftarrow> rd_u16 c;
       (extensions, _) \<leftarrow> rd_take ext_total c;
       walk_extensions extensions
     }
   }"

definition parse_sni :: "string \<Rightarrow> sni_verdict option" where
  "parse_sni rec = do {
     (content_type, r) \<leftarrow> rd_u8 rec;
     if content_type \<noteq> 22 then Some Unverifiable
     else do {
       (_, r) \<leftarrow> rd_u16 r;
       (record_len, r) \<leftarrow> rd_u16 r;
       (handshake, _) \<leftarrow> rd_take record_len r;
       (handshake_type, h) \<leftarrow> rd_u8 handshake;
       if handshake_type \<noteq> 1 then Some Unverifiable
       else do {
         (body_len, h) \<leftarrow> rd_u24 h;
         (body, _) \<leftarrow> rd_take body_len h;
         parse_hello_body body
       }
     }
   }"

definition extract_sni :: "string \<Rightarrow> sni_verdict" where
  "extract_sni rec = (case parse_sni rec of Some verdict \<Rightarrow> verdict | None \<Rightarrow> Unverifiable)"

section \<open>The wire format\<close>

text \<open>
  The wire format is the protocol's, not the program's: big-endian lengths, the ClientHello of TLS 1.2 and 1.3
  with any list of extensions, and the server name extension with any list of entries. It says what a client may
  send; the walker above is judged against it.
\<close>

definition be16 :: "nat \<Rightarrow> string" where
  "be16 n = [char_of (n div 256 mod 256), char_of (n mod 256)]"

definition be24 :: "nat \<Rightarrow> string" where
  "be24 n = [char_of (n div 65536 mod 256), char_of (n div 256 mod 256), char_of (n mod 256)]"

text \<open>An extension is its type and its data, an entry of the server name list its type and the name.\<close>

definition extension_bytes :: "nat \<times> string \<Rightarrow> string" where
  "extension_bytes x = be16 (fst x) @ be16 (length (snd x)) @ snd x"

definition name_entry :: "nat \<times> string \<Rightarrow> string" where
  "name_entry x = char_of (fst x) # be16 (length (snd x)) @ snd x"

definition server_name_data :: "(nat \<times> string) list \<Rightarrow> string" where
  "server_name_data names = (let list = concat (map name_entry names) in be16 (length list) @ list)"

record client_hello =
  ch_record_version :: string
  ch_version :: string
  ch_random :: string
  ch_session :: string
  ch_suites :: string
  ch_compression :: string
  ch_extensions :: "(nat \<times> string) list"

definition client_hello_body :: "client_hello \<Rightarrow> string" where
  "client_hello_body h =
     (let exts = concat (map extension_bytes (ch_extensions h))
      in ch_version h @ ch_random h @ [char_of (length (ch_session h))] @ ch_session h @ be16 (length (ch_suites h)) @ ch_suites h @
         [char_of (length (ch_compression h))] @ ch_compression h @ be16 (length exts) @ exts)"

definition client_hello_record :: "client_hello \<Rightarrow> string" where
  "client_hello_record h =
     (let body = client_hello_body h;
          hs = [CHR 0x01] @ be24 (length body) @ body
      in [CHR 0x16] @ ch_record_version h @ be16 (length hs) @ hs)"

text \<open>The fields of fixed size have it, and every length fits its field; a record holds at most \<open>2 ^ 14\<close> bytes.\<close>

definition wf_hello :: "client_hello \<Rightarrow> bool" where
  "wf_hello h \<longleftrightarrow> length (ch_record_version h) = 2 \<and> length (ch_version h) = 2 \<and> length (ch_random h) = 32 \<and>
     length (ch_session h) < 256 \<and> length (ch_compression h) < 256 \<and>
     list_all (\<lambda>(t, d). t < 65536) (ch_extensions h) \<and> length (client_hello_record h) \<le> 16384 + 5"

text \<open>The host a hello asks for: the first name of type 0 of its first server name extension.\<close>

definition asks_for :: "client_hello \<Rightarrow> string \<Rightarrow> bool" where
  "asks_for h name \<longleftrightarrow>
     (\<exists>pre post others names. ch_extensions h = pre @ (0, server_name_data (others @ (0, name) # names)) # post \<and>
        0 \<notin> fst ` set pre \<and> 0 \<notin> fst ` set others \<and> fst ` set others \<subseteq> {..<256})"

text \<open>A hello with one extension that holds one name, as the source's own tests build it.\<close>

definition sni_extension :: "string \<Rightarrow> string" where
  "sni_extension name =
     (let entry = [CHR 0x00] @ be16 (length name) @ name;
          sni_body = be16 (length entry) @ entry
      in be16 0 @ be16 (length sni_body) @ sni_body)"

definition hello_body :: "string \<Rightarrow> string" where
  "hello_body ext =
     [CHR 0x03, CHR 0x03] @ replicate 32 (CHR 0x00) @ [CHR 0x00] @ be16 2 @ [CHR 0x13, CHR 0x01] @
     [CHR 0x01, CHR 0x00] @ be16 (length ext) @ ext"

definition client_hello_with_sni :: "string \<Rightarrow> string" where
  "client_hello_with_sni name =
     (let body = hello_body (sni_extension name);
          hs = [CHR 0x01] @ be24 (length body) @ body
      in [CHR 0x16, CHR 0x03, CHR 0x01] @ be16 (length hs) @ hs)"

section \<open>Reading what was written\<close>

lemma rd_u16_be16 [simp]: "n < 65536 \<Longrightarrow> rd_u16 (be16 n @ r) = Some (n, r)"
  by (simp add: rd_u16_def be16_def or_low [where k = 8, simplified])

lemma rd_u16_be16_Nil: "n < 65536 \<Longrightarrow> rd_u16 (be16 n) = Some (n, [])"
  using rd_u16_be16 [of n "[]"] by simp

lemma rd_take_append [simp]: "length a = n \<Longrightarrow> rd_take n (a @ r) = Some (a, r)"
  by (simp add: rd_take_def)

lemma be_lengths [simp]: "length (be16 n) = 2" "length (be24 n) = 3"
  by (simp_all add: be16_def be24_def)

lemma rd_u8_byte [simp]: "rd_u8 (c # r) = Some (byte c, r)"
  by simp

lemma rd_u24_be24 [simp]: "n < 16777216 \<Longrightarrow> rd_u24 (be24 n @ r) = Some (n, r)"
proof -
  assume n: "n < 16777216"
  have lo: "rd_u16 (be16 (n mod 65536) @ r) = Some (n mod 65536, r)"
    by (rule rd_u16_be16) simp
  have split: "be24 n @ r = char_of (n div 65536 mod 256) # be16 (n mod 65536) @ r"
    using n by (simp add: be24_def be16_def mod_mult2_eq [of n 256 256, simplified] mod_mod_cancel)
  have m: "n mod 65536 < 2 ^ 16" by simp
  have "push_bit 16 (n div 65536) OR n mod 65536 = n"
    by (simp only: or_low [OF m]) simp
  moreover have "n div 65536 mod 256 = n div 65536" using n by simp
  ultimately show ?thesis by (simp only: rd_u24_def split rd_u8.simps lo) simp
qed

lemma rd_take_all: "length a = n \<Longrightarrow> rd_take n a = Some (a, [])"
  by (simp add: rd_take_def)

lemma rd_take_Cons: "rd_take (Suc n) (x # xs) = map_option (\<lambda>(a, r). (x # a, r)) (rd_take n xs)"
  by (simp add: rd_take_def)

lemma sni_extension_parts:
  "sni_extension name = be16 0 @ be16 (length name + 5) @ be16 (length name + 3) @ [CHR 0x00] @ be16 (length name) @ name"
  by (simp add: sni_extension_def numeral_eq_Suc)

lemma sni_entry:
  assumes "length name < 65536" "from_utf8 name = Some name"
  shows "server_name_entries ([CHR 0x00] @ be16 (length name) @ name) = Some name"
  using assms by (subst server_name_entries.simps) (simp add: rd_take_all byte_def)

lemma walk_sni_extension:
  assumes "length name < 65531" "from_utf8 name = Some name"
  shows "walk_extensions (sni_extension name) = Some (Present name)"
proof -
  let ?entry = "[CHR 0x00] @ be16 (length name) @ name"
  have "parse_server_name (be16 (length name + 3) @ ?entry) = Some name"
    using assms sni_entry [of name] by (simp add: parse_server_name_def rd_take_all)
  moreover have "sni_extension name \<noteq> []" by (simp add: sni_extension_parts be16_def)
  moreover have "length (be16 (length name + 3) @ ?entry) = length name + 5" by simp
  ultimately show ?thesis
    using assms(1) by (subst walk_extensions.simps) (simp add: sni_extension_parts rd_take_all)
qed

lemma hello_body_read:
  assumes "length ext < 65536" "ext \<noteq> []"
  shows "parse_hello_body (hello_body ext) = walk_extensions ext"
proof -
  let ?tail = "be16 (length ext) @ ext"
  have t: "?tail \<noteq> []" by (simp add: be16_def)
  have a: "rd_take 2 (hello_body ext) = Some ([CHR 0x03, CHR 0x03], replicate 32 (CHR 0x00) @ [CHR 0x00] @ be16 2 @ [CHR 0x13, CHR 0x01] @ [CHR 0x01, CHR 0x00] @ ?tail)"
    unfolding hello_body_def by (rule rd_take_append) simp
  have b: "rd_take 32 (replicate 32 (CHR 0x00) @ s) = Some (replicate 32 (CHR 0x00), s)" for s :: string
    by (rule rd_take_append) simp
  have c: "rd_take 0 s = Some ([], s)" for s by (simp add: rd_take_def)
  have d: "rd_take 2 (be16 2 @ s) = Some (be16 2, s)" for s by (rule rd_take_append) simp
  have e: "rd_take 2 ([CHR 0x13, CHR 0x01] @ s) = Some ([CHR 0x13, CHR 0x01], s)" for s by (rule rd_take_append) simp
  have f: "rd_take (Suc 0) (CHR 0x00 # s) = Some ([CHR 0x00], s)" for s by (simp add: rd_take_def)
  have z: "byte (CHR 0x00) = 0" "byte (CHR 0x01) = 1" by (simp_all add: byte_def)
  show ?thesis
    unfolding parse_hello_body_def
    using assms t by (simp only: a b) (simp add: z c f e [simplified] rd_take_all)
qed

lemma extract_sni_built:
  assumes "length name \<le> 65479" "from_utf8 name = Some name"
  shows "extract_sni (client_hello_with_sni name @ rest) = Present name"
proof -
  let ?body = "hello_body (sni_extension name)"
  let ?hs = "[CHR 0x01] @ be24 (length ?body) @ ?body"
  have l: "length ?body = length name + 52" by (simp add: hello_body_def sni_extension_parts)
  have z: "byte (CHR 0x01) = 1" "byte (CHR 0x16) = 22" by (simp_all add: byte_def)
  have take: "rd_take (length ?hs) (?hs @ rest) = Some (?hs, rest)" by (rule rd_take_append) simp
  have ne: "sni_extension name \<noteq> []" by (simp add: sni_extension_parts be16_def)
  have body: "parse_hello_body ?body = Some (Present name)"
    using assms walk_sni_extension [of name] hello_body_read [OF _ ne]
    by (simp add: sni_extension_parts)
  have hd3: "rd_u16 (a # b # s) = Some (push_bit 8 (byte a) OR byte b, s)" for a b s
    by (simp add: rd_u16_def)
  have "parse_sni (client_hello_with_sni name @ rest) = Some (Present name)"
    using take assms(1) body
    by (simp add: parse_sni_def client_hello_with_sni_def Let_def z hd3 l rd_take_all)
  then show ?thesis by (simp add: extract_sni_def)
qed

text \<open>Any hello, with the server name wherever it stands among the extensions.\<close>

lemma lengths_mapped [simp]: "length (name_entry x) = 3 + length (snd x)" "length (extension_bytes x) = 4 + length (snd x)"
  by (simp_all add: name_entry_def extension_bytes_def)

lemma be16_not_Nil [simp]: "be16 n \<noteq> []"
  by (simp add: be16_def)

lemma name_entry_read:
  assumes "fst x < 256" "length (snd x) < 65536"
  shows "server_name_entries (name_entry x @ r) = (if fst x = 0 then from_utf8 (snd x) else server_name_entries r)"
  using assms by (subst server_name_entries.simps) (simp add: name_entry_def byte_def)

lemma name_entries_found:
  "0 \<notin> fst ` set others \<Longrightarrow> fst ` set others \<subseteq> {..<256} \<Longrightarrow> length (concat (map name_entry (others @ (0, name) # names))) < 65536 \<Longrightarrow>
   server_name_entries (concat (map name_entry (others @ (0, name) # names))) = from_utf8 name"
  by (induction others) (auto simp: name_entry_read)

lemma server_name_found:
  assumes "0 \<notin> fst ` set others" "fst ` set others \<subseteq> {..<256}" "length (server_name_data (others @ (0, name) # names)) < 65536"
  shows "parse_server_name (server_name_data (others @ (0, name) # names)) = from_utf8 name"
proof -
  define l where "l = concat (map name_entry (others @ (0, name) # names))"
  from assms(3) have n: "length l < 65536" by (simp only: server_name_data_def Let_def length_append be_lengths l_def)
  then have "server_name_entries l = from_utf8 name" using name_entries_found [OF assms(1,2)] unfolding l_def by blast
  with n show ?thesis unfolding server_name_data_def Let_def l_def [symmetric] by (simp add: parse_server_name_def rd_take_all)
qed

lemma walk_extension:
  assumes "fst x < 65536" "length (snd x) < 65536"
  shows "walk_extensions (extension_bytes x @ r) =
     (if fst x = 0 then Some (case parse_server_name (snd x) of Some name \<Rightarrow> Present name | None \<Rightarrow> Unverifiable)
      else walk_extensions r)"
proof -
  have ne: "extension_bytes x @ r \<noteq> []" by (simp add: extension_bytes_def)
  show ?thesis by (subst walk_extensions.simps, subst if_not_P [OF ne]) (use assms in \<open>simp add: extension_bytes_def\<close>)
qed

lemma walk_found:
  "0 \<notin> fst ` set pre \<Longrightarrow> list_all (\<lambda>(t, d). t < 65536) pre \<Longrightarrow> length (concat (map extension_bytes (pre @ (0, d) # post))) < 65536 \<Longrightarrow>
   walk_extensions (concat (map extension_bytes (pre @ (0, d) # post))) =
     Some (case parse_server_name d of Some name \<Rightarrow> Present name | None \<Rightarrow> Unverifiable)"
  by (induction pre) (auto simp: walk_extension)

lemma client_hello_parts:
  assumes "wf_hello h"
  shows "length (client_hello_body h) \<le> 16380"
    "length (concat (map extension_bytes (ch_extensions h))) < 65536" "length (ch_suites h) < 65536"
  using assms by (simp_all add: wf_hello_def client_hello_record_def client_hello_body_def Let_def)

lemma client_hello_body_read:
  assumes "wf_hello h"
  shows "parse_hello_body (client_hello_body h) = walk_extensions (concat (map extension_bytes (ch_extensions h)))"
proof -
  define e where "e = concat (map extension_bytes (ch_extensions h))"
  note p = client_hello_parts [OF assms, folded e_def]
  show ?thesis
    unfolding parse_hello_body_def client_hello_body_def Let_def e_def [symmetric]
    using assms p(2,3) by (simp add: wf_hello_def byte_def rd_take_all)
qed

lemma extract_sni_asked:
  assumes "wf_hello h" "asks_for h name"
  shows "extract_sni (client_hello_record h @ rest) = (if utf8_valid name then Present name else Unverifiable)"
proof -
  obtain pre post others names where e: "ch_extensions h = pre @ (0, server_name_data (others @ (0, name) # names)) # post"
    and n: "0 \<notin> fst ` set pre" "0 \<notin> fst ` set others" "fst ` set others \<subseteq> {..<256}"
    using assms(2) by (auto simp: asks_for_def)
  note p = client_hello_parts [OF assms(1)]
  have l: "length (server_name_data (others @ (0, name) # names)) < 65536" using p(2) by (simp add: e)
  have "list_all (\<lambda>(t, d). t < 65536) pre" using assms(1) by (simp add: wf_hello_def e)
  then have w: "walk_extensions (concat (map extension_bytes (ch_extensions h))) =
      Some (if utf8_valid name then Present name else Unverifiable)"
    using walk_found [OF n(1) _ p(2) [unfolded e]] server_name_found [OF n(2,3) l] by (simp add: e from_utf8_def)
  define body where "body = client_hello_body h"
  define hs where "hs = [CHR 0x01] @ be24 (length body) @ body"
  have hs: "length hs < 65536" using p(1) by (simp add: hs_def body_def)
  have r: "client_hello_record h @ rest = CHR 0x16 # ch_record_version h @ be16 (length hs) @ hs @ rest"
    by (simp add: client_hello_record_def Let_def hs_def body_def)
  obtain a b where v: "ch_record_version h = [a, b]" using assms(1) by (auto simp: wf_hello_def length_Suc_conv numeral_2_eq_2)
  have z: "byte (CHR 0x01) = 1" "byte (CHR 0x16) = 22" by (simp_all add: byte_def)
  have t: "rd_u16 (a # b # s) = Some (push_bit 8 (byte a) OR byte b, s)" for s by (simp add: rd_u16_def)
  have "parse_sni (client_hello_record h @ rest) = parse_hello_body body"
    unfolding parse_sni_def r v using hs p(1) by (simp add: z t) (simp add: hs_def z rd_take_all body_def)
  with client_hello_body_read [OF assms(1)] w show ?thesis by (simp add: extract_sni_def body_def)
qed

section \<open>What a verdict vouches for\<close>

text \<open>The big-endian fields of a record: its length, and the length of the handshake body.\<close>

definition record_len :: "string \<Rightarrow> nat" where
  "record_len rec = push_bit 8 (byte (rec ! 3)) OR byte (rec ! 4)"

definition body_len :: "string \<Rightarrow> nat" where
  "body_len rec = push_bit 16 (byte (rec ! 6)) OR (push_bit 8 (byte (rec ! 7)) OR byte (rec ! 8))"

lemma rd_u8_Some: "rd_u8 r = Some (n, r') \<longleftrightarrow> (\<exists>c. r = c # r' \<and> n = byte c)"
  by (cases r) auto

lemma rd_u16_Some:
  "rd_u16 r = Some (n, r') \<longleftrightarrow> (\<exists>a b. r = a # b # r' \<and> n = push_bit 8 (byte a) OR byte b)"
  by (auto simp: rd_u16_def bind_eq_Some_conv rd_u8_Some)

lemma rd_u24_Some:
  "rd_u24 r = Some (n, r') \<longleftrightarrow>
     (\<exists>a b c. r = a # b # c # r' \<and> n = push_bit 16 (byte a) OR (push_bit 8 (byte b) OR byte c))"
  by (auto simp: rd_u24_def bind_eq_Some_conv rd_u8_Some rd_u16_Some)

lemma rd_take_Some: "rd_take n r = Some (a, r') \<longleftrightarrow> r = a @ r' \<and> length a = n"
  by (auto simp: rd_take_def)

lemma verdict_whole_record:
  assumes "extract_sni rec \<noteq> Unverifiable"
  shows "byte (rec ! 0) = 22 \<and> byte (rec ! 5) = 1 \<and> 5 + record_len rec \<le> length rec \<and>
    4 + body_len rec \<le> record_len rec"
proof -
  obtain v where "parse_sni rec = Some v" "v \<noteq> Unverifiable"
    using assms by (auto simp: extract_sni_def split: option.splits)
  then obtain ct a b c d hs r ht e f g body r' where
    "rec = ct # a # b # c # d # hs @ r" "byte ct = 22" "length hs = push_bit 8 (byte c) OR byte d"
    "hs = ht # e # f # g # body @ r'" "byte ht = 1"
    "length body = push_bit 16 (byte e) OR (push_bit 8 (byte f) OR byte g)"
    by (auto simp: parse_sni_def bind_eq_Some_conv rd_u8_Some rd_u16_Some rd_u24_Some rd_take_Some
        split: if_splits)
  then show ?thesis by (auto simp: record_len_def body_len_def)
qed

section \<open>Properties\<close>

text \<open>
  The walker reads back the name the builder wrote, whatever bytes follow the record, for every UTF-8 name
  whose extension fits its 16-bit length.\<close>

theorem sni_round_trip:
  assumes "length name \<le> 65479" "from_utf8 name = Some name"
  shows "extract_sni (client_hello_with_sni name @ rest) = Present name"
  by (rule extract_sni_built [OF assms])

theorem sni_round_trip_witness:
  "extract_sni (client_hello_with_sni ''a.b'' @ ''x'') = Present ''a.b''"
  by (rule sni_round_trip) (simp_all add: from_utf8_def utf8_valid_ascii is_ascii_def byte_def)

text \<open>
  A verdict other than \<open>Unverifiable\<close> is given only on a whole handshake record that holds a whole
  ClientHello: a truncated or record-fragmented hello is never taken for one without SNI.\<close>

theorem sni_verdict_whole:
  assumes "extract_sni rec \<noteq> Unverifiable"
  shows "byte (rec ! 0) = 22 \<and> byte (rec ! 5) = 1 \<and> 5 + record_len rec \<le> length rec \<and>
    4 + body_len rec \<le> record_len rec"
  by (rule verdict_whole_record [OF assms])

theorem sni_verdict_whole_witness:
  "5 + record_len (client_hello_with_sni ''a.b'') \<le> length (client_hello_with_sni ''a.b'')"
proof -
  have "extract_sni (client_hello_with_sni ''a.b'' @ []) = Present ''a.b''"
    by (rule extract_sni_built) (simp_all add: from_utf8_def utf8_valid_ascii is_ascii_def byte_def)
  with sni_verdict_whole [of "client_hello_with_sni ''a.b''"] show ?thesis by simp
qed

end
