(* ===== verification/Proxy.thy ===== *)
theory Proxy
  imports Decide Auth Connect Sni
begin

unbundle bit_operations_syntax

text \<open>
  The forward proxy of crates/egress/src/proxy.rs. A connection is handled as a function from what
  the client and the network do to the ordered list of effects the handler has: replies to the
  client, recorded events, the name lookup, the dial, the forwarded first flight and the splice.
  The reads of a socket are arguments: the bytes delivered before the end of the stream, an error
  or the deadline, and for the first flight the result of each read.
\<close>

section \<open>Reading the request head\<close>

definition MAX_HEAD :: nat where
  "MAX_HEAD = 8 * 1024"

definition MAX_HELLO :: nat where
  "MAX_HELLO = 16 * 1024 + 5"

definition head_end :: string where
  "head_end = crlf @ crlf"

fun read_head_from :: "string \<Rightarrow> string \<Rightarrow> string option" where
  "read_head_from buf [] = None"
| "read_head_from buf (b # rest) =
     (let buf = buf @ [b] in
      if ends_with buf head_end then Some buf
      else if MAX_HEAD \<le> length buf then None
      else read_head_from buf rest)"

definition read_head :: "string \<Rightarrow> string option" where
  "read_head stream = read_head_from [] stream"

section \<open>Reading the first flight\<close>

datatype first_flight = NonTls string | Tls string | Incomplete

definition classify_incomplete :: "string \<Rightarrow> first_flight" where
  "classify_incomplete buf = (if buf = [] \<or> byte (hd buf) \<noteq> 22 then NonTls buf else Incomplete)"

definition record_complete :: "string \<Rightarrow> bool" where
  "record_complete buf =
     (if 5 \<le> length buf then 5 + (push_bit 8 (byte (buf ! 3)) OR byte (buf ! 4)) \<le> length buf else False)"

text \<open>
  Each element is what one read returned; the empty list is the end of the stream, and the end of
  the list a timeout or an error.
\<close>

fun read_client_hello :: "string \<Rightarrow> string list \<Rightarrow> first_flight" where
  "read_client_hello buf [] = classify_incomplete buf"
| "read_client_hello buf (chunk # chunks) =
     (if chunk = [] then classify_incomplete buf
      else let buf = buf @ chunk in
        if byte (hd buf) \<noteq> 22 then NonTls buf
        else if record_complete buf then Tls buf
        else if MAX_HELLO \<le> length buf then Incomplete
        else read_client_hello buf chunks)"

section \<open>Resolving\<close>

type_synonym sock_addr = "ip_addr \<times> u16"

record proxy_config =
  allow_local_targets :: bool
  auth_token :: "string option"
  lockdown :: bool

definition default_proxy_config :: proxy_config where
  "default_proxy_config = \<lparr>allow_local_targets = False, auth_token = None, lockdown = False\<rparr>"

datatype lookup_result = Resolved "sock_addr list" | LookupFailed string | LookupTimedOut

definition forbidden_summary :: "sock_addr list \<Rightarrow> string" where
  "forbidden_summary addrs = join_with '', '' (map show_ip (take 3 (map fst addrs)))"

definition quoted :: "string \<Rightarrow> string" where
  "quoted s = [CHR 0x27] @ s @ [CHR 0x27]"

definition resolve_validated :: "proxy_config \<Rightarrow> lookup_result \<Rightarrow> string \<Rightarrow> (sock_addr, string) result" where
  "resolve_validated cfg answer host =
     (case answer of
        LookupFailed e \<Rightarrow> Inl (''could not resolve '' @ quoted host @ '': '' @ e)
      | LookupTimedOut \<Rightarrow> Inl (''resolving '' @ quoted host @ '' timed out'')
      | Resolved addrs \<Rightarrow>
          if addrs = [] then Inl (quoted host @ '' resolved to no addresses'')
          else if allow_local_targets cfg then Inr (hd addrs)
          else (case find (\<lambda>a. \<not> is_forbidden_target (fst a)) addrs of
                  Some a \<Rightarrow> Inr a
                | None \<Rightarrow> Inl (quoted host @ '' resolves only to non-global addresses (''
                    @ forbidden_summary addrs @ '') '' @ em_dash @ '' refused (SSRF guard)'')))"

section \<open>The handler\<close>

record server_proxy =
  px_server :: string
  px_guard :: compiled_ruleset
  px_config :: proxy_config

datatype stage = AuthCheck | LockdownCheck | PolicyCheck | ResolveCheck | FlightCheck

record network =
  net_now :: "stage \<Rightarrow> u64"
  net_lookup :: "string \<Rightarrow> u16 \<Rightarrow> lookup_result"
  net_dial :: "sock_addr \<Rightarrow> bool"
  net_forward_ok :: bool

record client =
  cl_head :: string
  cl_established_ok :: bool
  cl_flight :: "string list"

datatype effect =
    Reply string
  | Emit egress_event
  | Lookup string u16
  | Dial sock_addr
  | Forward string
  | Splice

definition bad_request :: string where
  "bad_request = ''HTTP/1.1 400 Bad Request'' @ crlf @ crlf"
definition auth_required :: string where
  "auth_required = ''HTTP/1.1 407 Proxy Authentication Required'' @ crlf
     @ ''Proxy-Authenticate: Basic realm='' @ dq @ ''agentstack'' @ dq @ crlf @ crlf"
definition forbidden :: string where
  "forbidden = ''HTTP/1.1 403 Forbidden'' @ crlf @ crlf"
definition bad_gateway :: string where
  "bad_gateway = ''HTTP/1.1 502 Bad Gateway'' @ crlf @ crlf"
definition established :: string where
  "established = ''HTTP/1.1 200 Connection Established'' @ crlf @ crlf"

definition auth_rule :: string where
  "auth_rule = ''proxy client did not present the expected credentials''"
definition numeric_rule :: string where
  "numeric_rule = ''literal-IP (numeric-host) CONNECT target refused under lockdown '' @ em_dash
     @ '' reach declared hosts by name through the gateway''"
definition non_tls_rule :: string where
  "non_tls_rule = ''non-TLS tunnel refused under lockdown '' @ em_dash @ '' only TLS egress is permitted''"
definition mismatch_rule :: "string \<Rightarrow> string \<Rightarrow> string" where
  "mismatch_rule sni host = ''TLS SNI '' @ quoted sni @ '' does not match CONNECT host '' @ quoted host"
definition unverifiable_rule :: string where
  "unverifiable_rule = ''unverifiable TLS ClientHello (truncated or record-fragmented) '' @ em_dash
     @ '' cannot check SNI, failing closed''"
definition incomplete_rule :: string where
  "incomplete_rule = ''incomplete TLS ClientHello '' @ em_dash @ '' cannot verify SNI, failing closed''"

text \<open>The bytes to replay upstream, or the rule that refuses the flight.\<close>

fun check_flight :: "bool \<Rightarrow> string \<Rightarrow> first_flight \<Rightarrow> (string, string) result" where
  "check_flight locked host (NonTls bytes) = (if locked then Inl non_tls_rule else Inr bytes)"
| "check_flight locked host (Tls bytes) =
     (case extract_sni bytes of
        Present sni \<Rightarrow>
          (let sni = normalize_host sni in
           if sni \<noteq> host then Inl (mismatch_rule sni host) else Inr bytes)
      | Absent \<Rightarrow> Inr bytes
      | Unverifiable \<Rightarrow> Inl unverifiable_rule)"
| "check_flight locked host Incomplete = Inl incomplete_rule"

definition block :: "server_proxy \<Rightarrow> network \<Rightarrow> stage \<Rightarrow> target \<Rightarrow> string \<Rightarrow> effect" where
  "block p net st t rule = Emit (guard_block_event (net_now net st) (px_server p) (t_host t) rule)"

definition handle_tunnel :: "server_proxy \<Rightarrow> network \<Rightarrow> client \<Rightarrow> target \<Rightarrow> egress_event \<Rightarrow> effect list" where
  "handle_tunnel p net cl t event =
     Reply established #
     (if \<not> cl_established_ok cl then []
      else (case check_flight (lockdown (px_config p)) (t_host t) (read_client_hello [] (cl_flight cl)) of
              Inl rule \<Rightarrow> [block p net FlightCheck t rule]
            | Inr flight \<Rightarrow>
                Emit event # Forward flight # (if net_forward_ok net then [Splice] else [])))"

definition handle_allowed :: "server_proxy \<Rightarrow> network \<Rightarrow> client \<Rightarrow> target \<Rightarrow> egress_event \<Rightarrow> effect list" where
  "handle_allowed p net cl t event =
     Lookup (t_host t) (t_port t) #
     (case resolve_validated (px_config p) (net_lookup net (t_host t) (t_port t)) (t_host t) of
        Inl reason \<Rightarrow> [block p net ResolveCheck t reason, Reply forbidden]
      | Inr addr \<Rightarrow>
          Dial addr #
          (if net_dial net addr then handle_tunnel p net cl t event
           else [Emit event, Reply bad_gateway]))"

definition handle_target :: "server_proxy \<Rightarrow> network \<Rightarrow> client \<Rightarrow> target \<Rightarrow> effect list" where
  "handle_target p net cl t =
     (if lockdown (px_config p) \<and> is_numeric_host (t_host t)
      then [block p net LockdownCheck t numeric_rule, Reply forbidden]
      else let d = decide (net_now net PolicyCheck) (px_guard p) (px_server p) (t_host t) (t_port t) in
        if \<not> dc_allowed d then [Emit (dc_event d), Reply forbidden]
        else handle_allowed p net cl t (dc_event d))"

definition auth_ok :: "proxy_config \<Rightarrow> string \<Rightarrow> bool" where
  "auth_ok cfg head = (case auth_token cfg of None \<Rightarrow> True | Some token \<Rightarrow> head_has_valid_auth head token)"

definition handle_connection :: "server_proxy \<Rightarrow> network \<Rightarrow> client \<Rightarrow> effect list" where
  "handle_connection p net cl =
     (case read_head (cl_head cl) of
        None \<Rightarrow> [Reply bad_request]
      | Some head \<Rightarrow>
          (case parse_connect_target head of
             None \<Rightarrow> [Reply bad_request]
           | Some t \<Rightarrow>
               if \<not> auth_ok (px_config p) head then [block p net AuthCheck t auth_rule, Reply auth_required]
               else handle_target p net cl t))"

section \<open>Facts about the reads\<close>

lemma ends_with_append: "ends_with (a @ b) b"
  by (simp add: ends_with_def)

text \<open>A prefix of the stream is the head when it ends the head and no shorter one does.\<close>

definition head_at :: "string \<Rightarrow> nat \<Rightarrow> bool" where
  "head_at stream n \<longleftrightarrow> n \<le> length stream \<and> ends_with (take n stream) head_end \<and>
     (\<forall>k < n. \<not> ends_with (take k stream) head_end)"

lemma read_head_from_Some:
  "length buf < MAX_HEAD \<Longrightarrow> (\<forall>k \<le> length buf. \<not> ends_with (take k buf) head_end) \<Longrightarrow>
   read_head_from buf rest = Some h \<longleftrightarrow>
     (\<exists>n. head_at (buf @ rest) n \<and> n \<le> MAX_HEAD \<and> h = take n (buf @ rest))"
proof (induction buf rest rule: read_head_from.induct)
  case (1 buf)
  then show ?case by (auto simp: head_at_def)
next
  case (2 buf b rest)
  have pre: "take k (buf @ b # rest) = take k buf" if "k \<le> length buf" for k using that by simp
  have one: "take (Suc (length buf)) (buf @ b # rest) = buf @ [b]" by simp
  show ?case
  proof (cases "ends_with (buf @ [b]) head_end")
    case True
    have no: "\<not> ends_with (take k (buf @ b # rest)) head_end" if "k < Suc (length buf)" for k
      using 2(3) pre [of k] that by (simp add: less_Suc_eq_le)
    have at: "head_at (buf @ b # rest) n \<longleftrightarrow> n = Suc (length buf)" for n
    proof
      assume "head_at (buf @ b # rest) n"
      then show "n = Suc (length buf)"
        using no [of n] True one unfolding head_at_def by (metis linorder_neqE_nat)
    next
      assume "n = Suc (length buf)"
      then show "head_at (buf @ b # rest) n"
        using no True one unfolding head_at_def by simp
    qed
    with True 2(2) one show ?thesis by (auto simp: Let_def)
  next
    case False
    have no: "\<forall>k \<le> length (buf @ [b]). \<not> ends_with (take k (buf @ [b])) head_end"
      using False 2(3) by (auto simp: le_Suc_eq)
    have lo: "head_at (buf @ b # rest) n \<Longrightarrow> Suc (length buf) < n" for n
      using no unfolding head_at_def
      by (metis One_nat_def Suc_leI length_append_singleton linorder_not_less one take_take min.absorb1)
    show ?thesis
    proof (cases "MAX_HEAD \<le> Suc (length buf)")
      case True
      with False lo show ?thesis by (fastforce simp: Let_def)
    next
      case f: False
      with 2(1) [OF refl False] no False show ?thesis by (simp add: Let_def)
    qed
  qed
qed

lemma read_head_Some:
  "read_head stream = Some h \<longleftrightarrow> (\<exists>n. head_at stream n \<and> n \<le> MAX_HEAD \<and> h = take n stream)"
proof -
  have "\<not> ends_with [] head_end" by (simp add: ends_with_iff head_end_def crlf_def)
  then show ?thesis
    by (simp add: read_head_def read_head_from_Some MAX_HEAD_def)
qed

text \<open>What the reader of the first flight hands on is what it has read, and a bounded amount of it.\<close>

lemma record_complete_len: "record_complete buf \<longleftrightarrow> 5 \<le> length buf \<and> 5 + record_len buf \<le> length buf"
  by (simp add: record_complete_def record_len_def)

lemma hello_reads:
  "read_client_hello buf chunks = NonTls b \<or> read_client_hello buf chunks = Tls b \<Longrightarrow>
   \<exists>k \<le> length chunks. b = buf @ concat (take k chunks)"
proof (induction buf chunks rule: read_client_hello.induct)
  case (1 buf)
  then show ?case by (auto simp: classify_incomplete_def split: if_splits)
next
  case (2 buf chunk chunks)
  have step: "\<exists>k \<le> length (chunk # chunks). b = buf @ concat (take k (chunk # chunks))"
    if "\<exists>k \<le> length chunks. b = (buf @ chunk) @ concat (take k chunks)"
  proof -
    from that obtain k where "k \<le> length chunks" "b = (buf @ chunk) @ concat (take k chunks)" by blast
    then show ?thesis by (intro exI [of _ "Suc k"]) simp
  qed
  show ?case
  proof (cases "chunk = []")
    case True
    with 2(2) show ?thesis
      by (intro exI [of _ 0]) (auto simp: classify_incomplete_def split: if_splits)
  next
    case False
    show ?thesis
    proof (rule step, cases "read_client_hello (buf @ chunk) chunks = NonTls b \<or> read_client_hello (buf @ chunk) chunks = Tls b")
      case True
      with 2 False show "\<exists>k \<le> length chunks. b = (buf @ chunk) @ concat (take k chunks)"
        by (auto simp: Let_def split: if_splits)
    next
      case rec: False
      with 2(2) False have "b = buf @ chunk" by (auto simp: Let_def split: if_splits)
      then show "\<exists>k \<le> length chunks. b = (buf @ chunk) @ concat (take k chunks)"
        by (intro exI [of _ 0]) simp
    qed
  qed
qed

lemma hello_bounded:
  "read_client_hello buf chunks = NonTls b \<or> read_client_hello buf chunks = Tls b \<Longrightarrow>
   length buf < MAX_HELLO \<Longrightarrow> \<forall>c \<in> set chunks. length c \<le> m \<Longrightarrow> length b < MAX_HELLO + m"
  by (induction buf chunks rule: read_client_hello.induct)
    (auto simp: classify_incomplete_def Let_def split: if_splits)

lemma hello_Tls:
  "read_client_hello buf chunks = Tls b \<Longrightarrow> byte (hd b) = 22 \<and> record_complete b"
  by (induction buf chunks rule: read_client_hello.induct)
    (auto simp: classify_incomplete_def Let_def split: if_splits)

text \<open>However a complete handshake record is cut into reads, the reader collects all of it.\<close>

lemma record_len_prefix: "5 \<le> length a \<Longrightarrow> record_len (a @ b) = record_len a"
  by (simp add: record_len_def nth_append)

lemma hello_any_cut:
  assumes "byte (hd r) = 22" "5 + record_len r = length r" "length r \<le> MAX_HELLO"
  shows "[] \<notin> set chunks \<Longrightarrow> buf @ concat chunks = r @ extra \<Longrightarrow> length buf < length r \<Longrightarrow>
    \<exists>x. read_client_hello buf chunks = Tls (r @ x)"
proof (induction chunks arbitrary: buf)
  case Nil
  then show ?case by (metis append_Nil2 concat.simps(1) length_append linorder_not_less le_add1)
next
  case (Cons c cs)
  let ?b = "buf @ c"
  have eq: "?b @ concat cs = r @ extra" using Cons.prems by simp
  have ne: "c \<noteq> []" using Cons.prems by auto
  then have hd: "hd ?b = hd r"
    using eq assms(2) by (metis Nil_is_append_conv add_is_0 hd_append2 list.size(3) zero_neq_numeral)
  show ?case
  proof (cases "length r \<le> length ?b")
    case True
    then obtain x where x: "?b = r @ x" using eq by (metis append_eq_append_conv_if append_take_drop_id)
    have "record_complete (r @ x)"
      using assms(2) record_len_prefix [of r x] by (simp add: record_complete_len)
    with x ne hd assms(1) show ?thesis by (simp add: Let_def)
  next
    case False
    then obtain y where y: "r = ?b @ y" using eq by (metis append_eq_append_conv_if append_take_drop_id linorder_le_cases)
    with False have "y \<noteq> []" by auto
    then have "\<not> record_complete ?b"
      using assms(2) record_len_prefix [of ?b y] y by (auto simp: record_complete_len)
    moreover have "\<not> MAX_HELLO \<le> length ?b" using False assms(3) by simp
    ultimately show ?thesis
      using Cons.IH [OF _ eq] Cons.prems(1) False ne hd assms(1) by (simp add: Let_def)
  qed
qed

lemma hello_record_shape:
  assumes "wf_hello h"
  shows "byte (hd (client_hello_record h)) = 22"
    and "5 + record_len (client_hello_record h) = length (client_hello_record h)"
    and "length (client_hello_record h) \<le> MAX_HELLO"
proof -
  define hs where "hs = [CHR 0x01] @ be24 (length (client_hello_body h)) @ client_hello_body h"
  have r: "client_hello_record h = CHR 0x16 # ch_record_version h @ be16 (length hs) @ hs"
    by (simp add: client_hello_record_def Let_def hs_def)
  obtain a b where v: "ch_record_version h = [a, b]" using assms by (auto simp: wf_hello_def length_Suc_conv numeral_2_eq_2)
  have l: "length hs < 65536" using assms by (simp add: wf_hello_def r)
  show "byte (hd (client_hello_record h)) = 22" by (simp add: r byte_def)
  have "rd_u16 (be16 (length hs)) = Some (length hs, [])" using l by (rule rd_u16_be16_Nil)
  then have "push_bit 8 (byte (be16 (length hs) ! 0)) OR byte (be16 (length hs) ! 1) = length hs"
    by (auto simp: rd_u16_Some)
  then have "record_len (client_hello_record h) = length hs" by (simp add: record_len_def r v nth_append be16_def)
  then show "5 + record_len (client_hello_record h) = length (client_hello_record h)" by (simp add: r v)
  show "length (client_hello_record h) \<le> MAX_HELLO" using assms by (simp add: wf_hello_def MAX_HELLO_def)
qed

text \<open>The refusal of a hello that asks for another host.\<close>

definition fronting_rule :: "string \<Rightarrow> string \<Rightarrow> string" where
  "fronting_rule name host = (if utf8_valid name then mismatch_rule (normalize_host name) host else unverifiable_rule)"

lemma fronted_flight:
  assumes "wf_hello h" "asks_for h name" "utf8_valid name \<longrightarrow> normalize_host name \<noteq> host"
    and "[] \<notin> set chunks" "concat chunks = client_hello_record h @ extra"
  shows "check_flight locked host (read_client_hello [] chunks) = Inl (fronting_rule name host)"
proof -
  note b = hello_record_shape [OF assms(1)]
  have "0 < length (client_hello_record h)" using b(2) by linarith
  with hello_any_cut [OF b assms(4), of "[]" extra] assms(5) obtain x where
    "read_client_hello [] chunks = Tls (client_hello_record h @ x)" by auto
  with extract_sni_asked [OF assms(1,2), of x] assms(3) show ?thesis by (simp add: Let_def fronting_rule_def)
qed

section \<open>Facts about the handler\<close>

lemma resolve_validated_Inr:
  "resolve_validated cfg answer host = Inr a \<Longrightarrow>
   \<exists>addrs. answer = Resolved addrs \<and> a \<in> set addrs \<and> (allow_local_targets cfg \<or> \<not> is_forbidden_target (fst a))"
  by (auto simp: resolve_validated_def find_Some_iff split: lookup_result.splits if_splits option.splits
      intro!: nth_mem)

lemma resolve_validated_first:
  "\<not> allow_local_targets cfg \<Longrightarrow>
   resolve_validated cfg (Resolved addrs) host = Inr a \<longleftrightarrow> find (\<lambda>a. \<not> is_forbidden_target (fst a)) addrs = Some a"
  by (auto simp: resolve_validated_def split: option.splits)

text \<open>The events of a trace, in order.\<close>

definition events :: "effect list \<Rightarrow> egress_event list" where
  "events tr = List.map_filter (\<lambda>e. case e of Emit ev \<Rightarrow> Some ev | _ \<Rightarrow> None) tr"

lemma events_simps [simp]:
  "events [] = []" "events (Emit ev # tr) = ev # events tr" "events (Reply r # tr) = events tr"
  "events (Lookup h p # tr) = events tr" "events (Dial a # tr) = events tr"
  "events (Forward b # tr) = events tr" "events (Splice # tr) = events tr"
  by (simp_all add: events_def)

lemma block_neq [simp]:
  "block p net st t rule \<noteq> Reply r" "block p net st t rule \<noteq> Lookup h q" "block p net st t rule \<noteq> Dial a"
  "block p net st t rule \<noteq> Forward b" "block p net st t rule \<noteq> Splice"
  "Reply r \<noteq> block p net st t rule" "Lookup h q \<noteq> block p net st t rule" "Dial a \<noteq> block p net st t rule"
  "Forward b \<noteq> block p net st t rule" "Splice \<noteq> block p net st t rule"
  by (simp_all add: block_def)

lemma events_block [simp]:
  "events (block p net st t rule # tr) =
     guard_block_event (net_now net st) (px_server p) (t_host t) rule # events tr"
  by (simp add: block_def)

lemmas handle_defs = handle_connection_def handle_target_def handle_allowed_def handle_tunnel_def

text \<open>What has been checked when the handler reaches the network for a target.\<close>

definition admitted :: "server_proxy \<Rightarrow> client \<Rightarrow> target \<Rightarrow> bool" where
  "admitted p cl t \<longleftrightarrow>
     (\<exists>head. read_head (cl_head cl) = Some head \<and> parse_connect_target head = Some t \<and> auth_ok (px_config p) head) \<and>
     (lockdown (px_config p) \<longrightarrow> \<not> is_numeric_host (t_host t)) \<and>
     cr_version (px_guard p) \<le> RULESET_VERSION \<and> \<not> is_gateway_only_host (px_guard p) (t_host t) \<and>
     cr_egress_decision (px_guard p) (px_server p) (t_host t) (Some (t_port t)) = Inr ()"

lemma not_admitted:
  assumes "\<not> (\<exists>t. admitted p cl t)"
  shows "set (handle_connection p net cl) \<subseteq> range Reply \<union> range Emit"
    and "length (events (handle_connection p net cl)) \<le> 1"
    and "ev \<in> set (events (handle_connection p net cl)) \<Longrightarrow> \<not> ev_allowed ev \<and> ev_server ev = px_server p"
  using assms
  by (auto simp: handle_connection_def handle_target_def admitted_def decide_allowed Let_def block_def
      split: option.splits if_splits)

lemma handle_admitted:
  "admitted p cl t \<Longrightarrow> handle_connection p net cl =
     handle_allowed p net cl t (dc_event (decide (net_now net PolicyCheck) (px_guard p) (px_server p) (t_host t) (t_port t)))"
  by (auto simp: handle_connection_def handle_target_def admitted_def decide_allowed Let_def)

lemma effect_admitted:
  "e \<in> set (handle_connection p net cl) \<Longrightarrow> e \<notin> range Reply \<union> range Emit \<Longrightarrow> \<exists>t. admitted p cl t"
  using not_admitted(1) by blast

lemma admitted_decide: "admitted p cl t \<Longrightarrow> dc_allowed (decide now (px_guard p) (px_server p) (t_host t) (t_port t))"
  by (simp add: admitted_def decide_allowed)

lemma hello_NonTls: "read_client_hello buf chunks = NonTls b \<Longrightarrow> b = [] \<or> byte (hd b) \<noteq> 22"
  by (induction buf chunks rule: read_client_hello.induct)
    (auto simp: classify_incomplete_def Let_def split: if_splits)

text \<open>A flight that may be replayed: plaintext outside lockdown, or TLS that claims no other host.\<close>

definition flight_ok :: "bool \<Rightarrow> string \<Rightarrow> string \<Rightarrow> bool" where
  "flight_ok locked host b \<longleftrightarrow>
     (if b = [] \<or> byte (hd b) \<noteq> 22 then \<not> locked
      else record_complete b \<and>
        (case extract_sni b of Present s \<Rightarrow> normalize_host s = host | Absent \<Rightarrow> True | Unverifiable \<Rightarrow> False))"

lemma check_flight_ok:
  "check_flight locked host (read_client_hello [] chunks) = Inr b \<Longrightarrow>
     flight_ok locked host b \<and> (\<exists>k. b = concat (take k chunks))"
proof -
  assume c: "check_flight locked host (read_client_hello [] chunks) = Inr b"
  then have r: "read_client_hello [] chunks = NonTls b \<or> read_client_hello [] chunks = Tls b"
    by (cases "read_client_hello [] chunks") (auto simp: Let_def split: sni_verdict.splits if_splits)
  moreover have "flight_ok locked host b"
    using c r hello_NonTls [of "[]" chunks b] hello_Tls [of "[]" chunks b]
    by (auto simp: flight_ok_def Let_def record_complete_def split: sni_verdict.splits if_splits)
  ultimately show ?thesis using hello_reads [of "[]" chunks b] by auto
qed

lemma forward_shape:
  assumes "Forward b \<in> set (handle_connection p net cl)"
  shows "\<exists>t a. admitted p cl t \<and> resolve_validated (px_config p) (net_lookup net (t_host t) (t_port t)) (t_host t) = Inr a \<and>
    net_dial net a \<and> check_flight (lockdown (px_config p)) (t_host t) (read_client_hello [] (cl_flight cl)) = Inr b"
proof -
  from assms effect_admitted obtain t where "admitted p cl t" by blast
  with assms show ?thesis
    by (auto simp: handle_admitted handle_allowed_def handle_tunnel_def split: sum.splits if_splits)
qed

lemma forward_checked:
  assumes "Forward b \<in> set (handle_connection p net cl)"
  shows "\<exists>t a addrs. admitted p cl t \<and> net_lookup net (t_host t) (t_port t) = Resolved addrs \<and> a \<in> set addrs \<and>
    (allow_local_targets (px_config p) \<or> \<not> is_forbidden_target (fst a)) \<and> net_dial net a \<and>
    flight_ok (lockdown (px_config p)) (t_host t) b \<and> (\<exists>k. b = concat (take k (cl_flight cl)))"
  using forward_shape [OF assms] by (blast dest: resolve_validated_Inr check_flight_ok)

lemma network_checked:
  assumes "handle_connection p net cl = pre @ e # post" "e \<notin> range Reply \<union> range Emit"
  shows "\<exists>t post'. admitted p cl t \<and> handle_connection p net cl = Lookup (t_host t) (t_port t) # post' \<and>
    (\<forall>h q. Lookup h q \<notin> set post') \<and>
    (\<forall>a. Dial a \<in> set post' \<longrightarrow> (\<exists>addrs. net_lookup net (t_host t) (t_port t) = Resolved addrs \<and> a \<in> set addrs \<and>
       (allow_local_targets (px_config p) \<or> \<not> is_forbidden_target (fst a))))"
proof -
  from assms effect_admitted [of e p net cl] obtain t where t: "admitted p cl t" by auto
  then show ?thesis
    by (intro exI [of _ t])
      (auto simp: handle_admitted handle_allowed_def handle_tunnel_def dest: resolve_validated_Inr split: sum.splits if_splits)
qed

lemma one_event:
  assumes "read_head (cl_head cl) = Some head" "parse_connect_target head = Some t"
  shows "(\<not> cl_established_ok cl \<and> events (handle_connection p net cl) = []) \<or>
    (\<exists>ev. events (handle_connection p net cl) = [ev] \<and> ev_server ev = px_server p \<and> ev_host ev = t_host t \<and>
    (ev_rule ev = None \<longleftrightarrow> ev_allowed ev) \<and>
    (ev_allowed ev \<longleftrightarrow> (\<exists>b. Forward b \<in> set (handle_connection p net cl)) \<or>
       last (handle_connection p net cl) = Reply bad_gateway))"
proof -
  have ne: "forbidden \<noteq> bad_gateway" "auth_required \<noteq> bad_gateway"
    by (simp_all add: forbidden_def bad_gateway_def auth_required_def)
  show ?thesis
    using assms admitted_decide [of p cl t] ne
    by (auto simp: handle_connection_def handle_target_def handle_allowed_def handle_tunnel_def Let_def
        decide_rule split: sum.splits if_splits)
qed

section \<open>A sample connection\<close>

text \<open>A client without credentials, a proxy without rules, and a name with two addresses.\<close>

definition sample_proxy :: "bool \<Rightarrow> server_proxy" where
  "sample_proxy locked =
     \<lparr>px_server = ''s'', px_guard = default_ruleset,
      px_config = \<lparr>allow_local_targets = False, auth_token = None, lockdown = locked\<rparr>\<rparr>"

definition sample_network :: network where
  "sample_network =
     \<lparr>net_now = (\<lambda>_. 0), net_lookup = (\<lambda>_ port. Resolved [(IpV4 (V4 10 0 0 1), port), (IpV4 (V4 93 184 216 34), port)]),
      net_dial = (\<lambda>_. True), net_forward_ok = True\<rparr>"

definition sample_request :: string where
  "sample_request = ''CONNECT a.b:80 HTTP/1.1'' @ crlf @ crlf"

definition sample_client :: "string list \<Rightarrow> client" where
  "sample_client flight =
     \<lparr>cl_head = sample_request, cl_established_ok = True, cl_flight = flight\<rparr>"

definition sample_target :: target where
  "sample_target = \<lparr>t_host = ''a.b'', t_port = 80\<rparr>"

lemma sample_head: "read_head (cl_head (sample_client flight)) = Some sample_request"
  by (simp add: sample_client_def sample_request_def read_head_def MAX_HEAD_def head_end_def crlf_def ends_with_def strip_suffix_def)

lemma sample_normal: "normalize_host ''a.b'' = ''a.b''"
  by code_simp

lemma sample_parse: "parse_connect_target sample_request = Some sample_target"
proof -
  have "split_host_port ''a.b:80'' = Some sample_target"
    by (simp add: sample_target_def split_host_port_def rsplit_once_def parse_u16_def sample_normal digit_val_def
        ascii_defs byte_def)
  then show ?thesis
    by (simp add: sample_request_def parse_connect_target_def first_line_def crlf_def from_utf8_def utf8_valid_ascii is_ascii_def
        byte_def eq_ignore_ascii_case_def starts_with_def)
qed

lemma sample_decide: "dc_allowed (decide 0 default_ruleset ''s'' ''a.b'' 80)"
  by code_simp

lemma sample_named: "\<not> is_numeric_host ''a.b''"
  by code_simp

lemma sample_resolve:
  "resolve_validated (px_config (sample_proxy locked)) (net_lookup sample_network ''a.b'' 80) ''a.b''
     = Inr (IpV4 (V4 93 184 216 34), 80)"
  by (simp add: sample_proxy_def sample_network_def resolve_validated_def)

lemma sample_admitted: "admitted (sample_proxy locked) (sample_client flight) sample_target"
  using sample_decide sample_named
  by (simp add: admitted_def sample_head sample_parse sample_proxy_def auth_ok_def sample_target_def decide_allowed)

lemma sample_trace:
  "handle_connection (sample_proxy locked) sample_network (sample_client flight) =
     Lookup ''a.b'' 80 # Dial (IpV4 (V4 93 184 216 34), 80) #
     handle_tunnel (sample_proxy locked) sample_network (sample_client flight) sample_target
       (dc_event (decide 0 default_ruleset ''s'' ''a.b'' 80))"
  using handle_admitted [OF sample_admitted [of locked flight], where net = sample_network] sample_resolve [of locked]
  by (simp add: handle_allowed_def sample_target_def sample_proxy_def sample_network_def)

lemma sample_forward:
  "Forward ''x'' \<in> set (handle_connection (sample_proxy False) sample_network (sample_client [ ''x'' ]))"
  unfolding sample_trace
  by (simp add: handle_tunnel_def sample_client_def sample_proxy_def sample_network_def byte_def)

section \<open>Properties\<close>

text \<open>C1.
  Bytes reach an upstream only through every gate: the head parsed to a CONNECT target with valid
  credentials, the target is not a numeric host under lockdown, the ruleset is one this proxy
  understands, the host is not gateway-only, the compiled egress policy allows the host at the
  CONNECT port, the dialed address came from the one lookup and is not in a refused range, and the
  flight is a prefix of what the client sent that claims no other host in its SNI.\<close>

theorem proxy_forward_checked:
  assumes "Forward b \<in> set (handle_connection p net cl)"
  shows "\<exists>head t a addrs. read_head (cl_head cl) = Some head \<and> parse_connect_target head = Some t \<and>
    auth_ok (px_config p) head \<and> \<not> (lockdown (px_config p) \<and> is_numeric_host (t_host t)) \<and>
    cr_version (px_guard p) \<le> RULESET_VERSION \<and> \<not> is_gateway_only_host (px_guard p) (t_host t) \<and>
    cr_egress_decision (px_guard p) (px_server p) (t_host t) (Some (t_port t)) = Inr () \<and>
    net_lookup net (t_host t) (t_port t) = Resolved addrs \<and> a \<in> set addrs \<and> net_dial net a \<and>
    (allow_local_targets (px_config p) \<or> \<not> is_forbidden_target (fst a)) \<and>
    flight_ok (lockdown (px_config p)) (t_host t) b \<and> (\<exists>k. b = concat (take k (cl_flight cl)))"
  using forward_checked [OF assms] unfolding admitted_def by blast

theorem proxy_forward_checked_witness:
  "\<exists>(t :: target) (a :: sock_addr). cr_egress_decision default_ruleset ''s'' (t_host t) (Some (t_port t)) = Inr () \<and>
     \<not> is_forbidden_target (fst a) \<and> flight_ok False (t_host t) ''x''"
  using proxy_forward_checked [OF sample_forward]
  unfolding sample_proxy_def server_proxy.simps proxy_config.simps by blast

text \<open>
  The network is touched only after the client was admitted: any lookup, dial, forward or splice is
  preceded by one lookup of the admitted target, that lookup is the only one, and every dialed
  address is in its answer and, outside test configurations, not in a refused range, so a second
  resolution cannot smuggle in another address.\<close>

theorem proxy_network_gated:
  assumes "handle_connection p net cl = pre @ e # post" "e \<notin> range Reply \<union> range Emit"
  shows "\<exists>t rest. admitted p cl t \<and> handle_connection p net cl = Lookup (t_host t) (t_port t) # rest \<and>
    (\<forall>h q. Lookup h q \<notin> set rest) \<and>
    (\<forall>a. Dial a \<in> set rest \<longrightarrow> (\<exists>addrs. net_lookup net (t_host t) (t_port t) = Resolved addrs \<and> a \<in> set addrs \<and>
       (allow_local_targets (px_config p) \<or> \<not> is_forbidden_target (fst a))))"
  by (rule network_checked [OF assms])

theorem proxy_network_gated_witness:
  "\<exists>t rest. admitted (sample_proxy True) (sample_client [ ''x'' ]) t \<and>
     handle_connection (sample_proxy True) sample_network (sample_client [ ''x'' ]) = Lookup (t_host t) (t_port t) # rest"
proof -
  let ?tr = "handle_connection (sample_proxy True) sample_network (sample_client [ ''x'' ])"
  have "Dial (IpV4 (V4 93 184 216 34), 80) \<notin> range Reply \<union> range Emit" by auto
  moreover obtain post where "?tr = [ Lookup ''a.b'' 80 ] @ Dial (IpV4 (V4 93 184 216 34), 80) # post"
    using sample_trace by simp
  ultimately show ?thesis
    using proxy_network_gated [of "sample_proxy True" sample_network "sample_client [ ''x'' ]"] by meson
qed

text \<open>C13.
  A connection whose CONNECT target parses records at most one event, and exactly one when the 200 reply can be
  written; the event is for the server and host of the connection, it carries a rule exactly when it is a block,
  and it is an allow exactly when bytes were forwarded or the dial itself failed.\<close>

theorem proxy_one_event:
  assumes "read_head (cl_head cl) = Some head" "parse_connect_target head = Some t"
  shows "length (events (handle_connection p net cl)) \<le> 1 \<and>
    (cl_established_ok cl \<longrightarrow> length (events (handle_connection p net cl)) = 1) \<and>
    (\<forall>ev \<in> set (events (handle_connection p net cl)). ev_server ev = px_server p \<and> ev_host ev = t_host t \<and>
      (ev_rule ev = None \<longleftrightarrow> ev_allowed ev) \<and>
      (ev_allowed ev \<longleftrightarrow> (\<exists>b. Forward b \<in> set (handle_connection p net cl)) \<or>
         last (handle_connection p net cl) = Reply bad_gateway))"
proof (cases "events (handle_connection p net cl) = []")
  case True
  with one_event [OF assms, of p net] show ?thesis by auto
next
  case False
  with one_event [OF assms, of p net] show ?thesis by auto
qed

theorem proxy_one_event_witness:
  "length (events (handle_connection (sample_proxy True) sample_network (sample_client [ ''x'' ]))) = 1 \<and>
   length (events (handle_connection (sample_proxy True) sample_network ((sample_client [ ''x'' ])\<lparr>cl_established_ok := False\<rparr>))) \<le> 1"
proof -
  have h: "read_head (cl_head ((sample_client [ ''x'' ])\<lparr>cl_established_ok := False\<rparr>)) = Some sample_request"
    using sample_head [of "[ ''x'' ]"] by simp
  have "cl_established_ok (sample_client [ ''x'' ])" by (simp add: sample_client_def)
  then show ?thesis
    using proxy_one_event [OF sample_head sample_parse, of "sample_proxy True" sample_network "[ ''x'' ]"]
      proxy_one_event [OF h sample_parse, of "sample_proxy True" sample_network] by blast
qed

text \<open>
  The exception to that count: when the 200 reply cannot be written, an admitted connection that was
  dialed leaves no event at all.\<close>

theorem proxy_unrecorded_dial:
  assumes "admitted p cl t" "\<not> cl_established_ok cl"
    and "resolve_validated (px_config p) (net_lookup net (t_host t) (t_port t)) (t_host t) = Inr a" "net_dial net a"
  shows "Dial a \<in> set (handle_connection p net cl) \<and> events (handle_connection p net cl) = []"
  using assms by (simp add: handle_admitted handle_allowed_def handle_tunnel_def)

theorem proxy_unrecorded_dial_witness:
  "events (handle_connection (sample_proxy False) sample_network ((sample_client [ ''x'' ])\<lparr>cl_established_ok := False\<rparr>)) = []"
proof -
  have "admitted (sample_proxy False) ((sample_client [ ''x'' ])\<lparr>cl_established_ok := False\<rparr>) sample_target"
    using sample_admitted [of False "[ ''x'' ]"] by (simp add: admitted_def)
  moreover have "resolve_validated (px_config (sample_proxy False)) (net_lookup sample_network (t_host sample_target)
      (t_port sample_target)) (t_host sample_target) = Inr (IpV4 (V4 93 184 216 34), 80)"
    using sample_resolve [of False] by (simp add: sample_target_def)
  ultimately show ?thesis
    using proxy_unrecorded_dial [of "sample_proxy False" _ sample_target sample_network] by (simp add: sample_network_def)
qed

text \<open>C12.
  Domain fronting: a client that asks for a host and then sends the ClientHello of another one is not forwarded,
  whatever extensions stand around the server name, however the hello is cut into reads and whatever follows it.
  Once the upstream is dialed and the 200 reply written, the one event recorded is the block with the mismatch, or
  with the failure to verify when the name is not UTF-8.\<close>

theorem proxy_fronting_refused:
  assumes "read_head (cl_head cl) = Some head" "parse_connect_target head = Some t"
    and "wf_hello h" "asks_for h name" "utf8_valid name \<longrightarrow> normalize_host name \<noteq> t_host t"
    and "[] \<notin> set (cl_flight cl)" "concat (cl_flight cl) = client_hello_record h @ extra"
  shows "Forward b \<notin> set (handle_connection p net cl) \<and> Splice \<notin> set (handle_connection p net cl) \<and>
    (Dial a \<in> set (handle_connection p net cl) \<longrightarrow> net_dial net a \<longrightarrow> cl_established_ok cl \<longrightarrow>
       events (handle_connection p net cl) =
         [guard_block_event (net_now net FlightCheck) (px_server p) (t_host t) (fronting_rule name (t_host t))])"
proof (cases "\<exists>t. admitted p cl t")
  case False
  from not_admitted(1) [OF this, of net] show ?thesis by auto
next
  case True
  with assms(1,2) have ad: "admitted p cl t" by (auto simp: admitted_def)
  have "check_flight (lockdown (px_config p)) (t_host t) (read_client_hello [] (cl_flight cl)) = Inl (fronting_rule name (t_host t))"
    by (rule fronted_flight [OF assms(3-7)])
  with ad show ?thesis
    by (auto simp: handle_admitted handle_allowed_def handle_tunnel_def split: sum.splits if_splits)
qed

text \<open>A hello with another extension in front and an entry of another type before the name.\<close>

definition sample_hello :: "string \<Rightarrow> client_hello" where
  "sample_hello name =
     \<lparr>ch_record_version = [CHR 0x03, CHR 0x01], ch_version = [CHR 0x03, CHR 0x03], ch_random = replicate 32 (CHR 0x07),
      ch_session = [], ch_suites = [CHR 0x13, CHR 0x01], ch_compression = [CHR 0x00],
      ch_extensions = [(10, ''ab''), (0, server_name_data [(1, ''a.b''), (0, name)]), (16, [])]\<rparr>"

lemma sample_hello_ok: "length name \<le> 100 \<Longrightarrow> wf_hello (sample_hello name)"
  by (simp add: wf_hello_def sample_hello_def client_hello_record_def client_hello_body_def server_name_data_def Let_def)

lemma sample_hello_asks: "asks_for (sample_hello name) name"
  unfolding asks_for_def
  by (intro exI [of _ "[(10, ''ab'')]"] exI [of _ "[(16, [])]"] exI [of _ "[(1, ''a.b'')]"] exI [of _ "[]"])
    (simp add: sample_hello_def)

theorem proxy_fronting_refused_witness:
  "Forward ''x'' \<notin> set (handle_connection (sample_proxy False) sample_network
     (sample_client [client_hello_record (sample_hello ''evil''), ''x''])) \<and>
   events (handle_connection (sample_proxy False) sample_network (sample_client [client_hello_record (sample_hello ''evil''), ''x''])) =
     [guard_block_event 0 ''s'' ''a.b'' (mismatch_rule ''evil'' ''a.b'')]"
proof -
  let ?cl = "sample_client [client_hello_record (sample_hello ''evil''), ''x'']"
  have n: "normalize_host ''evil'' = ''evil''" "utf8_valid ''evil''" by code_simp+
  have "client_hello_record (sample_hello ''evil'') \<noteq> []" by (simp add: client_hello_record_def Let_def)
  then have f: "[] \<notin> set (cl_flight ?cl)" "concat (cl_flight ?cl) = client_hello_record (sample_hello ''evil'') @ ''x''"
    by (simp_all add: sample_client_def)
  have m: "utf8_valid ''evil'' \<longrightarrow> normalize_host ''evil'' \<noteq> t_host sample_target" by (simp add: n sample_target_def)
  have w: "wf_hello (sample_hello ''evil'')" by (rule sample_hello_ok) simp
  have d: "Dial (IpV4 (V4 93 184 216 34), 80) \<in> set (handle_connection (sample_proxy False) sample_network ?cl)"
    unfolding sample_trace by simp
  show ?thesis
    using proxy_fronting_refused [OF sample_head sample_parse w sample_hello_asks m f] d
    by (simp add: sample_network_def sample_client_def sample_proxy_def sample_target_def fronting_rule_def n)
qed

text \<open>
  The request head is the shortest prefix of the stream that ends in a blank line, and it is accepted
  exactly when it has at most 8192 bytes: nothing after it is consumed and nothing longer is buffered.\<close>

theorem read_head_exact:
  "read_head stream = Some h \<longleftrightarrow>
     (\<exists>rest. stream = h @ rest \<and> ends_with h head_end \<and> length h \<le> 8192 \<and>
        \<not> (\<exists>k < length h. ends_with (take k h) head_end))"
proof
  assume "read_head stream = Some h"
  then obtain n where n: "head_at stream n" "n \<le> MAX_HEAD" "h = take n stream"
    by (auto simp: read_head_Some)
  then have "\<forall>k < length h. take k h = take k stream" by (simp add: min_def)
  with n show "\<exists>rest. stream = h @ rest \<and> ends_with h head_end \<and> length h \<le> 8192 \<and>
      \<not> (\<exists>k < length h. ends_with (take k h) head_end)"
    by (intro exI [of _ "drop n stream"]) (auto simp: head_at_def MAX_HEAD_def)
next
  assume "\<exists>rest. stream = h @ rest \<and> ends_with h head_end \<and> length h \<le> 8192 \<and>
      \<not> (\<exists>k < length h. ends_with (take k h) head_end)"
  then show "read_head stream = Some h"
    unfolding read_head_Some by (intro exI [of _ "length h"]) (auto simp: head_at_def MAX_HEAD_def)
qed

text \<open>
  Reading the first flight is bounded and lossless: what it classifies as a flight is a prefix of the
  reads in order, at most 16389 bytes and one read long, and a TLS flight holds its first record whole.\<close>

theorem first_flight_bounded:
  assumes "\<forall>c \<in> set chunks. length c \<le> 4096"
    and "read_client_hello [] chunks = NonTls b \<or> read_client_hello [] chunks = Tls b"
  shows "(\<exists>k \<le> length chunks. b = concat (take k chunks)) \<and> length b < 16389 + 4096 \<and>
    (read_client_hello [] chunks = Tls b \<longrightarrow>
       byte (b ! 0) = 22 \<and> 5 \<le> length b \<and> 5 + record_len b \<le> length b)"
  using hello_reads [OF assms(2)] hello_bounded [OF assms(2) _ assms(1)] hello_Tls [of "[]" chunks b]
  by (cases b) (auto simp: MAX_HELLO_def record_complete_len)

theorem first_flight_bounded_witness:
  "length ''x'' < 16389 + (4096 :: nat) \<and> read_client_hello [] [ ''x'' ] = NonTls ''x''"
proof -
  have "read_client_hello [] [ ''x'' ] = NonTls ''x''" by (simp add: byte_def)
  with first_flight_bounded [of "[ ''x'' ]" "''x''"] show ?thesis by simp
qed

end
