(* ===== verification/Limiter.thy ===== *)
theory Limiter
  imports Prelude
begin

text \<open>
  The counter every bounded listener uses (the accept loops of crates/egress/src/proxy.rs, relay.rs
  and execution_relay.rs, and the call ceiling of execution_relay.rs): \<open>fetch_add\<close>, a comparison of
  the prior value with the cap, and \<open>fetch_sub\<close> on refusal or release. The counter is a machine
  word, every atomic operation is a step of its own, and the steps of different tasks interleave.
\<close>

section \<open>The counter\<close>

record 'w limiter =
  lm_count :: 'w
  lm_active :: nat
  lm_over :: nat

text \<open>
  \<open>lm_active\<close> counts the holders of a slot and \<open>lm_over\<close> the tasks that have added and not yet
  taken back what they added. At most \<open>workers\<close> tasks use the counter at a time, and slots are given back
  when \<open>rel\<close> holds: a connection releases its slot, a tool call does not.
\<close>

inductive lim_step :: "bool \<Rightarrow> 'a::len word \<Rightarrow> nat \<Rightarrow> 'a word limiter \<Rightarrow> 'a word limiter \<Rightarrow> bool" for rel cap workers where
  admit: "\<not> cap \<le> lm_count s \<Longrightarrow>
    lim_step rel cap workers s (s\<lparr>lm_count := lm_count s + 1, lm_active := lm_active s + 1\<rparr>)"
| overshoot: "cap \<le> lm_count s \<Longrightarrow> lm_over s < workers \<Longrightarrow>
    lim_step rel cap workers s (s\<lparr>lm_count := lm_count s + 1, lm_over := lm_over s + 1\<rparr>)"
| back_off: "0 < lm_over s \<Longrightarrow>
    lim_step rel cap workers s (s\<lparr>lm_count := lm_count s - 1, lm_over := lm_over s - 1\<rparr>)"
| release: "rel \<Longrightarrow> 0 < lm_active s \<Longrightarrow>
    lim_step rel cap workers s (s\<lparr>lm_count := lm_count s - 1, lm_active := lm_active s - 1\<rparr>)"

inductive_cases lim_stepE: "lim_step rel cap workers s s'"

definition lim_init :: "'a::len word limiter" where
  "lim_init = \<lparr>lm_count = 0, lm_active = 0, lm_over = 0\<rparr>"

definition lim_reachable :: "bool \<Rightarrow> 'a::len word \<Rightarrow> nat \<Rightarrow> 'a word limiter \<Rightarrow> bool" where
  "lim_reachable rel cap workers s \<longleftrightarrow> (lim_step rel cap workers)\<^sup>*\<^sup>* lim_init s"

definition lim_inv :: "'a::len word \<Rightarrow> nat \<Rightarrow> 'a word limiter \<Rightarrow> bool" where
  "lim_inv cap workers s \<longleftrightarrow>
     unat (lm_count s) = lm_active s + lm_over s \<and> lm_active s \<le> unat cap \<and> lm_over s \<le> workers"

lemma unat_plus_one: "unat x + 1 < 2 ^ LENGTH('a) \<Longrightarrow> unat (x + 1) = unat x + 1" for x :: "'a::len word"
proof -
  assume l: "unat x + 1 < 2 ^ LENGTH('a)"
  have "x + 1 = word_of_nat (unat x + 1)" by simp
  then have "unat (x + 1) = (unat x + 1) mod 2 ^ LENGTH('a)" by (simp only: unat_of_nat)
  with l show ?thesis by simp
qed

lemma unat_minus_one: "0 < unat x \<Longrightarrow> unat (x - 1) = unat x - 1" for x :: "'a::len word"
  by (metis One_nat_def Suc_leI neq0_conv unat_0 unat_1 unat_sub word_le_nat_alt)

section \<open>The cap holds when the width has room for the overshoot\<close>

locale slots =
  fixes cap :: "'a::len word" and workers :: nat
  assumes room: "unat cap + workers < 2 ^ LENGTH('a)"
begin

lemma inv_step: "lim_step rel cap workers s s' \<Longrightarrow> lim_inv cap workers s \<Longrightarrow> lim_inv cap workers s'"
proof (induction rule: lim_step.induct)
  case (admit s)
  then show ?case
    using room unat_plus_one [of "lm_count s"] by (auto simp: lim_inv_def word_le_nat_alt)
next
  case (overshoot s)
  then show ?case
    using room unat_plus_one [of "lm_count s"] by (auto simp: lim_inv_def)
next
  case (back_off s)
  then show ?case using unat_minus_one [of "lm_count s"] by (auto simp: lim_inv_def)
next
  case (release s)
  then show ?case using unat_minus_one [of "lm_count s"] by (auto simp: lim_inv_def)
qed

lemma inv_reachable: "lim_reachable rel cap workers s \<Longrightarrow> lim_inv cap workers s"
proof -
  have "(lim_step rel cap workers)\<^sup>*\<^sup>* s0 s \<Longrightarrow> lim_inv cap workers s0 \<Longrightarrow> lim_inv cap workers s" for s0
    by (induction rule: rtranclp_induct) (auto intro: inv_step)
  moreover have "lim_inv cap workers lim_init" by (simp add: lim_inv_def lim_init_def)
  ultimately show "lim_reachable rel cap workers s \<Longrightarrow> lim_inv cap workers s"
    by (simp add: lim_reachable_def)
qed

lemma at_most_cap: "lim_reachable rel cap workers s \<Longrightarrow> lm_active s \<le> unat cap"
  using inv_reachable by (simp add: lim_inv_def)

text \<open>Without a task in between, the comparison refuses exactly when every slot is taken.\<close>

lemma free_slot:
  assumes "lim_reachable rel cap workers s" "lm_over s = 0"
  shows "cap \<le> lm_count s \<longleftrightarrow> lm_active s = unat cap"
  using inv_reachable [OF assms(1)] assms(2) by (auto simp: lim_inv_def word_le_nat_alt)

text \<open>A single accept loop takes its addition back before it looks at the next connection, so each of
  its refusals meets a full counter.\<close>

lemma refused_full:
  assumes "workers = 1" "lim_reachable rel cap workers s" "lim_step rel cap workers s s'" "lm_over s < lm_over s'"
  shows "lm_active s = unat cap"
  using assms(3)
proof (rule lim_stepE)
  assume "cap \<le> lm_count s" "lm_over s < workers"
  with free_slot [OF assms(2)] assms(1) show ?thesis by simp
qed (use assms(4) in simp_all)

text \<open>When slots are never given back, only a full counter is overshot.\<close>

lemma full_step:
  "lim_step False cap workers s s' \<Longrightarrow> lim_inv cap workers s \<Longrightarrow>
   (0 < lm_over s \<longrightarrow> lm_active s = unat cap) \<Longrightarrow> 0 < lm_over s' \<longrightarrow> lm_active s' = unat cap"
  by (induction rule: lim_step.induct) (auto simp: lim_inv_def word_le_nat_alt)

end

section \<open>The listeners\<close>

text \<open>Each accept loop is one task, so at most one addition is outstanding.\<close>

definition PROXY_MAX_CONNECTIONS :: u64 where
  "PROXY_MAX_CONNECTIONS = 64"

definition RELAY_MAX_CONNECTIONS :: u64 where
  "RELAY_MAX_CONNECTIONS = 64"

definition EXECUTION_MAX_CONNECTIONS :: u64 where
  "EXECUTION_MAX_CONNECTIONS = 8"

interpretation proxy_slots: slots PROXY_MAX_CONNECTIONS 1
  by unfold_locales (simp add: PROXY_MAX_CONNECTIONS_def)

interpretation relay_slots: slots RELAY_MAX_CONNECTIONS 1
  by unfold_locales (simp add: RELAY_MAX_CONNECTIONS_def)

interpretation execution_slots: slots EXECUTION_MAX_CONNECTIONS 1
  by unfold_locales (simp add: EXECUTION_MAX_CONNECTIONS_def)

section \<open>Properties\<close>

text \<open>C26.
  However the accept loop of a listener and the connections it serves interleave, at most 64 proxy
  connections, 64 relay connections and 8 execution connections are served at a time. A listener
  refuses a connection (the step that raises \<open>lm_over\<close>) only when every one of its slots is taken, and
  whenever its loop is back at \<open>accept\<close> (\<open>lm_over = 0\<close>) the comparison with the cap turns the next
  connection away exactly when every slot is taken.\<close>

theorem connection_caps:
  assumes "lim_reachable True PROXY_MAX_CONNECTIONS 1 p" "lim_reachable True RELAY_MAX_CONNECTIONS 1 r"
    and "lim_reachable True EXECUTION_MAX_CONNECTIONS 1 x"
  shows "lm_active p \<le> 64 \<and> lm_active r \<le> 64 \<and> lm_active x \<le> 8 \<and>
    (\<forall>p'. lim_step True PROXY_MAX_CONNECTIONS 1 p p' \<and> lm_over p < lm_over p' \<longrightarrow> lm_active p = 64) \<and>
    (\<forall>r'. lim_step True RELAY_MAX_CONNECTIONS 1 r r' \<and> lm_over r < lm_over r' \<longrightarrow> lm_active r = 64) \<and>
    (\<forall>x'. lim_step True EXECUTION_MAX_CONNECTIONS 1 x x' \<and> lm_over x < lm_over x' \<longrightarrow> lm_active x = 8) \<and>
    (lm_over p = 0 \<longrightarrow> (PROXY_MAX_CONNECTIONS \<le> lm_count p \<longleftrightarrow> lm_active p = 64)) \<and>
    (lm_over r = 0 \<longrightarrow> (RELAY_MAX_CONNECTIONS \<le> lm_count r \<longleftrightarrow> lm_active r = 64)) \<and>
    (lm_over x = 0 \<longrightarrow> (EXECUTION_MAX_CONNECTIONS \<le> lm_count x \<longleftrightarrow> lm_active x = 8))"
proof -
  have caps: "unat PROXY_MAX_CONNECTIONS = 64" "unat RELAY_MAX_CONNECTIONS = 64" "unat EXECUTION_MAX_CONNECTIONS = 8"
    by (simp_all add: PROXY_MAX_CONNECTIONS_def RELAY_MAX_CONNECTIONS_def EXECUTION_MAX_CONNECTIONS_def)
  show ?thesis
    using proxy_slots.at_most_cap [OF assms(1)] relay_slots.at_most_cap [OF assms(2)]
      execution_slots.at_most_cap [OF assms(3)] proxy_slots.refused_full [OF refl assms(1)]
      relay_slots.refused_full [OF refl assms(2)] execution_slots.refused_full [OF refl assms(3)]
      proxy_slots.free_slot [OF assms(1)] relay_slots.free_slot [OF assms(2)] execution_slots.free_slot [OF assms(3)]
    unfolding caps by blast
qed

text \<open>One proxy connection is served, and the next one meets a free slot.\<close>

theorem connection_caps_witness:
  "lm_active (lim_init\<lparr>lm_count := 1, lm_active := 1\<rparr> :: u64 limiter) \<le> 64 \<and>
   \<not> PROXY_MAX_CONNECTIONS \<le> lm_count (lim_init\<lparr>lm_count := 1, lm_active := 1\<rparr> :: u64 limiter)"
proof -
  let ?p = "lim_init\<lparr>lm_count := 1, lm_active := 1\<rparr> :: u64 limiter"
  have "lim_step True PROXY_MAX_CONNECTIONS 1 (lim_init :: u64 limiter) (lim_init\<lparr>lm_count := lm_count (lim_init :: u64 limiter) + 1, lm_active := lm_active (lim_init :: u64 limiter) + 1\<rparr>)"
    by (rule lim_step.admit) (simp add: lim_init_def PROXY_MAX_CONNECTIONS_def)
  then have p: "lim_reachable True PROXY_MAX_CONNECTIONS 1 ?p"
    by (simp add: lim_reachable_def lim_init_def)
  have z: "lim_reachable True RELAY_MAX_CONNECTIONS 1 lim_init" "lim_reachable True EXECUTION_MAX_CONNECTIONS 1 lim_init"
    by (simp_all add: lim_reachable_def)
  have "lm_over ?p = 0" "lm_active ?p = 1" by (simp_all add: lim_init_def)
  then show ?thesis using connection_caps [OF p z] by simp
qed

end
