(* ===== verification/Execution_Relay.thy ===== *)
theory Execution_Relay
  imports Limiter Netguard
begin

unbundle bit_operations_syntax

text \<open>
  The authenticated relay of crates/egress/src/execution_relay.rs: the address it binds, the
  authority it starts with, the judgement of one frame, and the interleaving of its connections
  over the shared call counter as a step relation. The JSON parser and the values it produces are
  parameters.
\<close>

section \<open>Where the relay binds\<close>

datatype io_kind = InvalidInput | AddrNotAvailable | OtherKind string

record io_error =
  io_kind :: io_kind
  io_message :: string

definition RELAY_BIND_ENV :: string where
  "RELAY_BIND_ENV = ''AGENTSTACK_RELAY_BIND''"

definition relay_bind_refusal :: "string \<Rightarrow> string \<Rightarrow> io_error" where
  "relay_bind_refusal listener reason =
     \<lparr>io_kind = AddrNotAvailable,
      io_message = listener @ '': refusing to start '' @ em_dash
        @ '' no container-reachable host address could be determined ('' @ reason
        @ ''), and falling back to the 0.0.0.0 wildcard would make this ''
        @ ''token-authenticated listener reachable from every host on your local network. Set ''
        @ RELAY_BIND_ENV @ '' to bind explicitly: '' @ RELAY_BIND_ENV
        @ ''=<ip> for a private host interface the container can reach (e.g. the Docker bridge gateway ''
        @ ''172.17.0.1), or '' @ RELAY_BIND_ENV
        @ ''=0.0.0.0 to accept the LAN-reachable wildcard deliberately.''\<rparr>"

definition LOCALHOST :: ip_addr where
  "LOCALHOST = IpV4 (V4 127 0 0 1)"

definition relay_bind_address ::
  "string \<Rightarrow> ip_addr option \<Rightarrow> ip_addr option \<Rightarrow> string \<Rightarrow> (ip_addr, io_error) result" where
  "relay_bind_address os docker_bridge_gateway explicit listener =
     (case explicit of
        Some addr \<Rightarrow> Inr addr
      | None \<Rightarrow>
          if os = ''macos'' \<or> os = ''windows'' then Inr LOCALHOST
          else if os = ''linux'' then
            (case docker_bridge_gateway of
               Some gateway \<Rightarrow> Inr gateway
             | None \<Rightarrow> Inl (relay_bind_refusal listener
                 (''this Linux host reported no docker0 bridge gateway (no daemon, no bridge ''
                  @ ''network, or no IPv4 gateway on it)'')))
          else Inl (relay_bind_refusal listener
            (''no container-reachable address is known for platform '' @ debug_string os)))"

section \<open>The authority it starts with\<close>

record exec_shared =
  es_token :: string
  es_grant :: "string set"
  es_max_calls :: u32

definition invalid_authority :: io_error where
  "invalid_authority = \<lparr>io_kind = InvalidInput, io_message = ''invalid execution relay authority''\<rparr>"

text \<open>\<open>bound\<close> is what binding the listener returns; the authority is checked first.\<close>

definition start_relay :: "string \<Rightarrow> string set \<Rightarrow> u32 \<Rightarrow> (unit, io_error) result \<Rightarrow> (exec_shared, io_error) result" where
  "start_relay token grant max_calls bound =
     (if max_calls \<noteq> 0 \<and> 32 \<le> length token \<and> grant \<noteq> {}
      then and_then bound (\<lambda>_. Inr \<lparr>es_token = token, es_grant = grant, es_max_calls = max_calls\<rparr>)
      else Inl invalid_authority)"

definition start_on_or_refuse ::
  "ip_addr \<Rightarrow> string \<Rightarrow> string \<Rightarrow> string set \<Rightarrow> u32 \<Rightarrow> (unit, io_error) result \<Rightarrow> (exec_shared, io_error) result" where
  "start_on_or_refuse preferred listener token grant max_calls bound =
     map_err (\<lambda>e. if io_kind e = AddrNotAvailable
                  then relay_bind_refusal listener
                    (show_ip preferred @ '' is not assignable on this host ('' @ io_message e @ '')'')
                  else e)
       (start_relay token grant max_calls bound)"

section \<open>Comparing tokens\<close>

definition byte_word :: "char \<Rightarrow> u8" where
  "byte_word c = of_nat (byte c)"

definition constant_time_eq :: "string \<Rightarrow> string \<Rightarrow> bool" where
  "constant_time_eq a b =
     (if length a \<noteq> length b then False
      else fold (\<lambda>(left, right) diff. diff OR (byte_word left XOR byte_word right)) (zip a b) 0 = 0)"

lemma byte_word_inj: "byte_word a = byte_word b \<longleftrightarrow> a = b"
proof
  assume "byte_word a = byte_word b"
  then have "unat (byte_word a) = unat (byte_word b)" by simp
  then have "byte a = byte b"
    using byte_less [of a] byte_less [of b] by (simp add: byte_word_def unat_of_nat)
  then show "a = b" by simp
qed simp

lemma or_eq_0: "x OR y = 0 \<longleftrightarrow> x = 0 \<and> y = 0" for x y :: u8
  by (auto simp: bit_eq_iff bit_or_iff)

lemma constant_time_eq_iff: "constant_time_eq a b \<longleftrightarrow> a = b"
proof -
  have xor: "x XOR y = 0 \<longleftrightarrow> x = y" for x y :: u8
    by (auto simp: bit_eq_iff bit_xor_iff)
  have "fold (\<lambda>(l, r) d. d OR (byte_word l XOR byte_word r)) ps d0 = 0 \<longleftrightarrow>
      d0 = 0 \<and> (\<forall>(l, r) \<in> set ps. l = r)" for ps d0
    by (induction ps arbitrary: d0) (auto simp: or_eq_0 xor byte_word_inj)
  then show ?thesis
    by (auto simp: constant_time_eq_def list_eq_iff_zip_eq)
qed

section \<open>One frame\<close>

definition MAX_FRAME_BYTES :: nat where
  "MAX_FRAME_BYTES = 1024 * 1024"

record 'v relay_request =
  rq_id :: 'v
  rq_token :: string
  rq_tool :: string
  rq_arguments :: 'v

datatype 'v relay_response = Refused "'v option" string | Answer 'v 'v

datatype call_error = CallPolicyDenied | CallUnavailable | CallFailed

text \<open>What awaiting the callback gives: its result, or a join error when it panicked.\<close>

datatype 'v dispatched = Joined "('v, call_error) result" | JoinError

text \<open>\<open>read_until\<close> through a reader capped at \<open>n\<close> bytes: the frame with its newline, and the rest.\<close>

fun read_until_newline :: "nat \<Rightarrow> string \<Rightarrow> string \<times> string" where
  "read_until_newline 0 s = ([], s)"
| "read_until_newline (Suc n) [] = ([], [])"
| "read_until_newline (Suc n) (c # s) =
     (if c = CHR 0x0A then ([c], s)
      else let (frame, rest) = read_until_newline n s in (c # frame, rest))"

datatype 'v frame_verdict =
    EndOfStream
  | Close "'v relay_response"
  | Continue "'v relay_response" string
  | Dispatch "'v relay_request" string

definition judge_request :: "exec_shared \<Rightarrow> 'v relay_request \<Rightarrow> string \<Rightarrow> 'v frame_verdict" where
  "judge_request sh rq rest =
     (if \<not> constant_time_eq (rq_token rq) (es_token sh) then Close (Refused (Some (rq_id rq)) ''unauthorized'')
      else if rq_tool rq \<notin> es_grant sh then Continue (Refused (Some (rq_id rq)) ''tool-not-granted'') rest
      else Dispatch rq rest)"

definition judge_frame :: "(string \<Rightarrow> 'v relay_request option) \<Rightarrow> exec_shared \<Rightarrow> string \<Rightarrow> 'v frame_verdict" where
  "judge_frame parse sh stream =
     (let (frame, rest) = read_until_newline (MAX_FRAME_BYTES + 1) stream in
      if frame = [] then EndOfStream
      else if MAX_FRAME_BYTES < length frame then Close (Refused None ''frame-too-large'')
      else let frame = (if last frame = CHR 0x0A then butlast frame else frame) in
        case parse frame of
          None \<Rightarrow> Continue (Refused None ''invalid-request'') rest
        | Some rq \<Rightarrow> judge_request sh rq rest)"

fun call_response :: "'v \<Rightarrow> 'v dispatched \<Rightarrow> 'v relay_response" where
  "call_response i JoinError = Refused (Some i) ''tool-call-failed''"
| "call_response i (Joined (Inr v)) = Answer i v"
| "call_response i (Joined (Inl CallPolicyDenied)) = Refused (Some i) ''policy-denied''"
| "call_response i (Joined (Inl CallUnavailable)) = Refused (Some i) ''tool-unavailable''"
| "call_response i (Joined (Inl CallFailed)) = Refused (Some i) ''tool-call-failed''"

text \<open>\<open>to_vec\<close> is the serialization of a response, \<open>None\<close> its failure.\<close>

definition response_bytes :: "('v relay_response \<Rightarrow> string option) \<Rightarrow> 'v relay_response \<Rightarrow> string option" where
  "response_bytes to_vec r =
     (case to_vec r of
        None \<Rightarrow> None
      | Some bytes \<Rightarrow>
          let bytes = (if MAX_FRAME_BYTES < length bytes
                       then ''{'' @ dq @ ''ok'' @ dq @ '':false,'' @ dq @ ''error'' @ dq @ '':''
                              @ dq @ ''response-too-large'' @ dq @ ''}''
                       else bytes)
          in Some (bytes @ [CHR 0x0A]))"

section \<open>The connections over the shared counter\<close>

datatype 'v conn = Idle | Reading string | Overshot 'v string | InCall 'v string

record 'v relay_state =
  xs_calls :: u32
  xs_conns :: "'v conn list"
  xs_log :: "(nat \<times> 'v relay_request) list"
  xs_sent :: "(nat \<times> 'v relay_response) list"

definition goto :: "nat \<Rightarrow> 'v conn \<Rightarrow> 'v relay_state \<Rightarrow> 'v relay_state" where
  "goto i c s = s\<lparr>xs_conns := (xs_conns s)[i := c]\<rparr>"

definition respond :: "nat \<Rightarrow> 'v relay_response \<Rightarrow> 'v relay_state \<Rightarrow> 'v relay_state" where
  "respond i r s = s\<lparr>xs_sent := xs_sent s @ [(i, r)]\<rparr>"

definition conn_at :: "'v relay_state \<Rightarrow> nat \<Rightarrow> 'v conn \<Rightarrow> bool" where
  "conn_at s i c \<longleftrightarrow> i < length (xs_conns s) \<and> xs_conns s ! i = c"

text \<open>
  The slots of \<open>xs_conns\<close> are the connections the accept loop admits. A read error, a failed write
  and the end of the stream all end a connection between two frames (\<open>hang_up\<close>).
\<close>

inductive relay_step ::
  "(string \<Rightarrow> 'v relay_request option) \<Rightarrow> exec_shared \<Rightarrow> 'v relay_state \<Rightarrow> 'v relay_state \<Rightarrow> bool"
  for parse sh where
  accept: "conn_at s i Idle \<Longrightarrow> relay_step parse sh s (goto i (Reading stream) s)"
| hang_up: "conn_at s i (Reading stream) \<Longrightarrow> relay_step parse sh s (goto i Idle s)"
| close: "conn_at s i (Reading stream) \<Longrightarrow> judge_frame parse sh stream = Close r \<Longrightarrow>
    relay_step parse sh s (goto i Idle (respond i r s))"
| continue: "conn_at s i (Reading stream) \<Longrightarrow> judge_frame parse sh stream = Continue r rest \<Longrightarrow>
    relay_step parse sh s (goto i (Reading rest) (respond i r s))"
| call: "conn_at s i (Reading stream) \<Longrightarrow> judge_frame parse sh stream = Dispatch rq rest \<Longrightarrow>
    \<not> es_max_calls sh \<le> xs_calls s \<Longrightarrow>
    relay_step parse sh s
      (goto i (InCall (rq_id rq) rest) (s\<lparr>xs_calls := xs_calls s + 1, xs_log := xs_log s @ [(i, rq)]\<rparr>))"
| over_limit: "conn_at s i (Reading stream) \<Longrightarrow> judge_frame parse sh stream = Dispatch rq rest \<Longrightarrow>
    es_max_calls sh \<le> xs_calls s \<Longrightarrow>
    relay_step parse sh s (goto i (Overshot (rq_id rq) rest) (s\<lparr>xs_calls := xs_calls s + 1\<rparr>))"
| give_back: "conn_at s i (Overshot k rest) \<Longrightarrow>
    relay_step parse sh s
      (goto i (Reading rest) (respond i (Refused (Some k) ''call-limit'') (s\<lparr>xs_calls := xs_calls s - 1\<rparr>)))"
| finish: "conn_at s i (InCall k rest) \<Longrightarrow>
    relay_step parse sh s (goto i (Reading rest) (respond i (call_response k outcome) s))"

inductive_cases relay_stepE: "relay_step parse sh s s'"

definition relay_init :: "nat \<Rightarrow> 'v relay_state" where
  "relay_init n = \<lparr>xs_calls = 0, xs_conns = replicate n Idle, xs_log = [], xs_sent = []\<rparr>"

definition relay_reachable :: "(string \<Rightarrow> 'v relay_request option) \<Rightarrow> exec_shared \<Rightarrow> nat \<Rightarrow> 'v relay_state \<Rightarrow> bool" where
  "relay_reachable parse sh n s \<longleftrightarrow> (relay_step parse sh)\<^sup>*\<^sup>* (relay_init n) s"

section \<open>The relay refines the bounded counter\<close>

fun overshot :: "'v conn \<Rightarrow> bool" where
  "overshot (Overshot k rest) = True"
| "overshot _ = False"

definition relay_abs :: "'v relay_state \<Rightarrow> 32 word limiter" where
  "relay_abs s =
     \<lparr>lm_count = xs_calls s, lm_active = length (xs_log s), lm_over = length (filter overshot (xs_conns s))\<rparr>"

lemma goto_simps [simp]:
  "xs_calls (goto i c s) = xs_calls s" "xs_log (goto i c s) = xs_log s" "xs_sent (goto i c s) = xs_sent s"
  "xs_conns (goto i c s) = (xs_conns s)[i := c]" "length (xs_conns (goto i c s)) = length (xs_conns s)"
  by (simp_all add: goto_def)

lemma respond_simps [simp]:
  "xs_calls (respond i r s) = xs_calls s" "xs_log (respond i r s) = xs_log s"
  "xs_sent (respond i r s) = xs_sent s @ [(i, r)]" "xs_conns (respond i r s) = xs_conns s"
  by (simp_all add: respond_def)

lemma filter_update:
  "i < length xs \<Longrightarrow> length (filter P (xs[i := x])) + (if P (xs ! i) then 1 else 0) =
     length (filter P xs) + (if P x then 1 else 0)"
proof -
  assume i: "i < length xs"
  have "filter P xs = filter P (take i xs @ xs ! i # drop (Suc i) xs)"
    using i by (simp only: id_take_nth_drop [symmetric])
  moreover have "filter P (xs[i := x]) = filter P (take i xs @ x # drop (Suc i) xs)"
    using i by (simp only: upd_conv_take_nth_drop)
  ultimately show ?thesis by simp
qed

lemma overshot_goto:
  "conn_at s i c \<Longrightarrow> length (filter overshot ((xs_conns s)[i := c'])) + (if overshot c then 1 else 0) =
     length (filter overshot (xs_conns s)) + (if overshot c' then 1 else 0)"
  using filter_update [of i "xs_conns s" overshot c'] by (auto simp: conn_at_def)

lemma overshot_free: "conn_at s i c \<Longrightarrow> \<not> overshot c \<Longrightarrow> length (filter overshot (xs_conns s)) < length (xs_conns s)"
  unfolding conn_at_def by (metis length_filter_less nth_mem)

lemma relay_refines:
  assumes "relay_step parse sh s s'" "length (xs_conns s) \<le> workers"
  shows "lim_step False (es_max_calls sh) workers (relay_abs s) (relay_abs s') \<or> relay_abs s = relay_abs s'"
  using assms
proof (induction rule: relay_step.induct)
  case (call s i stream rq rest)
  have "relay_abs (goto i (InCall (rq_id rq) rest) (s\<lparr>xs_calls := xs_calls s + 1, xs_log := xs_log s @ [(i, rq)]\<rparr>))
      = (relay_abs s)\<lparr>lm_count := lm_count (relay_abs s) + 1, lm_active := lm_active (relay_abs s) + 1\<rparr>"
    using overshot_goto [OF call(1), of "InCall (rq_id rq) rest"] by (simp add: relay_abs_def)
  with call(3) lim_step.admit [of "es_max_calls sh" "relay_abs s" False workers] show ?case by (simp add: relay_abs_def)
next
  case (over_limit s i stream rq rest)
  have "relay_abs (goto i (Overshot (rq_id rq) rest) (s\<lparr>xs_calls := xs_calls s + 1\<rparr>))
      = (relay_abs s)\<lparr>lm_count := lm_count (relay_abs s) + 1, lm_over := lm_over (relay_abs s) + 1\<rparr>"
    using overshot_goto [OF over_limit(1), of "Overshot (rq_id rq) rest"] by (simp add: relay_abs_def)
  moreover have "lm_over (relay_abs s) < workers"
    using overshot_free [OF over_limit(1)] over_limit(4) by (simp add: relay_abs_def)
  ultimately show ?case
    using over_limit(3) lim_step.overshoot [of "es_max_calls sh" "relay_abs s" workers False] by (simp add: relay_abs_def)
next
  case (give_back s i k rest)
  have c: "length (filter overshot ((xs_conns s)[i := Reading rest])) + 1 = length (filter overshot (xs_conns s))"
    using overshot_goto [OF give_back(1), of "Reading rest"] by simp
  then have "relay_abs (goto i (Reading rest) (respond i (Refused (Some k) ''call-limit'') (s\<lparr>xs_calls := xs_calls s - 1\<rparr>)))
      = (relay_abs s)\<lparr>lm_count := lm_count (relay_abs s) - 1, lm_over := lm_over (relay_abs s) - 1\<rparr>"
    by (simp add: relay_abs_def)
  moreover have "0 < lm_over (relay_abs s)" using c by (simp add: relay_abs_def del: length_greater_0_conv)
  ultimately show ?case using lim_step.back_off [of "relay_abs s" False "es_max_calls sh" workers] by simp
qed (use overshot_goto in \<open>fastforce simp: relay_abs_def\<close>)+

text \<open>Everything a step adds to the log passed the judgement of its frame.\<close>

definition relay_inv :: "exec_shared \<Rightarrow> nat \<Rightarrow> 'v relay_state \<Rightarrow> bool" where
  "relay_inv sh n s \<longleftrightarrow>
     length (xs_conns s) = n \<and> lim_inv (es_max_calls sh) n (relay_abs s) \<and>
     (\<forall>(i, rq) \<in> set (xs_log s). rq_token rq = es_token sh \<and> rq_tool rq \<in> es_grant sh) \<and>
     (0 < lm_over (relay_abs s) \<longrightarrow> length (xs_log s) = unat (es_max_calls sh))"

lemma judge_Dispatch:
  "judge_frame parse sh stream = Dispatch rq rest \<Longrightarrow> rq_token rq = es_token sh \<and> rq_tool rq \<in> es_grant sh"
  by (auto simp: judge_frame_def judge_request_def Let_def constant_time_eq_iff split: prod.splits option.splits if_splits)

lemma relay_inv_step:
  assumes step: "relay_step parse sh s s'" and inv: "relay_inv sh n s" and room: "unat (es_max_calls sh) + n < 2 ^ 32"
  shows "relay_inv sh n s'"
proof -
  have sl: "slots (es_max_calls sh) n" using room by unfold_locales simp
  have len: "length (xs_conns s') = length (xs_conns s)"
    using step by (auto elim!: relay_stepE)
  have ref: "lim_step False (es_max_calls sh) n (relay_abs s) (relay_abs s') \<or> relay_abs s = relay_abs s'"
    using relay_refines [OF step, of n] inv by (simp add: relay_inv_def)
  have log: "\<forall>(i, rq) \<in> set (xs_log s'). rq_token rq = es_token sh \<and> rq_tool rq \<in> es_grant sh"
    using step inv by (auto simp: relay_inv_def elim!: relay_stepE dest: judge_Dispatch)
  have act: "lm_active (relay_abs t) = length (xs_log t)" for t by (simp add: relay_abs_def)
  have old: "lim_inv (es_max_calls sh) n (relay_abs s)"
    "0 < lm_over (relay_abs s) \<longrightarrow> lm_active (relay_abs s) = unat (es_max_calls sh)"
    using inv unfolding relay_inv_def act by blast+
  have "lim_inv (es_max_calls sh) n (relay_abs s')"
    using ref slots.inv_step [OF sl _ old(1)] old(1) by auto
  moreover have "0 < lm_over (relay_abs s') \<longrightarrow> lm_active (relay_abs s') = unat (es_max_calls sh)"
    using ref slots.full_step [OF sl _ old] old(2) by (elim disjE) simp_all
  ultimately show ?thesis using inv len log by (simp add: relay_inv_def act)
qed

lemma relay_inv_init: "relay_inv sh n (relay_init n)"
  by (simp add: relay_inv_def relay_init_def relay_abs_def lim_inv_def)

lemma relay_inv_reachable:
  "relay_reachable parse sh n s \<Longrightarrow> unat (es_max_calls sh) + n < 2 ^ 32 \<Longrightarrow> relay_inv sh n s"
proof -
  have "(relay_step parse sh)\<^sup>*\<^sup>* s0 s \<Longrightarrow> relay_inv sh n s0 \<Longrightarrow> unat (es_max_calls sh) + n < 2 ^ 32 \<Longrightarrow>
      relay_inv sh n s" for s0
    by (induction rule: rtranclp_induct) (auto intro: relay_inv_step)
  then show "relay_reachable parse sh n s \<Longrightarrow> unat (es_max_calls sh) + n < 2 ^ 32 \<Longrightarrow> relay_inv sh n s"
    using relay_inv_init unfolding relay_reachable_def by blast
qed

lemma relay_ceiling:
  assumes "relay_reachable parse sh n s" "unat (es_max_calls sh) + n < 2 ^ 32"
  shows "length (xs_log s) \<le> unat (es_max_calls sh)"
    and "(i, rq) \<in> set (xs_log s) \<Longrightarrow> rq_token rq = es_token sh \<and> rq_tool rq \<in> es_grant sh"
    and "conn_at s i (Overshot k rest) \<Longrightarrow> length (xs_log s) = unat (es_max_calls sh)"
proof -
  note inv = relay_inv_reachable [OF assms]
  show "length (xs_log s) \<le> unat (es_max_calls sh)" using inv by (simp add: relay_inv_def lim_inv_def relay_abs_def)
  show "(i, rq) \<in> set (xs_log s) \<Longrightarrow> rq_token rq = es_token sh \<and> rq_tool rq \<in> es_grant sh"
    using inv by (auto simp: relay_inv_def)
  assume "conn_at s i (Overshot k rest)"
  then have "filter overshot (xs_conns s) \<noteq> []" by (auto simp: conn_at_def filter_empty_conv) (metis nth_mem overshot.simps(1))
  then show "length (xs_log s) = unat (es_max_calls sh)" using inv by (simp add: relay_inv_def relay_abs_def)
qed

section \<open>Properties\<close>

text \<open>
  The constant-time comparison of tokens decides equality.\<close>

theorem token_comparison_exact: "constant_time_eq a b \<longleftrightarrow> a = b"
  by (rule constant_time_eq_iff)

text \<open>C8.
  Whatever its connections send and however they interleave, the relay dispatches at most \<open>max_calls\<close> calls,
  each from a request with the token for a granted tool, and a call-limit refusal is only ever pending
  when all of them have been used: the increments of refused requests never steal a call.\<close>

theorem relay_authority:
  assumes "relay_reachable parse sh n s" "unat (es_max_calls sh) + n < 2 ^ 32"
  shows "length (xs_log s) \<le> unat (es_max_calls sh) \<and>
    (\<forall>(i, rq) \<in> set (xs_log s). rq_token rq = es_token sh \<and> rq_tool rq \<in> es_grant sh) \<and>
    (\<forall>i k rest. conn_at s i (Overshot k rest) \<longrightarrow> length (xs_log s) = unat (es_max_calls sh))"
  using relay_ceiling [OF assms] by blast

definition sample_exec_shared :: exec_shared where
  "sample_exec_shared = \<lparr>es_token = ''t'', es_grant = {''read''}, es_max_calls = 1\<rparr>"

definition sample_relay_parse :: "string \<Rightarrow> unit relay_request option" where
  "sample_relay_parse frame = (if frame = ''r'' then Some \<lparr>rq_id = (), rq_token = ''t'', rq_tool = ''read'', rq_arguments = ()\<rparr> else None)"

definition sample_relay_request :: "unit relay_request" where
  "sample_relay_request = \<lparr>rq_id = (), rq_token = ''t'', rq_tool = ''read'', rq_arguments = ()\<rparr>"

lemma sample_judge: "judge_frame sample_relay_parse sample_exec_shared ''r'' = Dispatch sample_relay_request []"
proof -
  have n: "read_until_newline (Suc (Suc k)) ''r'' = (''r'', [])" for k by simp
  have "MAX_FRAME_BYTES + 1 = Suc (Suc (MAX_FRAME_BYTES - 1))" "1 \<le> MAX_FRAME_BYTES" by (simp_all add: MAX_FRAME_BYTES_def)
  then show ?thesis
    unfolding judge_frame_def by (simp only: n)
      (simp add: sample_relay_parse_def sample_relay_request_def judge_request_def constant_time_eq_iff sample_exec_shared_def)
qed

theorem relay_authority_witness:
  "\<exists>s. relay_reachable sample_relay_parse sample_exec_shared 1 s \<and> length (xs_log s) = 1 \<and> length (xs_log s) \<le> unat (es_max_calls sample_exec_shared)"
proof -
  let ?rq = sample_relay_request
  let ?s1 = "goto 0 (Reading ''r'') (relay_init 1 :: unit relay_state)"
  let ?s2 = "goto 0 (InCall (rq_id ?rq) []) (?s1\<lparr>xs_calls := xs_calls ?s1 + 1, xs_log := xs_log ?s1 @ [(0, ?rq)]\<rparr>)"
  have "judge_frame sample_relay_parse sample_exec_shared ''r'' = Dispatch ?rq []" by (rule sample_judge)
  then have "relay_step sample_relay_parse sample_exec_shared ?s1 ?s2"
    by (intro relay_step.call) (simp_all add: conn_at_def relay_init_def sample_exec_shared_def)
  moreover have "relay_step sample_relay_parse sample_exec_shared (relay_init 1) ?s1"
    by (intro relay_step.accept) (simp add: conn_at_def relay_init_def)
  ultimately have r: "relay_reachable sample_relay_parse sample_exec_shared 1 ?s2"
    unfolding relay_reachable_def by (meson r_into_rtranclp rtranclp.rtrancl_into_rtrancl)
  have "unat (es_max_calls sample_exec_shared) + 1 < 2 ^ 32" by (simp add: sample_exec_shared_def)
  from relay_authority [OF r this] r show ?thesis by (intro exI [of _ ?s2]) (simp add: relay_init_def)
qed

text \<open>
  Without an explicit choice the relay binds the loopback address on a desktop platform and the reported bridge
  gateway on Linux, and refuses everywhere else: it never falls back to another address.\<close>

theorem relay_bind_no_wildcard:
  "relay_bind_address os gateway None listener = Inr a \<longleftrightarrow>
     (os \<in> {''macos'', ''windows''} \<and> a = LOCALHOST) \<or> (os = ''linux'' \<and> gateway = Some a)"
  by (auto simp: relay_bind_address_def split: option.splits)

section \<open>Refinement, budget and progress\<close>

text \<open>C10.
  The relay implements the bounded counter: whatever its connections do, the count of calls, the calls dispatched
  and the refusals pending are at every moment a state the abstract counter of the listeners reaches.\<close>

theorem relay_refines_counter:
  assumes "relay_reachable parse sh n s"
  shows "lim_reachable False (es_max_calls sh) n (relay_abs s)"
proof -
  have "lim_reachable False (es_max_calls sh) n (relay_abs s) \<and> length (xs_conns s) = n"
    if "(relay_step parse sh)\<^sup>*\<^sup>* (relay_init n) s" for s
    using that
  proof (induction rule: rtranclp_induct)
    case base
    have "relay_abs (relay_init n :: 'a relay_state) = lim_init" by (simp add: relay_abs_def relay_init_def lim_init_def)
    then show ?case by (simp add: lim_reachable_def) (simp add: relay_init_def)
  next
    case (step t u)
    have "length (xs_conns u) = length (xs_conns t)" using step(2) by (auto elim!: relay_stepE)
    with relay_refines [OF step(2), of n] step(3) show ?case
      by (auto simp: lim_reachable_def intro: rtranclp.rtrancl_into_rtrancl)
  qed
  with assms show ?thesis by (simp add: relay_reachable_def)
qed

theorem relay_refines_counter_witness:
  "lim_reachable False 1 2 (relay_abs (goto 0 (Reading ''r'') (relay_init 2 :: unit relay_state)))"
proof -
  have "relay_step sample_relay_parse sample_exec_shared (relay_init 2) (goto 0 (Reading ''r'') (relay_init 2))"
    by (intro relay_step.accept) (simp add: conn_at_def relay_init_def)
  then have "relay_reachable sample_relay_parse sample_exec_shared 2 (goto 0 (Reading ''r'') (relay_init 2))"
    by (simp add: relay_reachable_def)
  from relay_refines_counter [OF this] show ?thesis by (simp add: sample_exec_shared_def)
qed

text \<open>C9.
  A granted call is never starved: while fewer than \<open>max_calls\<close> calls have been dispatched, a connection
  whose next frame asks for one with the token is served, and is not refused for the limit.\<close>

theorem relay_serves_budget:
  assumes "relay_reachable parse sh n s" "unat (es_max_calls sh) + n < 2 ^ 32"
    and "conn_at s i (Reading stream)" "judge_frame parse sh stream = Dispatch rq rest"
    and "length (xs_log s) < unat (es_max_calls sh)"
  shows "(\<exists>s'. relay_step parse sh s s' \<and> xs_log s' = xs_log s @ [(i, rq)] \<and> conn_at s' i (InCall (rq_id rq) rest)) \<and>
    \<not> es_max_calls sh \<le> xs_calls s"
proof -
  note inv = relay_inv_reachable [OF assms(1,2)]
  then have "lm_over (relay_abs s) = 0" using assms(5) by (auto simp: relay_inv_def)
  with inv have "unat (xs_calls s) = length (xs_log s)" by (simp add: relay_inv_def lim_inv_def relay_abs_def)
  with assms(5) have n: "\<not> es_max_calls sh \<le> xs_calls s" by (simp add: word_le_nat_alt)
  from relay_step.call [OF assms(3,4) n] assms(3) n show ?thesis
    by (intro conjI exI) (assumption | simp add: conn_at_def)+
qed

theorem relay_serves_budget_witness:
  "\<exists>s'. relay_step sample_relay_parse sample_exec_shared (goto 0 (Reading ''r'') (relay_init 1)) s' \<and> length (xs_log s') = 1"
proof -
  let ?s = "goto 0 (Reading ''r'') (relay_init 1 :: unit relay_state)"
  have "relay_step sample_relay_parse sample_exec_shared (relay_init 1) ?s"
    by (intro relay_step.accept) (simp add: conn_at_def relay_init_def)
  then have r: "relay_reachable sample_relay_parse sample_exec_shared 1 ?s" by (simp add: relay_reachable_def)
  have c: "conn_at ?s 0 (Reading ''r'')" by (simp add: conn_at_def relay_init_def)
  have m: "unat (es_max_calls sample_exec_shared) + 1 < 2 ^ 32" by (simp add: sample_exec_shared_def)
  have l: "length (xs_log ?s) < unat (es_max_calls sample_exec_shared)" by (simp add: relay_init_def sample_exec_shared_def)
  from relay_serves_budget [OF r m c sample_judge l] show ?thesis by (auto simp: relay_init_def)
qed

text \<open>What is left to do: three steps at most per byte still to be read.\<close>

fun conn_work :: "'v conn \<Rightarrow> nat" where
  "conn_work Idle = 0"
| "conn_work (Reading stream) = 3 * length stream + 1"
| "conn_work (Overshot k rest) = 3 * length rest + 2"
| "conn_work (InCall k rest) = 3 * length rest + 2"

definition relay_work :: "'v relay_state \<Rightarrow> nat" where
  "relay_work s = sum_list (map conn_work (xs_conns s))"

inductive serving_step ::
  "(string \<Rightarrow> 'v relay_request option) \<Rightarrow> exec_shared \<Rightarrow> 'v relay_state \<Rightarrow> 'v relay_state \<Rightarrow> bool"
  for parse sh where
  "relay_step parse sh s s' \<Longrightarrow> \<nexists>i stream. conn_at s i Idle \<and> s' = goto i (Reading stream) s \<Longrightarrow>
    serving_step parse sh s s'"

lemma read_until_rest: "read_until_newline n xs = (frame, rest) \<Longrightarrow> frame @ rest = xs"
  by (induction n xs arbitrary: frame rest rule: read_until_newline.induct) (auto split: if_splits prod.splits)

lemma judge_consumes:
  "judge_frame parse sh stream = Continue r rest \<Longrightarrow> length rest < length stream"
  "judge_frame parse sh stream = Dispatch rq rest \<Longrightarrow> length rest < length stream"
proof -
  obtain frame more where f: "read_until_newline (MAX_FRAME_BYTES + 1) stream = (frame, more)" by fastforce
  from read_until_rest [OF f] have l: "frame \<noteq> [] \<Longrightarrow> length more < length stream" by auto
  show "judge_frame parse sh stream = Continue r rest \<Longrightarrow> length rest < length stream"
    "judge_frame parse sh stream = Dispatch rq rest \<Longrightarrow> length rest < length stream"
    using l unfolding judge_frame_def f by (auto simp: judge_request_def Let_def split: if_splits option.splits)
qed

lemma sum_list_update_less:
  "i < length xs \<Longrightarrow> f x < f (xs ! i) \<Longrightarrow> sum_list (map f (xs[i := x])) < sum_list (map f xs)" for f :: "'a \<Rightarrow> nat"
proof (induction xs arbitrary: i)
  case (Cons y ys)
  then show ?case by (cases i) simp_all
qed simp

lemma serving_work: "serving_step parse sh s s' \<Longrightarrow> relay_work s' < relay_work s"
proof (induction rule: serving_step.induct)
  case (1 s s')
  from 1(1) show ?case
  proof (cases rule: relay_step.cases)
    case (accept i stream)
    with 1(2) show ?thesis by blast
  qed (auto simp: relay_work_def conn_at_def intro!: sum_list_update_less dest: judge_consumes)
qed

text \<open>C11.
  Every frame is consumed: between two accepted connections a relay makes at most three steps per byte its
  connections have still to read and two more for each of them, so no finite stream keeps it busy for ever.\<close>

theorem relay_run_bounded:
  assumes "(serving_step parse sh ^^ k) s s'"
  shows "k \<le> relay_work s"
proof -
  have "relay_work s' + k \<le> relay_work s"
    using assms
  proof (induction k arbitrary: s')
    case (Suc k)
    then obtain t where "(serving_step parse sh ^^ k) s t" "serving_step parse sh t s'" by auto
    with Suc.IH serving_work show ?case by (fastforce dest: Suc.IH serving_work)
  qed simp
  then show ?thesis by simp
qed

theorem relay_run_bounded_witness:
  "1 \<le> relay_work (goto 0 (Reading ''r'') (relay_init 1 :: unit relay_state))"
proof -
  let ?s = "goto 0 (Reading ''r'') (relay_init 1 :: unit relay_state)"
  have c: "conn_at ?s 0 (Reading ''r'')" by (simp add: conn_at_def relay_init_def)
  have "goto 0 Idle ?s \<noteq> goto i (Reading stream) ?s" if "conn_at ?s i Idle" for i stream
    using that by (auto simp: conn_at_def relay_init_def)
  then have "serving_step sample_relay_parse sample_exec_shared ?s (goto 0 Idle ?s)"
    by (intro serving_step.intros relay_step.hang_up [OF c]) blast
  then have "(serving_step sample_relay_parse sample_exec_shared ^^ 1) ?s (goto 0 Idle ?s)" by (simp add: relcompp_apply)
  from relay_run_bounded [OF this] show ?thesis .
qed

end
