(* ===== verification/Executor.thy ===== *)
theory Executor
  imports Strings
begin

text \<open>
  The execution domain of crates/executor/src/lib.rs: requested, machine and effective limits at
  their widths (\<open>usize\<close> is 64 bits), exact tool grants, the immutable plan, and the validation of
  an execution's output. JSON values, their serialization, the tool authority and SHA-256 are
  parameters.
\<close>

section \<open>Errors\<close>

datatype error_category =
    Untrusted | InvalidInput | UnknownTool | ToolNotGranted | PolicyDenied | RuntimeUnavailable
  | Timeout | ResourceLimit | ExecutionError | InvalidResult

record execute_error =
  ee_category :: error_category
  ee_message :: string

fun public_message :: "error_category \<Rightarrow> string" where
  "public_message Untrusted = ''the project is not trusted for execution''"
| "public_message InvalidInput = ''the execution request is invalid''"
| "public_message UnknownTool = ''a requested tool is unavailable''"
| "public_message ToolNotGranted = ''the program requested an ungranted tool''"
| "public_message PolicyDenied = ''a tool call was denied by policy''"
| "public_message RuntimeUnavailable = ''the isolated execution runtime is unavailable''"
| "public_message Timeout = ''execution exceeded its time limit''"
| "public_message ResourceLimit = ''execution exceeded a resource limit''"
| "public_message ExecutionError = ''the program failed''"
| "public_message InvalidResult = ''the program returned an invalid result''"

definition invalid :: "string \<Rightarrow> execute_error" where
  "invalid message = \<lparr>ee_category = InvalidInput, ee_message = message\<rparr>"

definition unknown_tool :: "string \<Rightarrow> execute_error" where
  "unknown_tool name = \<lparr>ee_category = UnknownTool, ee_message = ''unknown tool: '' @ name\<rparr>"

definition invalid_result :: execute_error where
  "invalid_result = \<lparr>ee_category = InvalidResult, ee_message = ''result is invalid''\<rparr>"

definition resource_limit :: execute_error where
  "resource_limit = \<lparr>ee_category = ResourceLimit, ee_message = ''resource limit exceeded''\<rparr>"

section \<open>Limits\<close>

definition DEFAULT_TIMEOUT_MS :: u64 where "DEFAULT_TIMEOUT_MS = 15000"
definition MAX_TIMEOUT_MS :: u64 where "MAX_TIMEOUT_MS = 60000"
definition DEFAULT_MAX_CALLS :: u32 where "DEFAULT_MAX_CALLS = 20"
definition MAX_CALLS :: u32 where "MAX_CALLS = 100"
definition DEFAULT_MAX_OUTPUT_BYTES :: u64 where "DEFAULT_MAX_OUTPUT_BYTES = 64 * 1024"
definition MAX_OUTPUT_BYTES :: u64 where "MAX_OUTPUT_BYTES = 256 * 1024"
definition MAX_SOURCE_BYTES :: nat where "MAX_SOURCE_BYTES = 256 * 1024"
definition MAX_INPUT_BYTES :: nat where "MAX_INPUT_BYTES = 1024 * 1024"
definition MAX_RESULT_BYTES :: nat where "MAX_RESULT_BYTES = 1024 * 1024"
definition MAX_GRANTED_TOOLS :: nat where "MAX_GRANTED_TOOLS = 100"

lemmas limit_defs = DEFAULT_TIMEOUT_MS_def MAX_TIMEOUT_MS_def DEFAULT_MAX_CALLS_def MAX_CALLS_def
  DEFAULT_MAX_OUTPUT_BYTES_def MAX_OUTPUT_BYTES_def MAX_SOURCE_BYTES_def MAX_INPUT_BYTES_def
  MAX_RESULT_BYTES_def MAX_GRANTED_TOOLS_def

record requested_limits =
  rl_timeout_ms :: "u64 option"
  rl_max_calls :: "u32 option"
  rl_max_output_bytes :: "u64 option"

record machine_limits =
  ml_timeout_ms :: u64
  ml_max_calls :: u32
  ml_max_output_bytes :: u64

record effective_limits =
  el_timeout_ms :: u64
  el_max_calls :: u32
  el_max_output_bytes :: u64

definition default_machine_limits :: machine_limits where
  "default_machine_limits =
     \<lparr>ml_timeout_ms = DEFAULT_TIMEOUT_MS, ml_max_calls = DEFAULT_MAX_CALLS,
      ml_max_output_bytes = DEFAULT_MAX_OUTPUT_BYTES\<rparr>"

definition validate_machine :: "machine_limits \<Rightarrow> (machine_limits, execute_error) result" where
  "validate_machine m =
     (if ml_timeout_ms m = 0 \<or> MAX_TIMEOUT_MS < ml_timeout_ms m
      then Inl (invalid ''machine timeout is outside the hard ceiling'')
      else if ml_max_calls m = 0 \<or> MAX_CALLS < ml_max_calls m
      then Inl (invalid ''machine call limit is outside the hard ceiling'')
      else if ml_max_output_bytes m = 0 \<or> MAX_OUTPUT_BYTES < ml_max_output_bytes m
      then Inl (invalid ''machine output limit is outside the hard ceiling'')
      else Inr m)"

definition unwrap_or :: "'a option \<Rightarrow> 'a \<Rightarrow> 'a" where
  "unwrap_or o' d = (case o' of Some x \<Rightarrow> x | None \<Rightarrow> d)"

definition resolve_limits :: "requested_limits \<Rightarrow> machine_limits \<Rightarrow> (effective_limits, execute_error) result" where
  "resolve_limits request machine =
     and_then (validate_machine machine) (\<lambda>machine.
       let timeout_ms = unwrap_or (rl_timeout_ms request) (ml_timeout_ms machine);
           max_calls = unwrap_or (rl_max_calls request) (ml_max_calls machine);
           max_output_bytes = unwrap_or (rl_max_output_bytes request) (ml_max_output_bytes machine)
       in if timeout_ms = 0 \<or> max_calls = 0 \<or> max_output_bytes = 0
          then Inl (invalid ''execution limits must be greater than zero'')
          else Inr \<lparr>el_timeout_ms = min timeout_ms (ml_timeout_ms machine),
                    el_max_calls = min max_calls (ml_max_calls machine),
                    el_max_output_bytes = min max_output_bytes (ml_max_output_bytes machine)\<rparr>)"

section \<open>Grants\<close>

text \<open>A grant is the finite set of its names; \<open>describe\<close> is the authority's lookup.\<close>

fun build_grant_from :: "(string \<Rightarrow> 'd option) \<Rightarrow> string set \<Rightarrow> string list \<Rightarrow> (string set, execute_error) result" where
  "build_grant_from describe tools [] = Inr tools"
| "build_grant_from describe tools (raw # rest) =
     (let name = trim raw in
      if name = [] \<or> CHR ''*'' \<in> set name \<or> CHR ''?'' \<in> set name
      then Inl (invalid ''allowTools accepts exact tool names only'')
      else if describe name = None then Inl (unknown_tool name)
      else build_grant_from describe (insert name tools) rest)"

definition build_grant :: "(string \<Rightarrow> 'd option) \<Rightarrow> string list \<Rightarrow> (string set, execute_error) result" where
  "build_grant describe names =
     (if names = [] then Inl (invalid ''allowTools must name at least one tool'')
      else if MAX_GRANTED_TOOLS < length names then Inl (invalid ''allowTools exceeds the hard limit'')
      else build_grant_from describe {} names)"

section \<open>Plans\<close>

record 'v execute_request =
  er_code :: string
  er_allow_tools :: "string list"
  er_input :: 'v
  er_limits :: requested_limits

record runtime_identity =
  ri_name :: string
  ri_image :: string
  ri_protocol :: u32

record plan_context =
  pc_execution_id :: string
  pc_parent_run_id :: "string option"
  pc_project_digest :: string
  pc_authority_digest :: string
  pc_runtime :: runtime_identity
  pc_machine_limits :: machine_limits

record 'v execute_plan =
  ep_execution_id :: string
  ep_parent_run_id :: "string option"
  ep_project_digest :: string
  ep_authority_digest :: string
  ep_source_digest :: string
  ep_input_digest :: string
  ep_grant :: "string set"
  ep_limits :: effective_limits
  ep_runtime :: runtime_identity
  ep_code :: string
  ep_input :: 'v

definition build_plan ::
  "(string \<Rightarrow> string) \<Rightarrow> ('v \<Rightarrow> string option) \<Rightarrow> (string \<Rightarrow> 'd option) \<Rightarrow> 'v execute_request \<Rightarrow> plan_context
    \<Rightarrow> ('v execute_plan, execute_error) result" where
  "build_plan digest_bytes to_vec describe request context =
     (if pc_execution_id context = [] \<or> 128 < length (pc_execution_id context)
      then Inl (invalid ''execution id is invalid'')
      else if length (er_code request) = 0 \<or> MAX_SOURCE_BYTES < length (er_code request)
      then Inl (invalid ''source size is outside the allowed range'')
      else and_then (ok_or (invalid ''input is not serializable JSON'') (to_vec (er_input request))) (\<lambda>input_bytes.
        if MAX_INPUT_BYTES < length input_bytes then Inl (invalid ''input exceeds the hard size limit'')
        else and_then (build_grant describe (er_allow_tools request)) (\<lambda>grant.
          and_then (resolve_limits (er_limits request) (pc_machine_limits context)) (\<lambda>limits.
            Inr \<lparr>ep_execution_id = pc_execution_id context, ep_parent_run_id = pc_parent_run_id context,
                 ep_project_digest = pc_project_digest context, ep_authority_digest = pc_authority_digest context,
                 ep_source_digest = digest_bytes (er_code request), ep_input_digest = digest_bytes input_bytes,
                 ep_grant = grant, ep_limits = limits, ep_runtime = pc_runtime context,
                 ep_code = er_code request, ep_input = er_input request\<rparr>))))"

section \<open>Outputs\<close>

record 'v execution_output =
  eo_result :: 'v
  eo_calls :: u32
  eo_duration_ms :: u64
  eo_stdout_bytes :: u64
  eo_stderr_bytes :: u64

definition saturating_add :: "u64 \<Rightarrow> u64 \<Rightarrow> u64" where
  "saturating_add a b = (if a + b < a then - 1 else a + b)"

definition validate_output ::
  "('v \<Rightarrow> string option) \<Rightarrow> 'v execute_plan \<Rightarrow> 'v execution_output \<Rightarrow> ('v execution_output, execute_error) result" where
  "validate_output to_vec plan out =
     and_then (ok_or invalid_result (map_option length (to_vec (eo_result out)))) (\<lambda>result_len.
       if MAX_RESULT_BYTES < result_len \<or> el_max_calls (ep_limits plan) < eo_calls out
          \<or> el_max_output_bytes (ep_limits plan) < saturating_add (eo_stdout_bytes out) (eo_stderr_bytes out)
       then Inl resource_limit
       else Inr out)"

section \<open>What a plan is bounded by\<close>

lemma validate_machine_Inr:
  "validate_machine m = Inr m' \<longleftrightarrow> m' = m \<and> 0 < ml_timeout_ms m \<and> ml_timeout_ms m \<le> MAX_TIMEOUT_MS \<and>
     0 < ml_max_calls m \<and> ml_max_calls m \<le> MAX_CALLS \<and>
     0 < ml_max_output_bytes m \<and> ml_max_output_bytes m \<le> MAX_OUTPUT_BYTES"
  by (auto simp: validate_machine_def word_neq_0_conv)

lemma resolve_limits_Inr:
  "resolve_limits r m = Inr e \<longleftrightarrow>
     is_ok (validate_machine m) \<and>
     0 \<notin> set_option (rl_timeout_ms r) \<and> 0 \<notin> set_option (rl_max_calls r) \<and> 0 \<notin> set_option (rl_max_output_bytes r) \<and>
     e = \<lparr>el_timeout_ms = min (unwrap_or (rl_timeout_ms r) (ml_timeout_ms m)) (ml_timeout_ms m),
          el_max_calls = min (unwrap_or (rl_max_calls r) (ml_max_calls m)) (ml_max_calls m),
          el_max_output_bytes = min (unwrap_or (rl_max_output_bytes r) (ml_max_output_bytes m)) (ml_max_output_bytes m)\<rparr>"
  by (auto simp: resolve_limits_def and_then_Inr validate_machine_Inr is_ok_iff Let_def unwrap_or_def
      split: option.splits if_splits)

lemma limits_bounded:
  assumes "resolve_limits r m = Inr e"
  shows "0 < el_timeout_ms e \<and> el_timeout_ms e \<le> ml_timeout_ms m \<and> ml_timeout_ms m \<le> MAX_TIMEOUT_MS"
    and "0 < el_max_calls e \<and> el_max_calls e \<le> ml_max_calls m \<and> ml_max_calls m \<le> MAX_CALLS"
    and "0 < el_max_output_bytes e \<and> el_max_output_bytes e \<le> ml_max_output_bytes m \<and> ml_max_output_bytes m \<le> MAX_OUTPUT_BYTES"
  using assms
  by (auto simp: resolve_limits_Inr is_ok_iff validate_machine_Inr unwrap_or_def word_neq_0_conv min_def split: option.splits)

definition exact_name :: "string \<Rightarrow> bool" where
  "exact_name name \<longleftrightarrow> name \<noteq> [] \<and> CHR ''*'' \<notin> set name \<and> CHR ''?'' \<notin> set name"

lemma build_grant_from_Inr:
  "build_grant_from describe tools names = Inr g \<longleftrightarrow>
     (\<forall>raw \<in> set names. exact_name (trim raw) \<and> describe (trim raw) \<noteq> None) \<and> g = tools \<union> trim ` set names"
  by (induction names arbitrary: tools) (auto simp: Let_def exact_name_def)

lemma build_grant_Inr:
  "build_grant describe names = Inr g \<longleftrightarrow>
     names \<noteq> [] \<and> length names \<le> MAX_GRANTED_TOOLS \<and>
     (\<forall>raw \<in> set names. exact_name (trim raw) \<and> describe (trim raw) \<noteq> None) \<and> g = trim ` set names"
  by (auto simp: build_grant_def build_grant_from_Inr)

lemma build_plan_Inr:
  "build_plan digest to_vec describe request context = Inr p \<Longrightarrow>
     build_grant describe (er_allow_tools request) = Inr (ep_grant p) \<and>
     resolve_limits (er_limits request) (pc_machine_limits context) = Inr (ep_limits p) \<and>
     (\<exists>bytes. to_vec (er_input request) = Some bytes \<and> length bytes \<le> MAX_INPUT_BYTES \<and> ep_input_digest p = digest bytes) \<and>
     0 < length (er_code request) \<and> length (er_code request) \<le> MAX_SOURCE_BYTES \<and>
     ep_source_digest p = digest (er_code request) \<and> ep_code p = er_code request \<and> ep_input p = er_input request"
  by (cases "to_vec (er_input request)") (auto simp: build_plan_def and_then_Inr split: if_splits)

lemma unat_saturating_add: "unat (saturating_add a b) = min (2 ^ 64 - 1) (unat a + unat b)"
proof (cases "unat a + unat b < 2 ^ 64")
  case True
  then have "unat (a + b) = unat a + unat b" by (simp add: unat_add_lem [symmetric])
  with True show ?thesis by (auto simp: saturating_add_def word_less_nat_alt)
next
  case False
  have "unat b < 2 ^ 64" using unsigned_less [of b, where ?'a = nat] by simp
  moreover have "unat (a + b) = (unat a + unat b) mod 2 ^ 64" by (simp add: unat_word_ariths(1))
  moreover have "unat a < 2 ^ 64" using unsigned_less [of a, where ?'a = nat] by simp
  ultimately have "unat (a + b) < unat a" using False by (simp add: mod_if) linarith
  then have "a + b < a" by (simp add: word_less_nat_alt)
  moreover have "unat (- 1 :: u64) = 2 ^ 64 - 1" by (simp add: unsigned_minus_1_eq_mask mask_eq_exp_minus_1)
  ultimately show ?thesis using False by (simp add: saturating_add_def)
qed

lemma validate_output_Inr:
  assumes "el_max_output_bytes (ep_limits plan) \<le> MAX_OUTPUT_BYTES"
  shows "validate_output to_vec plan out = Inr out' \<longleftrightarrow>
    out' = out \<and> (\<exists>bytes. to_vec (eo_result out) = Some bytes \<and> length bytes \<le> MAX_RESULT_BYTES) \<and>
    eo_calls out \<le> el_max_calls (ep_limits plan) \<and>
    unat (eo_stdout_bytes out) + unat (eo_stderr_bytes out) \<le> unat (el_max_output_bytes (ep_limits plan))"
proof -
  have "unat (el_max_output_bytes (ep_limits plan)) \<le> 262144"
    using assms by (simp add: MAX_OUTPUT_BYTES_def word_le_nat_alt)
  then have "saturating_add (eo_stdout_bytes out) (eo_stderr_bytes out) \<le> el_max_output_bytes (ep_limits plan) \<longleftrightarrow>
      unat (eo_stdout_bytes out) + unat (eo_stderr_bytes out) \<le> unat (el_max_output_bytes (ep_limits plan))"
    by (auto simp: word_le_nat_alt unat_saturating_add)
  then show ?thesis
    by (cases "to_vec (eo_result out)") (auto simp: validate_output_def not_less)
qed

section \<open>Properties\<close>

text \<open>
  Effective limits are positive and within the machine's limits, which are within the hard ceilings; a
  request can only lower them.\<close>

theorem effective_limits_bounded:
  assumes "resolve_limits r m = Inr l"
  shows "0 < el_timeout_ms l \<and> el_timeout_ms l \<le> ml_timeout_ms m \<and> ml_timeout_ms m \<le> 60000 \<and>
    0 < el_max_calls l \<and> el_max_calls l \<le> ml_max_calls m \<and> ml_max_calls m \<le> 100 \<and>
    0 < el_max_output_bytes l \<and> el_max_output_bytes l \<le> ml_max_output_bytes m \<and> ml_max_output_bytes m \<le> 262144 \<and>
    (\<forall>t. rl_timeout_ms r = Some t \<longrightarrow> el_timeout_ms l = min t (ml_timeout_ms m))"
  using limits_bounded [OF assms] assms
  by (auto simp: resolve_limits_Inr unwrap_or_def MAX_TIMEOUT_MS_def MAX_CALLS_def MAX_OUTPUT_BYTES_def)

theorem effective_limits_bounded_witness:
  "el_max_calls \<lparr>el_timeout_ms = 5, el_max_calls = 20, el_max_output_bytes = 65536\<rparr> \<le> 100"
proof -
  have "resolve_limits \<lparr>rl_timeout_ms = Some 5, rl_max_calls = None, rl_max_output_bytes = None\<rparr> default_machine_limits
      = Inr \<lparr>el_timeout_ms = 5, el_max_calls = 20, el_max_output_bytes = 65536\<rparr>"
    by (simp add: resolve_limits_def validate_machine_def default_machine_limits_def limit_defs unwrap_or_def Let_def)
  from effective_limits_bounded [OF this] show ?thesis by simp
qed

text \<open>
  A grant is exactly the trimmed names of the request, and it is given only when there are between 1 and 100 of
  them, none is a pattern, and the authority knows each.\<close>

theorem grant_exact:
  "build_grant describe names = Inr g \<longleftrightarrow>
     names \<noteq> [] \<and> length names \<le> 100 \<and> g = trim ` set names \<and>
     list_all (\<lambda>raw. exact_name (trim raw) \<and> describe (trim raw) \<noteq> None) names"
  by (auto simp: build_grant_Inr MAX_GRANTED_TOOLS_def list_all_iff)

text \<open>
  The output of a plan is accepted exactly when the result serializes within its bound, the calls made are
  within the plan's, and stdout and stderr together are within its output limit as numbers: the saturating
  addition never lets an overflowing pair through.\<close>

theorem output_within_plan:
  assumes "build_plan digest to_vec describe request context = Inr plan"
  shows "validate_output to_vec plan out = Inr out' \<longleftrightarrow>
    out' = out \<and> (\<exists>bytes. to_vec (eo_result out) = Some bytes \<and> length bytes \<le> MAX_RESULT_BYTES) \<and>
    eo_calls out \<le> el_max_calls (ep_limits plan) \<and>
    unat (eo_stdout_bytes out) + unat (eo_stderr_bytes out) \<le> unat (el_max_output_bytes (ep_limits plan))"
proof (rule validate_output_Inr)
  from build_plan_Inr [OF assms] have "resolve_limits (er_limits request) (pc_machine_limits context) = Inr (ep_limits plan)" by blast
  from limits_bounded(3) [OF this] show "el_max_output_bytes (ep_limits plan) \<le> MAX_OUTPUT_BYTES" by auto
qed

definition sample_exec_request :: "string execute_request" where
  "sample_exec_request = \<lparr>er_code = ''c'', er_allow_tools = [''read''], er_input = ''i'',
     er_limits = \<lparr>rl_timeout_ms = None, rl_max_calls = None, rl_max_output_bytes = None\<rparr>\<rparr>"

definition sample_exec_context :: plan_context where
  "sample_exec_context = \<lparr>pc_execution_id = ''e'', pc_parent_run_id = None, pc_project_digest = [], pc_authority_digest = [],
     pc_runtime = \<lparr>ri_name = [], ri_image = [], ri_protocol = 1\<rparr>, pc_machine_limits = default_machine_limits\<rparr>"

lemma sample_exec_plan:
  "\<exists>plan. build_plan id Some Some sample_exec_request sample_exec_context = Inr plan \<and>
     ep_limits plan = \<lparr>el_timeout_ms = 15000, el_max_calls = 20, el_max_output_bytes = 65536\<rparr> \<and> ep_grant plan = {''read''}"
proof -
  have t: "trim ''read'' = ''read''" by code_simp
  show ?thesis
    by (simp add: build_plan_def sample_exec_request_def sample_exec_context_def build_grant_def t resolve_limits_def
        validate_machine_def default_machine_limits_def limit_defs unwrap_or_def Let_def)
qed

theorem output_within_plan_witness:
  "\<exists>plan. build_plan id Some Some sample_exec_request sample_exec_context = Inr plan \<and>
     validate_output Some plan \<lparr>eo_result = ''r'', eo_calls = 2, eo_duration_ms = 0, eo_stdout_bytes = - 1, eo_stderr_bytes = 2\<rparr>
       \<noteq> Inr \<lparr>eo_result = ''r'', eo_calls = 2, eo_duration_ms = 0, eo_stdout_bytes = - 1, eo_stderr_bytes = 2\<rparr>"
proof -
  obtain plan where p: "build_plan id Some Some sample_exec_request sample_exec_context = Inr plan"
    and l: "ep_limits plan = \<lparr>el_timeout_ms = 15000, el_max_calls = 20, el_max_output_bytes = 65536\<rparr>"
    using sample_exec_plan by blast
  have "unat (- 1 :: u64) = 2 ^ 64 - 1" by (simp add: unsigned_minus_1_eq_mask mask_eq_exp_minus_1)
  with output_within_plan [OF p] p l show ?thesis by (intro exI [of _ plan]) simp
qed

end
