(* ===== verification/Framing.thy ===== *)
theory Framing
  imports Strings
begin

text \<open>
  The length-framed byte streams that every digest of the program hashes: the presence-tagged
  segments of the consent digest and the lock's manifest stamp (\<open>ConsentSnapshot::digest\<close> of
  crates/trust/src/lib.rs, \<open>manifest_stamp\<close> of crates/core/src/lock.rs) and the framed paths and
  contents of a tree digest (crates/core/src/digest.rs). A stream determines what was framed.
\<close>

section \<open>Framing\<close>

definition le64 :: "nat \<Rightarrow> string" where
  "le64 n = map (\<lambda>i. char_of (n div 256 ^ i mod 256)) [0..<8]"

definition frame_segment :: "string option \<Rightarrow> string" where
  "frame_segment seg =
     (case seg of
        Some bytes \<Rightarrow> [CHR 0x01] @ le64 (length bytes) @ bytes
      | None \<Rightarrow> [CHR 0x00])"

text \<open>A length and the bytes, and a list of pairs framed one after the other.\<close>

definition framed :: "string \<Rightarrow> string" where
  "framed bytes = le64 (length bytes) @ bytes"

definition framed_files :: "(string \<times> string) list \<Rightarrow> string" where
  "framed_files files = concat (map (\<lambda>(path, bytes). framed path @ framed bytes) files)"

section \<open>A stream determines what was framed\<close>

lemma le64_length [simp]: "length (le64 n) = 8"
  by (simp add: le64_def)

lemma le64_inj:
  assumes "le64 m = le64 n" "m < 2 ^ 64" "n < 2 ^ 64"
  shows "m = n"
proof -
  have digit: "k div 256 ^ i mod 256 = byte (le64 k ! i)" if "i < 8" for k i
    using that by (simp add: le64_def)
  have eq: "m mod 256 ^ i = n mod 256 ^ i" if "i \<le> 8" for i
    using that
  proof (induction i)
    case (Suc i)
    have "k mod 256 ^ Suc i = 256 ^ i * (k div 256 ^ i mod 256) + k mod 256 ^ i" for k :: nat
      using mod_mult2_eq [of k "256 ^ i" 256] by (simp add: mult.commute)
    with Suc show ?case by (simp only: digit [of i] assms(1))
  qed simp
  from eq [of 8] assms(2,3) show ?thesis by simp
qed

definition sized :: "string option \<Rightarrow> bool" where
  "sized seg \<longleftrightarrow> (case seg of None \<Rightarrow> True | Some bytes \<Rightarrow> length bytes < 2 ^ 64)"

lemma frame_segment_inj:
  "frame_segment a @ r = frame_segment b @ r' \<Longrightarrow> sized a \<Longrightarrow> sized b \<Longrightarrow> a = b \<and> r = r'"
  by (cases a; cases b) (auto simp: frame_segment_def sized_def dest: le64_inj)

lemma framed_inj:
  "framed a @ r = framed b @ r' \<Longrightarrow> length a < 2 ^ 64 \<Longrightarrow> length b < 2 ^ 64 \<Longrightarrow> a = b \<and> r = r'"
  by (auto simp: framed_def dest: le64_inj)

lemma framed_files_inj:
  "framed_files fs = framed_files gs \<Longrightarrow>
   \<forall>(p, b) \<in> set fs \<union> set gs. length p < 2 ^ 64 \<and> length b < 2 ^ 64 \<Longrightarrow> fs = gs"
proof (induction fs arbitrary: gs)
  case Nil
  then show ?case by (cases gs) (auto simp: framed_files_def framed_def le64_def)
next
  case (Cons f fs)
  obtain p b where f: "f = (p, b)" by fastforce
  show ?case
  proof (cases gs)
    case Nil
    with Cons.prems(1) f show ?thesis by (simp add: framed_files_def framed_def le64_def)
  next
    case (Cons g gs')
    obtain q c where g: "g = (q, c)" by fastforce
    have eq: "framed p @ framed b @ framed_files fs = framed q @ framed c @ framed_files gs'"
      using Cons.prems(1) by (simp add: Cons f g framed_files_def)
    have sz: "length p < 2 ^ 64" "length b < 2 ^ 64" "length q < 2 ^ 64" "length c < 2 ^ 64"
      using Cons.prems(2) by (auto simp: Cons f g)
    from framed_inj [OF eq sz(1,3)] framed_inj [OF _ sz(2,4)] have "p = q" "b = c" "framed_files fs = framed_files gs'"
      by blast+
    with Cons.IH [of gs'] Cons.prems(2) show ?thesis by (simp add: Cons f g)
  qed
qed

text \<open>A digest function for examples: of fixed length, and apart only on one chosen stream.\<close>

definition sample_sum :: "string \<Rightarrow> string \<Rightarrow> string" where
  "sample_sum u x = replicate 64 (if x = u then CHR ''a'' else CHR ''b'')"

lemma sample_sum_inj: "inj_on (sample_sum u) {u, v}"
  by (auto simp: inj_on_def sample_sum_def)

end
