(* ===== verification/Trust.thy ===== *)
theory Trust
  imports Policy Framing
begin

text \<open>
  The trust store of crates/trust/src/lib.rs: grants pinned to the digest of a consent snapshot,
  re-pinning, standing answers, revocation, and the consent-bound grant. The store file has an
  abstract content type with the parser and printer of serde_json as parameters; SHA-256, the clock,
  the store lock and the success of the write and of the log line are parameters as well, and so
  are \<open>fs::canonicalize\<close> and the bytes that reading the three pinned files gives.
\<close>

section \<open>Insertion-ordered maps\<close>

fun im_insert :: "string \<Rightarrow> 'v \<Rightarrow> 'v index_map \<Rightarrow> 'v index_map" where
  "im_insert k v [] = [(k, v)]"
| "im_insert k v ((k', v') # m) = (if k' = k then (k, v) # m else (k', v') # im_insert k v m)"

fun im_remove :: "string \<Rightarrow> 'v index_map \<Rightarrow> 'v index_map" where
  "im_remove k [] = []"
| "im_remove k ((k', v') # m) = (if k' = k then m else (k', v') # im_remove k m)"

lemma map_of_im_insert [simp]: "map_of (im_insert k v m) = (map_of m)(k \<mapsto> v)"
  by (induction k v m rule: im_insert.induct) auto

lemma keys_im_insert: "distinct (map fst m) \<Longrightarrow> distinct (map fst (im_insert k v m))"
proof -
  have "set (map fst (im_insert k v m)) = insert k (set (map fst m))" for m
    by (induction m rule: im_insert.induct) auto
  then show "distinct (map fst m) \<Longrightarrow> distinct (map fst (im_insert k v m))"
    by (induction m rule: im_insert.induct) auto
qed

lemma map_of_im_remove:
  "distinct (map fst m) \<Longrightarrow> map_of (im_remove k m) = (map_of m)(k := None)"
  by (induction k m rule: im_remove.induct) (auto simp: map_of_eq_None_iff fun_eq_iff)

lemma keys_im_remove: "distinct (map fst m) \<Longrightarrow> distinct (map fst (im_remove k m))"
proof -
  have "set (map fst (im_remove k m)) \<subseteq> set (map fst m)" for m
    by (induction m rule: im_remove.induct) auto
  then show "distinct (map fst m) \<Longrightarrow> distinct (map fst (im_remove k m))"
    by (induction m rule: im_remove.induct) auto
qed

section \<open>The store\<close>

datatype answer = KeepPinned string | Blocked

record item_decision =
  id_kind :: string
  id_name :: string
  id_answer :: answer

record surface_item =
  si_kind :: string
  si_name :: string
  si_identity :: string
  si_pin :: "string option"

record trust_entry =
  te_digest :: string
  te_trusted_at :: u64
  te_surface :: "surface_item list option"
  te_decisions :: "item_decision list option"

type_synonym trust_store = "trust_entry index_map"

datatype prior_surface = NeverTrusted | Untracked | Recorded "surface_item list"

datatype trust_state = Trusted | Changed | Untrusted

datatype trust_error =
    NoManifest string
  | Store string
  | ConsentMismatch string string
  | ConsentDigestFormat string string
  | ConsentDigestDoubledPrefix string string

text \<open>The pair of fields the standing answers are sorted by, ordered as the pair of strings.\<close>

datatype item_key = ItemKey (ik_kind: string) (ik_name: string)

instantiation item_key :: linorder
begin

definition less_eq_item_key :: "item_key \<Rightarrow> item_key \<Rightarrow> bool" where
  "less_eq_item_key a b \<longleftrightarrow> ik_kind a < ik_kind b \<or> (ik_kind a = ik_kind b \<and> ik_name a \<le> ik_name b)"

definition less_item_key :: "item_key \<Rightarrow> item_key \<Rightarrow> bool" where
  "less_item_key a b \<longleftrightarrow> ik_kind a < ik_kind b \<or> (ik_kind a = ik_kind b \<and> ik_name a < ik_name b)"

instance
  by standard (auto simp: less_eq_item_key_def less_item_key_def item_key.expand)

end

definition item_key :: "item_decision \<Rightarrow> item_key" where
  "item_key d = ItemKey (id_kind d) (id_name d)"

section \<open>The machine\<close>

datatype trust_action = Grant | Regrant | Repin | Revoke | Decide | Undecide

record trust_mutation =
  tm_ts :: u64
  tm_action :: trust_action
  tm_project :: string
  tm_digest :: string

text \<open>The store file, absent or unreadable as \<open>None\<close>, and the mutation log.\<close>

record 'f machine =
  mc_file :: "'f option"
  mc_log :: "trust_mutation list"

text \<open>The surroundings of one operation.\<close>

record 'f env =
  en_canonicalize :: "string \<Rightarrow> string option"
  en_parse :: "'f \<Rightarrow> trust_store option"
  en_print :: "trust_store \<Rightarrow> ('f, string) result"
  en_write :: "(unit, string) result"
  en_lock :: "(unit, trust_error) result"
  en_log_ok :: bool
  en_now :: u64

definition load_store :: "'f env \<Rightarrow> 'f machine \<Rightarrow> trust_store" where
  "load_store e m =
     (case mc_file m of
        None \<Rightarrow> []
      | Some text \<Rightarrow> (case en_parse e text of Some store \<Rightarrow> store | None \<Rightarrow> []))"

definition key_for :: "'f env \<Rightarrow> string \<Rightarrow> string" where
  "key_for e base =
     (case en_canonicalize e base of Some path \<Rightarrow> from_utf8_lossy path | None \<Rightarrow> from_utf8_lossy base)"

definition save_store :: "'f env \<Rightarrow> trust_store \<Rightarrow> 'f machine \<Rightarrow> (unit, trust_error) result \<times> 'f machine" where
  "save_store e store m =
     (case en_print e store of
        Inl err \<Rightarrow> (Inl (Store err), m)
      | Inr text \<Rightarrow>
          (case en_write e of
             Inl err \<Rightarrow> (Inl (Store err), m)
           | Inr _ \<Rightarrow> (Inr (), m\<lparr>mc_file := Some text\<rparr>)))"

definition record_mutation :: "'f env \<Rightarrow> trust_action \<Rightarrow> string \<Rightarrow> string \<Rightarrow> 'f machine \<Rightarrow> 'f machine" where
  "record_mutation e action project digest m =
     (if en_log_ok e
      then m\<lparr>mc_log := mc_log m @ [\<lparr>tm_ts = en_now e, tm_action = action, tm_project = project, tm_digest = digest\<rparr>]\<rparr>
      else m)"

definition with_store_lock ::
  "'f env \<Rightarrow> ('f machine \<Rightarrow> ('a, trust_error) result \<times> 'f machine) \<Rightarrow> 'f machine \<Rightarrow> ('a, trust_error) result \<times> 'f machine" where
  "with_store_lock e f m = (case en_lock e of Inl err \<Rightarrow> (Inl err, m) | Inr _ \<Rightarrow> f m)"

text \<open>Saving, then the log line and the value, with the error of the save returned early.\<close>

definition save_and_record ::
  "'f env \<Rightarrow> trust_store \<Rightarrow> trust_action \<Rightarrow> string \<Rightarrow> string \<Rightarrow> 'a \<Rightarrow> 'f machine \<Rightarrow> ('a, trust_error) result \<times> 'f machine" where
  "save_and_record e store action key digest v m =
     (case save_store e store m of
        (Inl err, m) \<Rightarrow> (Inl err, m)
      | (Inr _, m) \<Rightarrow> (Inr v, record_mutation e action key digest m))"

section \<open>Reading\<close>

text \<open>\<open>unwrap_or_default\<close> on the optional list of standing answers.\<close>

definition listed :: "item_decision list option \<Rightarrow> item_decision list" where
  "listed ds = (case ds of None \<Rightarrow> [] | Some l \<Rightarrow> l)"

definition decisions_for :: "'f env \<Rightarrow> 'f machine \<Rightarrow> string \<Rightarrow> item_decision list" where
  "decisions_for e m base =
     (case map_of (load_store e m) (key_for e base) of
        None \<Rightarrow> []
      | Some entry \<Rightarrow> listed (te_decisions entry))"

definition is_item :: "string \<Rightarrow> string \<Rightarrow> item_decision \<Rightarrow> bool" where
  "is_item kind name d \<longleftrightarrow> id_kind d = kind \<and> id_name d = name"

definition decision_for :: "'f env \<Rightarrow> 'f machine \<Rightarrow> string \<Rightarrow> string \<Rightarrow> string \<Rightarrow> answer option" where
  "decision_for e m base kind name = map_option id_answer (find (is_item kind name) (decisions_for e m base))"

definition check_digest :: "'f env \<Rightarrow> 'f machine \<Rightarrow> string \<Rightarrow> string option \<Rightarrow> trust_state" where
  "check_digest e m base digest =
     (case map_of (load_store e m) (key_for e base) of
        None \<Rightarrow> Untrusted
      | Some entry \<Rightarrow>
          (case digest of
             Some d \<Rightarrow> if d = te_digest entry then Trusted else Changed
           | None \<Rightarrow> Changed))"

definition prior_surface :: "'f env \<Rightarrow> 'f machine \<Rightarrow> string \<Rightarrow> prior_surface" where
  "prior_surface e m base =
     (case map_of (load_store e m) (key_for e base) of
        None \<Rightarrow> NeverTrusted
      | Some entry \<Rightarrow> (case te_surface entry of None \<Rightarrow> Untracked | Some items \<Rightarrow> Recorded items))"

section \<open>Writing\<close>

definition update_decisions :: "string \<Rightarrow> string \<Rightarrow> answer option \<Rightarrow> item_decision list option \<Rightarrow> item_decision list option" where
  "update_decisions kind name answer before =
     (let kept = filter (\<lambda>d. \<not> is_item kind name d) (listed before);
          pushed = (case answer of
                      None \<Rightarrow> kept
                    | Some a \<Rightarrow> kept @ [\<lparr>id_kind = kind, id_name = name, id_answer = a\<rparr>]);
          sorted = sort_key item_key pushed
      in if sorted = [] then None else Some sorted)"

definition set_decision ::
  "'f env \<Rightarrow> string \<Rightarrow> string \<Rightarrow> string \<Rightarrow> answer option \<Rightarrow> 'f machine \<Rightarrow> (bool, trust_error) result \<times> 'f machine" where
  "set_decision e base kind name answer =
     with_store_lock e (\<lambda>m.
       let store = load_store e m; key = key_for e base in
       case map_of store key of
         None \<Rightarrow> (Inr False, m)
       | Some entry \<Rightarrow>
           let decisions = update_decisions kind name answer (te_decisions entry) in
           if decisions = te_decisions entry then (Inr True, m)
           else save_and_record e (im_insert key (entry\<lparr>te_decisions := decisions\<rparr>) store)
                  (if answer \<noteq> None then Decide else Undecide) key (te_digest entry) True m)"

definition store_entry ::
  "'f env \<Rightarrow> string \<Rightarrow> string \<Rightarrow> surface_item list option \<Rightarrow> 'f machine \<Rightarrow> (unit, trust_error) result \<times> 'f machine" where
  "store_entry e base digest surface =
     with_store_lock e (\<lambda>m.
       let store = load_store e m;
           key = key_for e base;
           prior = map_of store key;
           carried = (case prior of None \<Rightarrow> None | Some entry \<Rightarrow> te_decisions entry);
           entry = \<lparr>te_digest = digest, te_trusted_at = en_now e, te_surface = surface, te_decisions = carried\<rparr>
       in save_and_record e (im_insert key entry store)
            (if prior \<noteq> None then Regrant else Grant) key digest () m)"

definition trust_unreviewed ::
  "'f env \<Rightarrow> string \<Rightarrow> string option \<Rightarrow> 'f machine \<Rightarrow> (string, trust_error) result \<times> 'f machine" where
  "trust_unreviewed e base current m =
     (case current of
        None \<Rightarrow> (Inl (NoManifest base), m)
      | Some digest \<Rightarrow>
          (case store_entry e base digest None m of (r, m) \<Rightarrow> (and_then r (\<lambda>_. Inr digest), m)))"

definition trust_reviewed ::
  "'f env \<Rightarrow> string \<Rightarrow> string \<Rightarrow> surface_item list \<Rightarrow> 'f machine \<Rightarrow> (unit, trust_error) result \<times> 'f machine" where
  "trust_reviewed e base digest surface = store_entry e base digest (Some surface)"

definition repin :: "'f env \<Rightarrow> string \<Rightarrow> string \<Rightarrow> 'f machine \<Rightarrow> (bool, trust_error) result \<times> 'f machine" where
  "repin e base digest =
     with_store_lock e (\<lambda>m.
       let store = load_store e m; key = key_for e base in
       case map_of store key of
         None \<Rightarrow> (Inr False, m)
       | Some entry \<Rightarrow>
           save_and_record e (im_insert key (entry\<lparr>te_digest := digest, te_trusted_at := en_now e\<rparr>) store)
             Repin key digest True m)"

text \<open>\<open>current\<close> is \<open>digest_for\<close> of the project.\<close>

definition consent_error :: "string \<Rightarrow> string \<Rightarrow> trust_error" where
  "consent_error consented actual =
     (let same_bytes = (case strip_prefix ''sha256:'' actual of Some hex \<Rightarrow> consented = hex | None \<Rightarrow> False);
          doubled_prefix = (case strip_prefix ''sha256:'' consented of Some rest \<Rightarrow> rest = actual | None \<Rightarrow> False)
      in if doubled_prefix then ConsentDigestDoubledPrefix consented actual
         else if same_bytes then ConsentDigestFormat consented actual
         else ConsentMismatch consented actual)"

definition trust_with_consent ::
  "'f env \<Rightarrow> string \<Rightarrow> string option \<Rightarrow> surface_item list \<Rightarrow> string \<Rightarrow> 'f machine \<Rightarrow> (string, trust_error) result \<times> 'f machine" where
  "trust_with_consent e base current surface consented m =
     (case current of
        None \<Rightarrow> (Inl (NoManifest base), m)
      | Some actual \<Rightarrow>
          if consented \<noteq> actual then (Inl (consent_error consented actual), m)
          else (case store_entry e base actual (Some surface) m of (r, m) \<Rightarrow> (and_then r (\<lambda>_. Inr actual), m)))"

definition revoke :: "'f env \<Rightarrow> string \<Rightarrow> 'f machine \<Rightarrow> (bool, trust_error) result \<times> 'f machine" where
  "revoke e base =
     with_store_lock e (\<lambda>m.
       let store = load_store e m; key = key_for e base in
       case map_of store key of
         None \<Rightarrow> (Inr False, m)
       | Some entry \<Rightarrow>
           save_and_record e (im_remove key store) Revoke key (te_digest entry) True m)"

section \<open>The consent digest\<close>

definition TRUST_DIGEST_DOMAIN :: string where
  "TRUST_DIGEST_DOMAIN = ''agentstack-trust-digest-v3'' @ [CHR 0x00]"

record consent_snapshot =
  cs_manifest :: string
  cs_local :: "string option"
  cs_lock :: "string option"

definition hashed_bytes :: "consent_snapshot \<Rightarrow> string" where
  "hashed_bytes s =
     TRUST_DIGEST_DOMAIN @ concat (map frame_segment [Some (cs_manifest s), cs_local s, cs_lock s])"

definition snapshot_digest :: "(string \<Rightarrow> string) \<Rightarrow> consent_snapshot \<Rightarrow> string" where
  "snapshot_digest sha256 s = ''sha256:'' @ sha256 (hashed_bytes s)"

text \<open>\<open>ConsentSnapshot::read\<close> over what reading the three files of the manifest directory gives.\<close>

definition read_snapshot :: "(string \<Rightarrow> string option) \<Rightarrow> consent_snapshot option" where
  "read_snapshot read =
     (case read ''agentstack.toml'' of
        None \<Rightarrow> None
      | Some manifest \<Rightarrow>
          Some \<lparr>cs_manifest = manifest, cs_local = read ''agentstack.local.toml'', cs_lock = read ''agentstack.lock''\<rparr>)"

definition digest_for :: "(string \<Rightarrow> string) \<Rightarrow> (string \<Rightarrow> string option) \<Rightarrow> string option" where
  "digest_for sha256 read = map_option (snapshot_digest sha256) (read_snapshot read)"

section \<open>The store file keeps what was saved\<close>

text \<open>What serde_json promises: a printed store parses back, and a parsed map has distinct keys.\<close>

definition codec_ok :: "'f env \<Rightarrow> bool" where
  "codec_ok e \<longleftrightarrow>
     (\<forall>store text. distinct (map fst store) \<longrightarrow> en_print e store = Inr text \<longrightarrow> en_parse e text = Some store) \<and>
     (\<forall>text store. en_parse e text = Some store \<longrightarrow> distinct (map fst store))"

definition logged :: "'f env \<Rightarrow> trust_action \<Rightarrow> string \<Rightarrow> string \<Rightarrow> trust_mutation list" where
  "logged e action key digest =
     (if en_log_ok e then [\<lparr>tm_ts = en_now e, tm_action = action, tm_project = key, tm_digest = digest\<rparr>] else [])"

lemma codec_round: "codec_ok e \<Longrightarrow> distinct (map fst store) \<Longrightarrow> en_print e store = Inr text \<Longrightarrow> en_parse e text = Some store"
  and codec_distinct: "codec_ok e \<Longrightarrow> en_parse e text = Some store \<Longrightarrow> distinct (map fst store)"
  unfolding codec_ok_def by blast+

lemma load_distinct: "codec_ok e \<Longrightarrow> distinct (map fst (load_store e m))"
  by (cases "mc_file m"; cases "en_parse e (the (mc_file m))") (simp_all add: load_store_def codec_distinct)

lemma save_and_record_cases:
  assumes "save_and_record e store action key digest v m = (r, m')" "codec_ok e" "distinct (map fst store)"
  obtains (failed) err where "r = Inl err" "m' = m"
  | (saved) "r = Inr v" "load_store e m' = store" "mc_log m' = mc_log m @ logged e action key digest"
proof (cases "en_print e store")
  case (Inl err)
  with assms(1) failed show ?thesis by (auto simp: save_and_record_def save_store_def)
next
  case p: (Inr t)
  show ?thesis
  proof (cases "en_write e")
    case (Inl err)
    with p assms(1) failed show ?thesis by (auto simp: save_and_record_def save_store_def)
  next
    case (Inr u)
    with p assms(1) have "r = Inr v" "m' = record_mutation e action key digest (m\<lparr>mc_file := Some t\<rparr>)"
      by (simp_all add: save_and_record_def save_store_def)
    then show ?thesis
      using saved codec_round [OF assms(2,3) p] by (simp add: load_store_def record_mutation_def logged_def)
  qed
qed

lemma store_entry_cases:
  assumes "store_entry e base digest surface m = (r, m')" "codec_ok e"
  obtains (failed) err where "r = Inl err" "m' = m"
  | (saved) entry where "r = Inr ()"
      "map_of (load_store e m') = (map_of (load_store e m))(key_for e base \<mapsto> entry)"
      "te_digest entry = digest" "te_surface entry = surface"
      "te_decisions entry = (case map_of (load_store e m) (key_for e base) of None \<Rightarrow> None | Some old \<Rightarrow> te_decisions old)"
      "mc_log m' = mc_log m @ logged e (if map_of (load_store e m) (key_for e base) = None then Grant else Regrant) (key_for e base) digest"
proof -
  note d = keys_im_insert [OF load_distinct [OF assms(2)]]
  show ?thesis
  proof (cases "en_lock e")
    case (Inl err)
    with assms(1) have "(Inl err, m) = (r, m')" by (simp only: store_entry_def with_store_lock_def sum.case)
    then show ?thesis using failed by auto
  next
    case (Inr u)
    with assms(1) show ?thesis
      by (auto simp: store_entry_def with_store_lock_def Let_def
          elim!: save_and_record_cases [OF _ assms(2) d] intro: failed saved)
  qed
qed

lemma repin_cases:
  assumes "repin e base digest m = (r, m')" "codec_ok e"
  obtains (failed) err where "r = Inl err" "m' = m"
  | (absent) "map_of (load_store e m) (key_for e base) = None" "r = Inr False" "m' = m"
  | (saved) old where "map_of (load_store e m) (key_for e base) = Some old" "r = Inr True"
      "map_of (load_store e m') = (map_of (load_store e m))(key_for e base \<mapsto> old\<lparr>te_digest := digest, te_trusted_at := en_now e\<rparr>)"
      "mc_log m' = mc_log m @ logged e Repin (key_for e base) digest"
proof -
  note d = keys_im_insert [OF load_distinct [OF assms(2)]]
  show ?thesis
  proof (cases "en_lock e")
    case (Inl err)
    with assms(1) failed show ?thesis by (auto simp: repin_def with_store_lock_def)
  next
    case (Inr u)
    with assms(1) show ?thesis
      by (auto simp: repin_def with_store_lock_def Let_def split: option.splits
          elim!: save_and_record_cases [OF _ assms(2) d] intro: failed absent saved)
  qed
qed

lemma set_decision_cases:
  assumes "set_decision e base kind name answer m = (r, m')" "codec_ok e"
  obtains (failed) err where "r = Inl err" "m' = m"
  | (absent) "map_of (load_store e m) (key_for e base) = None" "r = Inr False" "m' = m"
  | (same) old where "map_of (load_store e m) (key_for e base) = Some old" "r = Inr True" "m' = m"
      "te_decisions old = update_decisions kind name answer (te_decisions old)"
  | (saved) old where "map_of (load_store e m) (key_for e base) = Some old" "r = Inr True"
      "map_of (load_store e m') = (map_of (load_store e m))(key_for e base \<mapsto>
         old\<lparr>te_decisions := update_decisions kind name answer (te_decisions old)\<rparr>)"
      "mc_log m' = mc_log m @ logged e (if answer = None then Undecide else Decide) (key_for e base) (te_digest old)"
proof -
  note d = keys_im_insert [OF load_distinct [OF assms(2)]]
  show ?thesis
  proof (cases "en_lock e")
    case (Inl err)
    with assms(1) failed show ?thesis by (auto simp: set_decision_def with_store_lock_def)
  next
    case (Inr u)
    with assms(1) show ?thesis
      by (auto simp: set_decision_def with_store_lock_def Let_def split: option.splits if_splits
          elim!: save_and_record_cases [OF _ assms(2) d] intro: failed absent same saved)
  qed
qed

lemma revoke_cases:
  assumes "revoke e base m = (r, m')" "codec_ok e"
  obtains (failed) err where "r = Inl err" "m' = m"
  | (absent) "map_of (load_store e m) (key_for e base) = None" "r = Inr False" "m' = m"
  | (saved) old where "map_of (load_store e m) (key_for e base) = Some old" "r = Inr True"
      "map_of (load_store e m') = (map_of (load_store e m))(key_for e base := None)"
      "mc_log m' = mc_log m @ logged e Revoke (key_for e base) (te_digest old)"
proof -
  note d = load_distinct [OF assms(2), of m]
  show ?thesis
  proof (cases "en_lock e")
    case (Inl err)
    with assms(1) failed show ?thesis by (auto simp: revoke_def with_store_lock_def)
  next
    case (Inr u)
    with assms(1) show ?thesis
      by (auto simp: revoke_def with_store_lock_def Let_def map_of_im_remove [OF d] split: option.splits
          elim!: save_and_record_cases [OF _ assms(2) keys_im_remove [OF d]] intro: failed absent saved)
  qed
qed

section \<open>The digest identifies the snapshot\<close>

definition snapshot_sized :: "consent_snapshot \<Rightarrow> bool" where
  "snapshot_sized s \<longleftrightarrow> sized (Some (cs_manifest s)) \<and> sized (cs_local s) \<and> sized (cs_lock s)"

lemma hashed_bytes_inj:
  assumes "hashed_bytes s = hashed_bytes t" "snapshot_sized s" "snapshot_sized t"
  shows "s = t"
proof -
  from assms(1) have eq:
    "frame_segment (Some (cs_manifest s)) @ frame_segment (cs_local s) @ frame_segment (cs_lock s) @ [] =
     frame_segment (Some (cs_manifest t)) @ frame_segment (cs_local t) @ frame_segment (cs_lock t) @ []"
    by (simp add: hashed_bytes_def)
  have "Some (cs_manifest s) = Some (cs_manifest t) \<and> cs_local s = cs_local t \<and> cs_lock s = cs_lock t"
    using frame_segment_inj [OF eq] frame_segment_inj assms(2,3) unfolding snapshot_sized_def by blast
  then show ?thesis by (cases s; cases t) simp
qed

lemma snapshot_digest_inj:
  "inj_on sha256 {hashed_bytes s, hashed_bytes t} \<Longrightarrow> snapshot_digest sha256 s = snapshot_digest sha256 t \<Longrightarrow> snapshot_sized s \<Longrightarrow> snapshot_sized t \<Longrightarrow> s = t"
  by (auto simp: snapshot_digest_def dest: inj_onD hashed_bytes_inj)

section \<open>Grants and standing answers\<close>

lemma store_entry_granted:
  assumes "store_entry e base digest surface m = (Inr u, m')" "codec_ok e"
  shows "check_digest e m' base current = (if current = Some digest then Trusted else Changed)"
    and "prior_surface e m' base = (case surface of None \<Rightarrow> Untracked | Some items \<Rightarrow> Recorded items)"
    and "decisions_for e m' base = decisions_for e m base"
    and "key_for e other \<noteq> key_for e base \<Longrightarrow> check_digest e m' other current = check_digest e m other current"
  by (rule store_entry_cases [OF assms];
      auto simp: check_digest_def prior_surface_def decisions_for_def listed_def split: option.splits)+

lemma consent_cases:
  assumes "trust_with_consent e base current surface consented m = (r, m')"
  obtains (refused) err where "r = Inl err" "m' = m" "current \<noteq> Some consented"
  | (store) s where "current = Some consented" "store_entry e base consented (Some surface) m = (s, m')"
      "r = and_then s (\<lambda>_. Inr consented)"
  using assms by (auto simp: trust_with_consent_def split: option.splits if_splits prod.splits)

lemma find_sort_key:
  "(\<And>a b. P a \<Longrightarrow> P b \<Longrightarrow> k a = k b) \<Longrightarrow> find P (sort_key k xs) = find P xs"
  for k :: "'a \<Rightarrow> 'b::linorder"
proof -
  assume p: "\<And>a b. P a \<Longrightarrow> P b \<Longrightarrow> k a = k b"
  have f: "find P ys = (case filter P ys of [] \<Rightarrow> None | y # _ \<Rightarrow> Some y)" for ys
    by (induction ys) auto
  show ?thesis
  proof (cases "filter P xs")
    case Nil
    then have "filter P (sort_key k xs) = []" by (simp add: filter_empty_conv)
    with Nil show ?thesis by (simp add: f)
  next
    case (Cons y ys)
    then have "y \<in> set (filter P xs)" by simp
    then have y: "P y" by simp
    have eqf: "filter P zs = filter P (filter (\<lambda>x. k x = k y) zs)" for zs
      unfolding filter_filter by (rule filter_cong [OF refl]) (use p y in blast)
    have "filter P (sort_key k xs) = filter P (filter (\<lambda>x. k x = k y) (sort_key k xs))" by (rule eqf)
    also have "\<dots> = filter P (filter (\<lambda>x. k x = k y) xs)" by (simp only: sort_key_stable)
    also have "\<dots> = filter P xs" by (rule eqf [symmetric])
    finally have "filter P (sort_key k xs) = filter P xs" .
    then show ?thesis by (simp add: f)
  qed
qed

lemma listed_update:
  "listed (update_decisions kind name ans before) =
     sort_key item_key (filter (\<lambda>d. \<not> is_item kind name d) (listed before) @
       (case ans of None \<Rightarrow> [] | Some a \<Rightarrow> [\<lparr>id_kind = kind, id_name = name, id_answer = a\<rparr>]))"
  by (cases ans) (simp_all add: update_decisions_def listed_def Let_def)

lemma find_update_decisions:
  "find (is_item kind' name') (listed (update_decisions kind name ans before)) =
     (if kind' = kind \<and> name' = name
      then map_option (\<lambda>a. \<lparr>id_kind = kind, id_name = name, id_answer = a\<rparr>) ans
      else find (is_item kind' name') (listed before))"
proof -
  have k: "find (is_item kind' name') (sort_key item_key xs) = find (is_item kind' name') xs" for xs
    by (rule find_sort_key) (simp add: item_key_def is_item_def)
  have app: "find P (xs @ ys) = (case find P xs of Some x \<Rightarrow> Some x | None \<Rightarrow> find P ys)" for P and xs ys :: "item_decision list"
    by (induction xs) auto
  have flt: "find (is_item kind' name') (filter (\<lambda>d. \<not> is_item kind name d) xs) =
      (if kind' = kind \<and> name' = name then None else find (is_item kind' name') xs)" for xs
    by (induction xs) (auto simp: is_item_def [abs_def])
  have new: "is_item kind' name' \<lparr>id_kind = kind, id_name = name, id_answer = a\<rparr> \<longleftrightarrow> kind' = kind \<and> name' = name" for a
    by (auto simp: is_item_def)
  have self: "is_item kind name \<lparr>id_kind = kind, id_name = name, id_answer = a\<rparr>" for a
    by (simp add: is_item_def)
  show ?thesis
    by (cases ans; cases "find (is_item kind' name') (listed before)") (auto simp: listed_update k app flt new self)
qed

lemma set_decision_answer:
  assumes "set_decision e base kind name ans m = (Inr True, m')" "codec_ok e"
  shows "decision_for e m' base kind' name' =
    (if kind' = kind \<and> name' = name then ans else decision_for e m base kind' name')"
proof -
  have d: "decision_for e m'' base kind' name' = map_option id_answer (find (is_item kind' name')
      (listed (te_decisions en)))" if "map_of (load_store e m'') (key_for e base) = Some en" for m'' en
    using that by (simp add: decision_for_def decisions_for_def)
  show ?thesis
  proof (rule set_decision_cases [OF assms])
    fix old assume a: "map_of (load_store e m) (key_for e base) = Some old" "m' = m"
      "te_decisions old = update_decisions kind name ans (te_decisions old)"
    show ?thesis
      unfolding a(2) d [OF a(1)] by (subst a(3)) (simp add: find_update_decisions option.map_comp comp_def option.map_ident)
  next
    fix old assume a: "map_of (load_store e m) (key_for e base) = Some old"
      "map_of (load_store e m') = (map_of (load_store e m))(key_for e base \<mapsto>
         old\<lparr>te_decisions := update_decisions kind name ans (te_decisions old)\<rparr>)"
    then have "map_of (load_store e m') (key_for e base) = Some (old\<lparr>te_decisions := update_decisions kind name ans (te_decisions old)\<rparr>)"
      by simp
    then show ?thesis
      unfolding d [OF a(1)] d by (simp add: d find_update_decisions option.map_comp comp_def option.map_ident)
  qed auto
qed

section \<open>Sequences of operations\<close>

text \<open>
  The store lock serializes the operations of all processes, so a history is a list of operations,
  each with the surroundings it ran in (another clock, another failure, another lock outcome).
\<close>

datatype trust_op =
    OpUnreviewed string "string option"
  | OpReviewed string string "surface_item list"
  | OpConsent string "string option" "surface_item list" string
  | OpRepin string string
  | OpDecide string string string "answer option"
  | OpRevoke string

fun exec_op :: "'f env \<times> trust_op \<Rightarrow> 'f machine \<Rightarrow> 'f machine" where
  "exec_op (e, OpUnreviewed base current) m = snd (trust_unreviewed e base current m)"
| "exec_op (e, OpReviewed base digest surface) m = snd (trust_reviewed e base digest surface m)"
| "exec_op (e, OpConsent base current surface consented) m = snd (trust_with_consent e base current surface consented m)"
| "exec_op (e, OpRepin base digest) m = snd (repin e base digest m)"
| "exec_op (e, OpDecide base kind name answer) m = snd (set_decision e base kind name answer m)"
| "exec_op (e, OpRevoke base) m = snd (revoke e base m)"

definition run_ops :: "('f env \<times> trust_op) list \<Rightarrow> 'f machine \<Rightarrow> 'f machine" where
  "run_ops ops m = fold exec_op ops m"

text \<open>The operations that consent to a digest of a project, and those that carry an entry over.\<close>

fun grants :: "'f env \<times> trust_op \<Rightarrow> string \<Rightarrow> string \<Rightarrow> bool" where
  "grants (e, OpUnreviewed base current) key digest \<longleftrightarrow> key_for e base = key \<and> current = Some digest"
| "grants (e, OpReviewed base d surface) key digest \<longleftrightarrow> key_for e base = key \<and> d = digest"
| "grants (e, OpConsent base current surface consented) key digest \<longleftrightarrow>
     key_for e base = key \<and> current = Some digest \<and> consented = digest"
| "grants (e, op) key digest \<longleftrightarrow> False"

fun repins :: "'f env \<times> trust_op \<Rightarrow> string \<Rightarrow> string \<Rightarrow> bool" where
  "repins (e, OpRepin base d) key digest \<longleftrightarrow> key_for e base = key \<and> d = digest"
| "repins (e, op) key digest \<longleftrightarrow> False"

definition stored :: "('f \<Rightarrow> trust_store option) \<Rightarrow> 'f machine \<Rightarrow> trust_store" where
  "stored parse m = (case mc_file m of None \<Rightarrow> [] | Some t \<Rightarrow> (case parse t of Some s \<Rightarrow> s | None \<Rightarrow> []))"

lemma load_stored: "en_parse e = parse \<Longrightarrow> load_store e m = stored parse m"
  by (auto simp: load_store_def stored_def split: option.split)

definition pinned :: "('f \<Rightarrow> trust_store option) \<Rightarrow> 'f machine \<Rightarrow> string \<Rightarrow> string option" where
  "pinned parse m key = map_option te_digest (map_of (stored parse m) key)"

lemma pinned_load: "en_parse e = parse \<Longrightarrow> pinned parse m key = map_option te_digest (map_of (load_store e m) key)"
  by (simp add: pinned_def load_stored)

lemma check_pinned: "en_parse e = parse \<Longrightarrow>
   check_digest e m base (Some d) = Trusted \<longleftrightarrow> pinned parse m (key_for e base) = Some d"
  by (auto simp: check_digest_def pinned_load split: option.splits)

lemma store_entry_pinned:
  assumes "store_entry e base digest surface m = (r, m')" "codec_ok e" "en_parse e = parse"
  shows "pinned parse m' key = pinned parse m key \<or> (key_for e base = key \<and> pinned parse m' key = Some digest)"
  by (rule store_entry_cases [OF assms(1,2)]) (auto simp: pinned_load [OF assms(3)])

lemma exec_op_pinned:
  assumes "codec_ok e" "en_parse e = parse" "pinned parse (exec_op (e, op) m) key = Some d"
  shows "pinned parse m key = Some d \<or> grants (e, op) key d \<or> (repins (e, op) key d \<and> pinned parse m key \<noteq> None)"
proof (cases op)
  case (OpUnreviewed base current)
  show ?thesis
  proof (cases current)
    case None
    with OpUnreviewed assms(3) show ?thesis by (simp add: trust_unreviewed_def)
  next
    case (Some digest)
    obtain r m' where st: "store_entry e base digest None m = (r, m')" by fastforce
    from store_entry_pinned [OF st assms(1,2), of key] show ?thesis
      using OpUnreviewed Some assms(3) by (auto simp: trust_unreviewed_def st)
  qed
next
  case (OpReviewed base digest surface)
  obtain r m' where st: "store_entry e base digest (Some surface) m = (r, m')" by fastforce
  from store_entry_pinned [OF st assms(1,2), of key] show ?thesis
    using OpReviewed assms(3) by (auto simp: trust_reviewed_def st)
next
  case (OpConsent base current surface consented)
  obtain r m' where r: "trust_with_consent e base current surface consented m = (r, m')" by fastforce
  have "pinned parse m' key = Some d" using assms(3) by (simp add: OpConsent r)
  with r show ?thesis
    using OpConsent
    by (cases rule: consent_cases) (auto dest!: store_entry_pinned [OF _ assms(1,2), of _ _ _ _ _ _ key])
next
  case (OpRepin base digest)
  obtain r m' where r: "repin e base digest m = (r, m')" by fastforce
  from r assms(1) show ?thesis
    using OpRepin assms(3) by (cases rule: repin_cases) (auto simp: r pinned_load [OF assms(2)] split: if_splits)
next
  case (OpDecide base kind name ans)
  obtain r m' where r: "set_decision e base kind name ans m = (r, m')" by fastforce
  from r assms(1) show ?thesis
    using OpDecide assms(3) by (cases rule: set_decision_cases) (auto simp: r pinned_load [OF assms(2)] split: if_splits)
next
  case (OpRevoke base)
  obtain r m' where r: "revoke e base m = (r, m')" by fastforce
  from r assms(1) show ?thesis
    using OpRevoke assms(3) by (cases rule: revoke_cases) (auto simp: r pinned_load [OF assms(2)] split: if_splits)
qed

definition history_ok :: "('f \<Rightarrow> trust_store option) \<Rightarrow> ('f env \<times> trust_op) list \<Rightarrow> bool" where
  "history_ok parse ops \<longleftrightarrow> (\<forall>(e, op) \<in> set ops. codec_ok e \<and> en_parse e = parse)"

lemma pinned_history:
  assumes "history_ok parse ops" "pinned parse m key = None" "pinned parse (run_ops ops m) key = Some d"
  shows "(\<exists>x \<in> set ops. \<exists>d'. grants x key d') \<and> (\<exists>x \<in> set ops. grants x key d \<or> repins x key d)"
  using assms
proof (induction ops arbitrary: d rule: rev_induct)
  case Nil
  then show ?case by (simp add: run_ops_def)
next
  case (snoc x ops)
  obtain e op where x: "x = (e, op)" by fastforce
  with snoc.prems have e: "codec_ok e" "en_parse e = parse" and h: "history_ok parse ops"
    by (auto simp: history_ok_def)
  have "pinned parse (exec_op (e, op) (run_ops ops m)) key = Some d"
    using snoc.prems(3) by (simp add: run_ops_def x)
  from exec_op_pinned [OF e this] show ?case
    using snoc.IH [OF h snoc.prems(2)] x by fastforce
qed

section \<open>Samples\<close>

text \<open>Surroundings whose store file is the store itself; the codec refuses a store with a repeated key.\<close>

definition sample_env :: "trust_store env" where
  "sample_env = \<lparr>en_canonicalize = Some, en_parse = (\<lambda>s. if distinct (map fst s) then Some s else None),
     en_print = Inr, en_write = Inr (), en_lock = Inr (), en_log_ok = True, en_now = 7\<rparr>"

lemma sample_codec: "codec_ok sample_env"
  by (auto simp: codec_ok_def sample_env_def split: if_splits)

definition sample_machine :: "trust_store machine" where
  "sample_machine = \<lparr>mc_file = None, mc_log = []\<rparr>"

lemma sample_fields [simp]:
  "en_lock sample_env = Inr ()" "en_print sample_env store = Inr store" "en_write sample_env = Inr ()"
  by (simp_all add: sample_env_def)

lemma sample_save: "save_and_record sample_env store action key d v m =
    (Inr v, snd (save_and_record sample_env store action key d v m))"
  by (simp add: save_and_record_def save_store_def)

definition granted_machine :: "trust_store machine" where
  "granted_machine = snd (trust_reviewed sample_env ''p'' ''d'' [] sample_machine)"

lemma sample_load: "load_store sample_env sample_machine = []"
  by (simp add: load_store_def sample_machine_def)

lemma sample_grant: "store_entry sample_env ''p'' ''d'' (Some []) sample_machine = (Inr (), granted_machine)"
  by (simp add: granted_machine_def trust_reviewed_def store_entry_def with_store_lock_def sample_load Let_def)
    (subst sample_save, simp)

section \<open>Properties\<close>

text \<open>C4.
  Trust is never self-made: over any interleaving of operations of any processes, starting from a project
  without an entry, a digest comes to be trusted only if some operation granted the project, and that very
  digest was granted or re-pinned. Re-pinning, answering and revoking alone never create an entry.\<close>

theorem trust_requires_grant:
  assumes "history_ok parse ops" "en_parse e = parse" "pinned parse m (key_for e base) = None"
    and "check_digest e (run_ops ops m) base (Some d) = Trusted"
  shows "(\<exists>x \<in> set ops. \<exists>d'. grants x (key_for e base) d') \<and>
    (\<exists>x \<in> set ops. grants x (key_for e base) d \<or> repins x (key_for e base) d)"
  using pinned_history [OF assms(1,3)] assms(4) check_pinned [OF assms(2)] by blast

theorem trust_requires_grant_witness:
  "\<exists>x \<in> set [(sample_env, OpReviewed ''p'' ''d'' [])]. \<exists>d'. grants x (key_for sample_env ''p'') d'"
proof -
  have h: "history_ok (en_parse sample_env) [(sample_env, OpReviewed ''p'' ''d'' [])]"
    by (simp add: history_ok_def sample_codec)
  have p: "pinned (en_parse sample_env) sample_machine (key_for sample_env ''p'') = None"
    by (simp add: pinned_load [OF refl] sample_load)
  have r: "run_ops [(sample_env, OpReviewed ''p'' ''d'' [])] sample_machine = granted_machine"
    by (simp add: run_ops_def trust_reviewed_def sample_grant)
  have "check_digest sample_env granted_machine ''p'' (Some ''d'') = Trusted"
    using store_entry_granted(1) [OF sample_grant sample_codec, of "Some ''d''"] by simp
  with trust_requires_grant [OF h refl p, of "''d''"] show ?thesis by (simp only: r)
qed

text \<open>C5.
  A consent-bound grant goes through only for the digest of the snapshot at hand, spelled exactly: then
  that digest is trusted, the reviewed surface is recorded and the standing answers are kept. A grant
  that is refused or fails leaves store and log as they were.\<close>

theorem consent_exact:
  assumes "trust_with_consent e base current surface consented m = (r, m')" "codec_ok e"
  shows "case r of
      Inr d \<Rightarrow> current = Some consented \<and> d = consented \<and> check_digest e m' base current = Trusted \<and>
        prior_surface e m' base = Recorded surface \<and> decisions_for e m' base = decisions_for e m base
    | Inl err \<Rightarrow> m' = m"
  using assms(1)
proof (cases rule: consent_cases)
  case (store s)
  show ?thesis
  proof (cases s)
    case (Inl err)
    from store(2) assms(2) have "m' = m" by (cases rule: store_entry_cases) (simp_all add: Inl)
    with store Inl show ?thesis by simp
  next
    case (Inr u)
    from store_entry_granted [OF store(2) [unfolded Inr] assms(2)] store Inr show ?thesis by simp
  qed
qed simp

theorem consent_exact_witness:
  "fst (trust_with_consent sample_env ''p'' (Some ''d'') [] ''d'' sample_machine) = Inr ''d'' \<and>
   check_digest sample_env granted_machine ''p'' (Some ''d'') = Trusted"
  using consent_exact [of sample_env "''p''" "Some ''d''" "[]" "''d''" sample_machine "Inr ''d''" granted_machine]
  by (simp add: trust_with_consent_def sample_grant sample_codec)

text \<open>C6.
  A reviewed grant holds for the reviewed bytes and no others: afterwards the project is trusted exactly
  when reading the manifest, the local overlay and the lock gives the snapshot that was granted, absence of
  a file included, provided SHA-256 does not collide on the granted stream and the one read now.\<close>

theorem trust_pins_bytes:
  assumes "snapshot_sized s"
    and "\<forall>t. read_snapshot read = Some t \<longrightarrow> snapshot_sized t \<and> inj_on sha256 {hashed_bytes t, hashed_bytes s}"
    and "trust_reviewed e base (snapshot_digest sha256 s) surface m = (Inr u, m')" "codec_ok e"
  shows "check_digest e m' base (digest_for sha256 read) = Trusted \<longleftrightarrow> read_snapshot read = Some s"
proof -
  have "check_digest e m' base (digest_for sha256 read) = Trusted \<longleftrightarrow>
      digest_for sha256 read = Some (snapshot_digest sha256 s)"
    using store_entry_granted(1) [OF assms(3) [unfolded trust_reviewed_def] assms(4)] by simp
  also have "\<dots> \<longleftrightarrow> read_snapshot read = Some s"
    using snapshot_digest_inj [OF _ _ _ assms(1)] assms(2) by (auto simp: digest_for_def)
  finally show ?thesis .
qed

definition sample_snapshot :: consent_snapshot where
  "sample_snapshot = \<lparr>cs_manifest = ''m'', cs_local = None, cs_lock = Some []\<rparr>"

definition sample_read :: "string option \<Rightarrow> string \<Rightarrow> string option" where
  "sample_read lcl name = (if name = ''agentstack.toml'' then Some ''m'' else if name = ''agentstack.lock'' then Some []
     else if name = ''agentstack.local.toml'' then lcl else None)"

theorem trust_pins_bytes_witness:
  "check_digest sample_env (snd (trust_reviewed sample_env ''p'' (snapshot_digest (sample_sum (hashed_bytes sample_snapshot)) sample_snapshot) [] sample_machine))
     ''p'' (digest_for (sample_sum (hashed_bytes sample_snapshot)) (sample_read (Some []))) \<noteq> Trusted"
proof -
  let ?h = "sample_sum (hashed_bytes sample_snapshot)"
  let ?r = "trust_reviewed sample_env ''p'' (snapshot_digest ?h sample_snapshot) [] sample_machine"
  have g: "?r = (Inr (), snd ?r)"
    by (simp add: trust_reviewed_def store_entry_def with_store_lock_def sample_load Let_def)
    (subst sample_save, simp)
  have sn: "read_snapshot (sample_read l) = Some \<lparr>cs_manifest = ''m'', cs_local = l, cs_lock = Some []\<rparr>" for l
    by (simp add: read_snapshot_def sample_read_def)
  have j: "inj_on ?h {v, hashed_bytes sample_snapshot}" for v
    by (subst insert_commute) (rule sample_sum_inj)
  have "snapshot_sized sample_snapshot" by (simp add: snapshot_sized_def sized_def sample_snapshot_def)
  moreover have "\<forall>t. read_snapshot (sample_read (Some [])) = Some t \<longrightarrow>
      snapshot_sized t \<and> inj_on ?h {hashed_bytes t, hashed_bytes sample_snapshot}"
    using j by (auto simp: sn snapshot_sized_def sized_def simp del: inj_on_insert)
  ultimately show ?thesis
    using trust_pins_bytes [OF _ _ g sample_codec, of "sample_read (Some [])"] sn [of "Some []"]
    by (simp add: sample_snapshot_def)
qed

text \<open>
  Revoking removes the project's entry and nothing else: the project is untrusted for every digest and has
  no recorded surface and no standing answer, every other project reads as before, and the result says
  whether there was an entry.\<close>

theorem revoke_forgets:
  assumes "revoke e base m = (Inr existed, m')" "codec_ok e"
  shows "check_digest e m' base current = Untrusted \<and> prior_surface e m' base = NeverTrusted \<and>
    decisions_for e m' base = [] \<and> (existed \<longleftrightarrow> check_digest e m base current \<noteq> Untrusted) \<and>
    (key_for e other = key_for e base \<or> check_digest e m' other d = check_digest e m other d)"
  using assms
  by (cases rule: revoke_cases)
    (auto simp: check_digest_def prior_surface_def decisions_for_def split: option.splits if_splits)

theorem revoke_forgets_witness:
  "check_digest sample_env (snd (revoke sample_env ''p'' granted_machine)) ''p'' (Some ''d'') = Untrusted"
proof -
  obtain old where "map_of (load_store sample_env granted_machine) (key_for sample_env ''p'') = Some old"
    using sample_grant sample_codec by (cases rule: store_entry_cases) simp_all
  then have "revoke sample_env ''p'' granted_machine = (Inr True, snd (revoke sample_env ''p'' granted_machine))"
    by (simp add: revoke_def with_store_lock_def Let_def)
      (subst sample_save, simp)
  from revoke_forgets [OF this sample_codec] show ?thesis by simp
qed

text \<open>
  A standing answer is what was last recorded for its item, other items' answers are untouched, and a new
  grant of the project, to whatever digest, carries all of them over.\<close>

theorem standing_answer_kept:
  assumes "set_decision e base kind name ans m = (Inr True, m1)"
    and "store_entry e' base digest surface m1 = (Inr u, m2)"
    and "codec_ok e" "codec_ok e'" "en_parse e' = en_parse e" "key_for e' base = key_for e base"
  shows "decision_for e' m2 base kind' name' =
    (if kind' = kind \<and> name' = name then ans else decision_for e m base kind' name')"
proof -
  have load: "load_store e' m1 = load_store e m1" unfolding load_store_def assms(5) ..
  have "decisions_for e' m2 base = decisions_for e m1 base"
    using store_entry_granted(3) [OF assms(2,4)] load
    by (simp add: decisions_for_def assms(6))
  then show ?thesis using set_decision_answer [OF assms(1,3)] by (simp add: decision_for_def)
qed

theorem standing_answer_kept_witness:
  "decision_for sample_env (snd (store_entry sample_env ''p'' ''d2'' None
      (snd (set_decision sample_env ''p'' ''skill'' ''x'' (Some Blocked) granted_machine)))) ''p'' ''skill'' ''x'' = Some Blocked"
proof -
  obtain old where "map_of (load_store sample_env granted_machine) (key_for sample_env ''p'') = Some old" "te_decisions old = None"
    using sample_grant sample_codec by (cases rule: store_entry_cases) (simp_all add: sample_load)
  then have s: "set_decision sample_env ''p'' ''skill'' ''x'' (Some Blocked) granted_machine =
      (Inr True, snd (set_decision sample_env ''p'' ''skill'' ''x'' (Some Blocked) granted_machine))"
    by (simp add: set_decision_def with_store_lock_def Let_def update_decisions_def listed_def)
      (subst sample_save, simp)
  let ?m1 = "snd (set_decision sample_env ''p'' ''skill'' ''x'' (Some Blocked) granted_machine)"
  have g: "store_entry sample_env ''p'' ''d2'' None ?m1 = (Inr (), snd (store_entry sample_env ''p'' ''d2'' None ?m1))"
    unfolding store_entry_def with_store_lock_def sample_fields sum.case Let_def by (rule sample_save)
  from standing_answer_kept [OF s g sample_codec sample_codec refl refl] show ?thesis by simp
qed

end
