(* ===== verification/Digest.thy ===== *)
theory Digest
  imports Framing
begin

text \<open>
  The content digests of crates/core/src/digest.rs: validated digest strings, the lenient walk behind
  a skill directory's digest, the strict walk behind an integrity root, and the resolution of a
  declared path inside the project. A file tree is a value; a directory lists its entries in the order
  the system returns them. SHA-256 is a parameter.
\<close>

section \<open>Digest strings\<close>

datatype sha256_hex = Sha256Hex (hex: string)

datatype digest_error =
    NotADigest string
  | TooDeep
  | Unreadable "string list"
  | SymlinkAt "string list"
  | NotRegularAt "string list"
  | EmptyPath
  | AbsolutePath string
  | TraversalPath string
  | ProjectRootPath string

definition parse_sha256 :: "string \<Rightarrow> (sha256_hex, digest_error) result" where
  "parse_sha256 s =
     (let h = (case strip_prefix ''sha256:'' s of Some r \<Rightarrow> r | None \<Rightarrow> s)
      in if length h = 64 \<and> list_all is_ascii_hexdigit h then Inr (Sha256Hex (to_ascii_lowercase h))
         else Inl (NotADigest s))"

section \<open>File trees\<close>

text \<open>
  What an entry can be. A special file (a FIFO, a socket, a device) carries what reading it would give;
  \<open>Unlistable\<close> is a directory whose listing fails.
\<close>

datatype node =
    Regular string
  | Directory "(string \<times> node) list"
  | Symlink string
  | Special "string option"
  | Unlistable

type_synonym path = "string list"
type_synonym entries = "(string \<times> node) list"

fun node_at :: "node \<Rightarrow> path \<Rightarrow> node option" where
  "node_at x [] = Some x"
| "node_at (Directory es) (n # p) = (case map_of es n of None \<Rightarrow> None | Some y \<Rightarrow> node_at y p)"
| "node_at _ (n # p) = None"

fun read_node :: "node \<Rightarrow> string option" where
  "read_node (Regular bytes) = Some bytes"
| "read_node (Special bytes) = bytes"
| "read_node _ = None"

definition MAX_DIRECTORY_DEPTH :: nat where
  "MAX_DIRECTORY_DEPTH = 64"

definition path_bytes :: "path \<Rightarrow> string" where
  "path_bytes p = join_with ''/'' p"

section \<open>The lenient walk\<close>

text \<open>
  The files below the directory reached by \<open>at\<close>, whose listing is given: \<open>.git\<close> is left out and a
  symbolic link is skipped. The recursive call checks the depth before it lists.
\<close>

function collect_files_at_depth :: "path \<Rightarrow> nat \<Rightarrow> entries \<Rightarrow> (path list, digest_error) result" where
  "collect_files_at_depth dir depth [] = Inr []"
| "collect_files_at_depth dir depth ((name, x) # rest) =
     (if name = ''.git'' then collect_files_at_depth dir depth rest
      else case x of
        Symlink _ \<Rightarrow> collect_files_at_depth dir depth rest
      | Directory es \<Rightarrow>
          if MAX_DIRECTORY_DEPTH < depth + 1 then Inl TooDeep
          else and_then (collect_files_at_depth (dir @ [name]) (depth + 1) es) (\<lambda>inner.
                 and_then (collect_files_at_depth dir depth rest) (\<lambda>others. Inr (inner @ others)))
      | Unlistable \<Rightarrow>
          if MAX_DIRECTORY_DEPTH < depth + 1 then Inl TooDeep else Inl (Unreadable (dir @ [name]))
      | _ \<Rightarrow> and_then (collect_files_at_depth dir depth rest) (\<lambda>others. Inr ((dir @ [name]) # others)))"
  by pat_completeness auto
termination
  by (relation "measure (\<lambda>(_, _, es). size_list (size_prod (\<lambda>_. 0) size) es)") auto

definition collect_files :: "node \<Rightarrow> (path list, digest_error) result" where
  "collect_files root = (case root of Directory es \<Rightarrow> collect_files_at_depth [] 0 es | _ \<Rightarrow> Inl (Unreadable []))"

text \<open>The paths with what reading them gives, in order; the first failing read is the result.\<close>

fun read_files :: "node \<Rightarrow> path list \<Rightarrow> ((string \<times> string) list, digest_error) result" where
  "read_files root [] = Inr []"
| "read_files root (rel # rels) =
     and_then (ok_or (Unreadable rel) (Option.bind (node_at root rel) read_node)) (\<lambda>bytes.
       and_then (read_files root rels) (\<lambda>others. Inr ((path_bytes rel, bytes) # others)))"

definition DIR_DIGEST_DOMAIN :: string where
  "DIR_DIGEST_DOMAIN = ''agentstack-dir-digest-v2'' @ [CHR 0x00]"

definition dir_digest :: "(string \<Rightarrow> string) \<Rightarrow> node \<Rightarrow> (sha256_hex, digest_error) result" where
  "dir_digest sha256 root =
     and_then (collect_files root) (\<lambda>files.
       and_then (read_files root (sort files)) (\<lambda>contents.
         Inr (Sha256Hex (sha256 (DIR_DIGEST_DOMAIN @ framed_files contents)))))"

section \<open>Paths inside the project\<close>

datatype component = RootDir | CurDir | ParentDir | Normal string

text \<open>\<open>Path::components\<close> on Unix: empty segments go, and so does \<open>.\<close> except at the start.\<close>

definition components :: "string \<Rightarrow> component list" where
  "components s =
     (let segs = split_on (CHR ''/'') s;
          lead = (if starts_with s ''/'' then [RootDir] else if hd segs = ''.'' then [CurDir] else [])
      in lead @ map (\<lambda>seg. if seg = ''..'' then ParentDir else Normal seg)
                   (filter (\<lambda>seg. seg \<noteq> [] \<and> seg \<noteq> ''.'') segs))"

fun resolve_components :: "node \<Rightarrow> string \<Rightarrow> path \<Rightarrow> component list \<Rightarrow> (path, digest_error) result" where
  "resolve_components root declared resolved [] = Inr resolved"
| "resolve_components root declared resolved (CurDir # cs) = resolve_components root declared resolved cs"
| "resolve_components root declared resolved (Normal part # cs) =
     (let resolved = resolved @ [part] in
      case node_at root resolved of
        None \<Rightarrow> Inl (Unreadable resolved)
      | Some (Symlink _) \<Rightarrow> Inl (SymlinkAt resolved)
      | Some _ \<Rightarrow> resolve_components root declared resolved cs)"
| "resolve_components root declared resolved (c # cs) = Inl (TraversalPath declared)"

text \<open>The result is relative to the project root.\<close>

definition resolve_contained :: "node \<Rightarrow> string \<Rightarrow> (path, digest_error) result" where
  "resolve_contained root declared =
     (if declared = [] then Inl EmptyPath
      else if starts_with declared ''/'' then Inl (AbsolutePath declared)
      else and_then (resolve_components root declared [] (components declared)) (\<lambda>resolved.
             if resolved = [] then Inl (ProjectRootPath declared) else Inr resolved))"

definition contained_file_digest :: "(string \<Rightarrow> string) \<Rightarrow> node \<Rightarrow> string \<Rightarrow> (sha256_hex, digest_error) result" where
  "contained_file_digest sha256 root declared =
     and_then (resolve_contained root declared) (\<lambda>p.
       case node_at root p of
         Some (Regular bytes) \<Rightarrow> Inr (Sha256Hex (sha256 bytes))
       | Some _ \<Rightarrow> Inl (NotRegularAt p)
       | None \<Rightarrow> Inl (Unreadable p))"

section \<open>The strict walk\<close>

text \<open>Nothing is left out, and anything but a regular file or a directory is an error.\<close>

function collect_files_rejecting_symlinks :: "path \<Rightarrow> nat \<Rightarrow> entries \<Rightarrow> (path list, digest_error) result" where
  "collect_files_rejecting_symlinks dir depth [] = Inr []"
| "collect_files_rejecting_symlinks dir depth ((name, x) # rest) =
     (case x of
        Symlink _ \<Rightarrow> Inl (SymlinkAt (dir @ [name]))
      | Directory es \<Rightarrow>
          if MAX_DIRECTORY_DEPTH < depth + 1 then Inl TooDeep
          else and_then (collect_files_rejecting_symlinks (dir @ [name]) (depth + 1) es) (\<lambda>inner.
                 and_then (collect_files_rejecting_symlinks dir depth rest) (\<lambda>others. Inr (inner @ others)))
      | Unlistable \<Rightarrow>
          if MAX_DIRECTORY_DEPTH < depth + 1 then Inl TooDeep else Inl (Unreadable (dir @ [name]))
      | Regular _ \<Rightarrow>
          and_then (collect_files_rejecting_symlinks dir depth rest) (\<lambda>others. Inr ((dir @ [name]) # others))
      | Special _ \<Rightarrow> Inl (NotRegularAt (dir @ [name])))"
  by pat_completeness auto
termination
  by (relation "measure (\<lambda>(_, _, es). size_list (size_prod (\<lambda>_. 0) size) es)") auto

text \<open>The resolved root, and the sorted files below it relative to it; a file root has the empty path.\<close>

definition integrity_root_files :: "node \<Rightarrow> string \<Rightarrow> (path \<times> path list, digest_error) result" where
  "integrity_root_files root declared =
     and_then (resolve_contained root declared) (\<lambda>p.
       case node_at root p of
         Some (Directory es) \<Rightarrow> and_then (collect_files_rejecting_symlinks [] 0 es) (\<lambda>files. Inr (p, sort files))
       | Some (Regular _) \<Rightarrow> Inr (p, [[]])
       | Some Unlistable \<Rightarrow> Inl (Unreadable p)
       | Some _ \<Rightarrow> Inl (NotRegularAt p)
       | None \<Rightarrow> Inl (Unreadable p))"

definition INTEGRITY_ROOT_DOMAIN :: string where
  "INTEGRITY_ROOT_DOMAIN = ''agentstack-integrity-root-v1'' @ [CHR 0x00]"

definition integrity_root_digest :: "(string \<Rightarrow> string) \<Rightarrow> node \<Rightarrow> string \<Rightarrow> (sha256_hex, digest_error) result" where
  "integrity_root_digest sha256 root declared =
     and_then (integrity_root_files root declared) (\<lambda>(p, files).
       case node_at root p of
         None \<Rightarrow> Inl (Unreadable p)
       | Some x \<Rightarrow>
           and_then (read_files x files) (\<lambda>contents.
             Inr (Sha256Hex (sha256 (INTEGRITY_ROOT_DOMAIN @ framed_files contents)))))"

section \<open>What the walks collect\<close>

definition name_ok :: "string \<Rightarrow> bool" where
  "name_ok n \<longleftrightarrow> n \<noteq> [] \<and> CHR ''/'' \<notin> set n"

text \<open>What a file system guarantees: the entries of a directory have distinct, proper names.\<close>

fun wf_node :: "node \<Rightarrow> bool" where
  "wf_node (Directory es) \<longleftrightarrow> distinct (map fst es) \<and> list_all (\<lambda>(n, x). name_ok n \<and> wf_node x) es"
| "wf_node _ \<longleftrightarrow> True"

fun is_leaf :: "node \<Rightarrow> bool" where
  "is_leaf (Regular _) = True"
| "is_leaf (Special _) = True"
| "is_leaf _ = False"

lemma node_at_append: "node_at x (p @ q) = Option.bind (node_at x p) (\<lambda>y. node_at y q)"
  by (induction x p rule: node_at.induct) (auto split: option.splits)

lemma node_at_Cons: "node_at (Directory es) (n # p) = Some y \<longleftrightarrow> (\<exists>x. map_of es n = Some x \<and> node_at x p = Some y)"
  by (auto split: option.splits)

lemma node_at_Nil_entries [simp]: "node_at (Directory []) p = Some x \<longleftrightarrow> p = [] \<and> x = Directory []"
  by (cases p) auto

lemma node_at_leaf: "\<not> (\<exists>es. x = Directory es) \<Longrightarrow> node_at x p = Some y \<longleftrightarrow> p = [] \<and> y = x"
  by (cases p; cases x) auto

text \<open>The paths below a listing that a walk may report: those that avoid the names it leaves out.\<close>

definition leaves :: "(string \<Rightarrow> bool) \<Rightarrow> entries \<Rightarrow> path set" where
  "leaves out es = {p. \<exists>x. node_at (Directory es) p = Some x \<and> is_leaf x \<and> list_all (\<lambda>n. \<not> out n) p}"

lemma leaves_Nil [simp]: "leaves out [] = {}"
  by (auto simp: leaves_def)

lemma leaves_Cons:
  assumes "n \<notin> fst ` set es"
  shows "leaves out ((n, x) # es) =
    (if out n then {} else case x of
       Directory es' \<Rightarrow> (#) n ` leaves out es'
     | y \<Rightarrow> if is_leaf y then {[n]} else {}) \<union> leaves out es"
proof -
  have ne: "p \<in> leaves out es' \<Longrightarrow> p \<noteq> []" for p es' by (auto simp: leaves_def)
  have m: "map_of es n = None" using assms by (simp add: map_of_eq_None_iff)
  have "p \<in> leaves out ((n, x) # es) \<longleftrightarrow> p \<in> (if out n then {} else case x of
       Directory es' \<Rightarrow> (#) n ` leaves out es'
     | y \<Rightarrow> if is_leaf y then {[n]} else {}) \<union> leaves out es" for p
  proof (cases p)
    case Nil
    then show ?thesis using ne by (auto simp: leaves_def split: node.splits)
  next
    case (Cons k q)
    show ?thesis
    proof (cases "k = n")
      case True
      then have "p \<notin> leaves out es" using Cons m by (auto simp: leaves_def)
      moreover have "p \<in> leaves out ((n, x) # es) \<longleftrightarrow> \<not> out n \<and> (\<exists>y. node_at x q = Some y \<and> is_leaf y \<and> list_all (\<lambda>n. \<not> out n) q)"
        using Cons True by (auto simp: leaves_def)
      ultimately show ?thesis
        using Cons True by (cases x) (auto simp: leaves_def node_at_leaf)
    next
      case False
      then show ?thesis using Cons by (auto simp: leaves_def split: node.splits)
    qed
  qed
  then show ?thesis by blast
qed

text \<open>The listing both walks produce when they succeed.\<close>

function listing :: "(string \<Rightarrow> bool) \<Rightarrow> path \<Rightarrow> entries \<Rightarrow> path list" where
  "listing out dir [] = []"
| "listing out dir ((n, x) # rest) =
     (if out n then [] else case x of
        Directory es \<Rightarrow> listing out (dir @ [n]) es
      | y \<Rightarrow> if is_leaf y then [dir @ [n]] else []) @ listing out dir rest"
  by pat_completeness auto
termination
  by (relation "measure (\<lambda>(_, _, es). size_list (size_prod (\<lambda>_. 0) size) es)") auto

lemma listing_leaves:
  "wf_node (Directory es) \<Longrightarrow> distinct (listing out dir es) \<and> set (listing out dir es) = (@) dir ` leaves out es"
proof (induction out dir es rule: listing.induct)
  case (1 out dir)
  then show ?case by simp
next
  case (2 out dir name x rest)
  from "2.prems" have wr: "wf_node (Directory rest)" and fresh: "name \<notin> fst ` set rest" and wx: "wf_node x" by auto
  note L = leaves_Cons [OF fresh, of out x]
  note r = "2.IH"(2) [OF wr]
  have "map_of rest name = None" using fresh by (simp add: map_of_eq_None_iff)
  then have new: "dir @ name # q \<notin> (@) dir ` leaves out rest" for q by (auto simp: leaves_def)
  show ?case
  proof (cases "out name")
    case True
    with r show ?thesis by (simp add: L)
  next
    case False
    show ?thesis
    proof (cases x)
      case (Directory es')
      with "2.IH"(1) [OF False Directory] wx r new False show ?thesis
        by (auto simp: leaves_Cons [OF fresh] image_image)
    qed (use r new False in \<open>auto simp: leaves_Cons [OF fresh]\<close>)
  qed
qed

lemma lenient_listing: "collect_files_at_depth dir depth es = Inr fs \<Longrightarrow> fs = listing (\<lambda>n. n = ''.git'') dir es"
proof (induction dir depth es arbitrary: fs rule: collect_files_at_depth.induct)
  case (2 dir depth name x rest)
  then show ?case by (cases x) (auto simp: and_then_Inr split: if_splits)
qed simp

text \<open>A tree without links, special files and unlistable directories.\<close>

fun plain_node :: "node \<Rightarrow> bool" where
  "plain_node (Regular _) = True"
| "plain_node (Directory es) = list_all (\<lambda>(n, x). plain_node x) es"
| "plain_node _ = False"

lemma strict_listing:
  "collect_files_rejecting_symlinks dir depth es = Inr fs \<Longrightarrow>
   fs = listing (\<lambda>_. False) dir es \<and> plain_node (Directory es)"
proof (induction dir depth es arbitrary: fs rule: collect_files_rejecting_symlinks.induct)
  case (2 dir depth name x rest)
  then show ?case by (cases x) (auto simp: and_then_Inr split: if_splits)
qed simp

section \<open>What the digests are over\<close>

definition visible_files :: "(string \<Rightarrow> bool) \<Rightarrow> node \<Rightarrow> (path \<times> string) set" where
  "visible_files out root =
     {(p, b). \<exists>x. node_at root p = Some x \<and> is_leaf x \<and> list_all (\<lambda>n. \<not> out n) p \<and> read_node x = Some b}"

definition read_at :: "node \<Rightarrow> path \<Rightarrow> string option" where
  "read_at root p = Option.bind (node_at root p) read_node"

definition stream :: "node \<Rightarrow> path list \<Rightarrow> string" where
  "stream root ps = framed_files (map (\<lambda>p. (path_bytes p, the (read_at root p))) (sort ps))"

definition sized_files :: "(path \<times> string) set \<Rightarrow> bool" where
  "sized_files fs \<longleftrightarrow> (\<forall>(p, b) \<in> fs. length (path_bytes p) < 2 ^ 64 \<and> length b < 2 ^ 64)"

lemma read_files_Inr:
  "read_files root ps = Inr cs \<longleftrightarrow>
     (\<forall>p \<in> set ps. read_at root p \<noteq> None) \<and> cs = map (\<lambda>p. (path_bytes p, the (read_at root p))) ps"
proof (induction ps arbitrary: cs)
  case (Cons p ps)
  then show ?case by (cases "read_at root p") (auto simp: and_then_Inr read_at_def [symmetric])
qed auto

lemma wf_names: "wf_node x \<Longrightarrow> node_at x p = Some y \<Longrightarrow> list_all name_ok p"
proof (induction x p rule: node_at.induct)
  case (2 es n p)
  then obtain z where z: "map_of es n = Some z" "node_at z p = Some y" by (auto split: option.splits)
  from z(1) have "(n, z) \<in> set es" by (rule map_of_SomeD)
  with 2 z show ?case by (auto simp: list_all_iff)
qed auto

lemma split_join:
  "ps \<noteq> [] \<Longrightarrow> list_all (\<lambda>p. c \<notin> set p) ps \<Longrightarrow> split_on c (join_with [c] ps) = ps"
proof (induction ps)
  case (Cons p ps)
  then show ?case by (cases ps) (simp_all add: join_with_def)
qed simp

lemma path_bytes_inj:
  "path_bytes p = path_bytes q \<Longrightarrow> list_all name_ok p \<Longrightarrow> list_all name_ok q \<Longrightarrow> p = q"
proof -
  have ne: "path_bytes r = [] \<longleftrightarrow> r = []" if "list_all name_ok r" for r
    using that by (cases r) (auto simp: path_bytes_def join_with_def name_ok_def split: list.splits)
  have sp: "r \<noteq> [] \<Longrightarrow> list_all name_ok r \<Longrightarrow> split_on (CHR ''/'') (path_bytes r) = r" for r
    unfolding path_bytes_def by (rule split_join) (auto simp: name_ok_def list_all_iff)
  show "path_bytes p = path_bytes q \<Longrightarrow> list_all name_ok p \<Longrightarrow> list_all name_ok q \<Longrightarrow> p = q"
    using ne sp by metis
qed

lemma stream_eq:
  assumes "distinct ps" "distinct qs" "list_all (list_all name_ok) ps" "list_all (list_all name_ok) qs"
    and "sized_files ((\<lambda>p. (p, the (read_at a p))) ` set ps)" "sized_files ((\<lambda>p. (p, the (read_at b p))) ` set qs)"
  shows "stream a ps = stream b qs \<longleftrightarrow>
    (\<lambda>p. (p, the (read_at a p))) ` set ps = (\<lambda>p. (p, the (read_at b p))) ` set qs" (is "?l \<longleftrightarrow> ?F = ?G")
proof
  assume ?l
  then have eq: "map (\<lambda>p. (path_bytes p, the (read_at a p))) (sort ps) = map (\<lambda>p. (path_bytes p, the (read_at b p))) (sort qs)"
    unfolding stream_def by (rule framed_files_inj) (use assms(5,6) in \<open>auto simp: sized_files_def\<close>)
  have so: "sort ps = sort qs"
  proof (rule map_inj_on)
    show "map path_bytes (sort ps) = map path_bytes (sort qs)"
      using arg_cong [OF eq, of "map fst"] by (simp add: comp_def)
    show "inj_on path_bytes (set (sort ps) \<union> set (sort qs))"
      using assms(3,4) by (intro inj_onI path_bytes_inj) (auto simp: list_all_iff)
  qed
  have v: "the (read_at a p) = the (read_at b p)" if "p \<in> set qs" for p
    using eq that unfolding so by simp
  have "set ps = set qs" using arg_cong [OF so, of set] by simp
  then show "?F = ?G" using v by auto
next
  assume fg: "?F = ?G"
  have "set ps = set qs" using arg_cong [OF fg, of "image fst"] by (simp add: image_image)
  then have so: "sort ps = sort qs" using assms(1,2) by (simp add: sorted_distinct_set_unique)
  have "map (\<lambda>p. (path_bytes p, the (read_at a p))) (sort qs) = map (\<lambda>p. (path_bytes p, the (read_at b p))) (sort qs)"
    by (rule map_cong [OF refl]) (use fg \<open>set ps = set qs\<close> in auto)
  then show ?l unfolding stream_def so by (rule arg_cong)
qed

lemma visible_graph:
  assumes "\<forall>p \<in> leaves out es. read_at (Directory es) p \<noteq> None"
  shows "visible_files out (Directory es) = (\<lambda>p. (p, the (read_at (Directory es) p))) ` leaves out es"
  using assms by (fastforce simp: visible_files_def leaves_def read_at_def image_iff)

lemma lenient_digest:
  assumes "dir_digest sha256 root = Inr d" "wf_node root"
  obtains ps where "d = Sha256Hex (sha256 (DIR_DIGEST_DOMAIN @ stream root ps))" "distinct ps"
    "list_all (list_all name_ok) ps"
    "visible_files (\<lambda>n. n = ''.git'') root = (\<lambda>p. (p, the (read_at root p))) ` set ps"
proof -
  from assms(1) obtain es fs cs where r: "root = Directory es" and c: "collect_files_at_depth [] 0 es = Inr fs"
    and f: "read_files root (sort fs) = Inr cs" and d: "d = Sha256Hex (sha256 (DIR_DIGEST_DOMAIN @ framed_files cs))"
    by (auto simp: dir_digest_def collect_files_def and_then_Inr split: node.splits)
  have l: "distinct fs" "set fs = leaves (\<lambda>n. n = ''.git'') es"
    using listing_leaves [of es "\<lambda>n. n = ''.git''" "[]"] lenient_listing [OF c] assms(2) r by auto
  have "d = Sha256Hex (sha256 (DIR_DIGEST_DOMAIN @ stream root fs))" using f d by (simp add: read_files_Inr stream_def)
  moreover have "list_all (list_all name_ok) fs"
    using wf_names [OF assms(2)] l(2) r by (auto simp: list_all_iff leaves_def)
  moreover have "visible_files (\<lambda>n. n = ''.git'') root = (\<lambda>p. (p, the (read_at root p))) ` set fs"
    unfolding r l(2) by (rule visible_graph) (use f r l(2) in \<open>simp add: read_files_Inr\<close>)
  ultimately show ?thesis using that l(1) by blast
qed

lemma strict_digest:
  assumes "integrity_root_digest sha256 root declared = Inr d" "wf_node root"
  obtains p x ps where "resolve_contained root declared = Inr p" "node_at root p = Some x" "plain_node x"
    "d = Sha256Hex (sha256 (INTEGRITY_ROOT_DOMAIN @ stream x ps))" "distinct ps" "list_all (list_all name_ok) ps"
    "visible_files (\<lambda>_. False) x = (\<lambda>p. (p, the (read_at x p))) ` set ps"
proof -
  from assms(1) obtain p fs x cs where f: "integrity_root_files root declared = Inr (p, fs)"
    and x: "node_at root p = Some x" and c: "read_files x fs = Inr cs"
    and d: "d = Sha256Hex (sha256 (INTEGRITY_ROOT_DOMAIN @ framed_files cs))"
    by (auto simp: integrity_root_digest_def and_then_Inr split: option.splits)
  from f have p: "resolve_contained root declared = Inr p" by (cases "resolve_contained root declared") (auto simp: integrity_root_files_def and_then_Inr split: option.splits node.splits)
  show ?thesis
  proof (cases x)
    case (Regular b)
    with f x p have fs: "fs = [[]]" by (simp add: integrity_root_files_def)
    have v: "visible_files (\<lambda>_. False) x = (\<lambda>p. (p, the (read_at x p))) ` set [[]]"
      by (auto simp: Regular visible_files_def node_at_leaf read_at_def)
    show ?thesis
      by (rule that [OF p x _ _ _ _ v]) (use d c Regular fs in \<open>auto simp: read_files_Inr stream_def read_at_def\<close>)
  next
    case (Directory es)
    with f x p obtain gs where g: "collect_files_rejecting_symlinks [] 0 es = Inr gs" and fs: "fs = sort gs"
      by (auto simp: integrity_root_files_def and_then_Inr)
    have wx: "wf_node x" using assms(2) x
    proof (induction root p rule: node_at.induct)
      case (2 es n p)
      then obtain z where z: "map_of es n = Some z" "node_at z p = Some x" by (auto split: option.splits)
      from map_of_SomeD [OF z(1)] 2 z show ?case by (auto simp: list_all_iff)
    qed auto
    note l = listing_leaves [OF wx [unfolded Directory], of "\<lambda>_. False" "[]"] strict_listing [OF g]
    then have gs: "distinct gs" "set gs = leaves (\<lambda>_. False) es" by auto
    have v: "visible_files (\<lambda>_. False) x = (\<lambda>p. (p, the (read_at x p))) ` set gs"
      unfolding gs(2) Directory by (rule visible_graph) (use c fs gs Directory in \<open>simp add: read_files_Inr\<close>)
    have n: "list_all (list_all name_ok) gs"
      using wf_names [OF wx] gs(2) Directory by (auto simp: list_all_iff leaves_def)
    show ?thesis
      by (rule that [OF p x _ _ gs(1) n v]) (use d c fs l Directory in \<open>simp_all add: read_files_Inr stream_def\<close>)
  qed (use f x p in \<open>simp_all add: integrity_root_files_def\<close>)
qed

section \<open>Contained paths\<close>

text \<open>Every prefix of a resolved path exists and is not a symbolic link.\<close>

definition link_free :: "node \<Rightarrow> path \<Rightarrow> bool" where
  "link_free root p \<longleftrightarrow> (\<forall>k \<le> length p. \<exists>x. node_at root (take k p) = Some x \<and> \<not> (\<exists>t. x = Symlink t))"

lemma link_free_snoc:
  "link_free root (p @ [n]) \<longleftrightarrow> link_free root p \<and> (\<exists>x. node_at root (p @ [n]) = Some x \<and> \<not> (\<exists>t. x = Symlink t))"
  by (auto simp: link_free_def le_Suc_eq all_conj_distrib)

lemma resolve_components_Inr:
  "resolve_components root declared pre cs = Inr p \<Longrightarrow> link_free root pre \<Longrightarrow>
   link_free root p \<and> map Normal p = map Normal pre @ filter (\<lambda>c. c \<noteq> CurDir) cs"
proof (induction root declared pre cs rule: resolve_components.induct)
  case (3 root declared resolved part cs)
  from "3.prems"(1) obtain x where x: "node_at root (resolved @ [part]) = Some x" "\<not> (\<exists>t. x = Symlink t)"
    and r: "resolve_components root declared (resolved @ [part]) cs = Inr p"
    by (auto simp: Let_def split: option.splits node.splits)
  have "link_free root (resolved @ [part])" using "3.prems"(2) x by (simp add: link_free_snoc)
  with "3.IH" x r show ?case by (cases x) auto
qed auto

lemma components_Normal:
  "Normal n \<in> set (components s) \<Longrightarrow> n \<noteq> [] \<and> n \<noteq> ''.'' \<and> n \<noteq> ''..'' \<and> CHR ''/'' \<notin> set n"
proof -
  assume "Normal n \<in> set (components s)"
  then have n: "n \<in> set (split_on (CHR ''/'') s)" "n \<noteq> []" "n \<noteq> ''.''" "n \<noteq> ''..''"
    by (auto simp: components_def Let_def simp del: split_by.simps split: if_splits)
  have "CHR ''/'' \<notin> set n" using split_by_pieces [OF n(1), of "CHR ''/''"] by blast
  with n show ?thesis by blast
qed

lemma resolve_contained_Inr:
  assumes "resolve_contained root declared = Inr p" "\<not> (\<exists>t. root = Symlink t)"
  shows "p \<noteq> [] \<and> link_free root p \<and> list_all (\<lambda>n. name_ok n \<and> n \<noteq> ''.'' \<and> n \<noteq> ''..'') p \<and>
    map Normal p = filter (\<lambda>c. c \<noteq> CurDir) (components declared)"
proof -
  from assms(1) have r: "resolve_components root declared [] (components declared) = Inr p" and ne: "p \<noteq> []"
    by (auto simp: resolve_contained_def and_then_Inr split: if_splits)
  have "link_free root []" using assms(2) by (simp add: link_free_def)
  from resolve_components_Inr [OF r this] have l: "link_free root p"
    and m: "map Normal p = filter (\<lambda>c. c \<noteq> CurDir) (components declared)" by simp_all
  have "Normal n \<in> set (components declared)" if "n \<in> set p" for n
    using that m by (metis filter_is_subset imageI list.set_map subsetD)
  then have "list_all (\<lambda>n. name_ok n \<and> n \<noteq> ''.'' \<and> n \<noteq> ''..'') p"
    using components_Normal by (auto simp: list_all_iff name_ok_def)
  with ne l m show ?thesis by blast
qed

lemma hexdigit_lower: "is_ascii_hexdigit c \<Longrightarrow> is_ascii_hexdigit (ascii_lower c)"
  by (auto simp: is_ascii_hexdigit_def is_ascii_digit_def byte_ascii_lower is_ascii_upper_def)

lemma parse_sha256_Inr:
  assumes "parse_sha256 s = Inr d"
  shows "length (hex d) = 64 \<and> list_all is_ascii_hexdigit (hex d) \<and> to_ascii_lowercase (hex d) = hex d"
  using assms
  by (auto simp: parse_sha256_def Let_def to_ascii_lowercase_def list_all_iff hexdigit_lower split: if_splits)

lemma parse_sha256_hex:
  assumes "length h = 64" "list_all is_ascii_hexdigit h" "to_ascii_lowercase h = h"
  shows "parse_sha256 h = Inr (Sha256Hex h) \<and> parse_sha256 (''sha256:'' @ h) = Inr (Sha256Hex h)"
proof -
  have "strip_prefix ''sha256:'' h = None"
  proof (rule ccontr)
    assume "strip_prefix ''sha256:'' h \<noteq> None"
    then obtain r where "h = ''sha256:'' @ r" by (auto simp: strip_prefix_Some)
    with assms(2) show False by (simp add: ascii_defs byte_def)
  qed
  moreover have "strip_prefix ''sha256:'' (''sha256:'' @ h) = Some h" by (simp add: strip_prefix_Some)
  ultimately show ?thesis using assms by (simp add: parse_sha256_def Let_def del: strip_prefix.simps append_Cons)
qed

section \<open>Properties\<close>

text \<open>With the identity for SHA-256 a digest is the stream that is hashed, whatever the function.\<close>

definition hashed_stream :: "(sha256_hex, digest_error) result \<Rightarrow> string" where
  "hashed_stream r = (case r of Inr d \<Rightarrow> hex d | Inl _ \<Rightarrow> [])"

lemma dir_digest_stream: "dir_digest sha256 a = Inr x \<Longrightarrow> dir_digest id a = Inr (Sha256Hex (hashed_stream (dir_digest id a))) \<and>
    x = Sha256Hex (sha256 (hashed_stream (dir_digest id a)))"
  by (auto simp: dir_digest_def and_then_Inr hashed_stream_def)

lemma integrity_root_stream:
  "integrity_root_digest sha256 a d = Inr x \<Longrightarrow> integrity_root_digest id a d = Inr (Sha256Hex (hashed_stream (integrity_root_digest id a d))) \<and>
    x = Sha256Hex (sha256 (hashed_stream (integrity_root_digest id a d)))"
  by (cases "integrity_root_files a d") (auto simp: integrity_root_digest_def and_then_Inr hashed_stream_def split: option.splits)

lemma lenient_stream:
  assumes "dir_digest sha256 root = Inr d" "wf_node root"
  obtains ps where "d = Sha256Hex (sha256 (DIR_DIGEST_DOMAIN @ stream root ps))" "distinct ps"
    "list_all (list_all name_ok) ps"
    "visible_files (\<lambda>n. n = ''.git'') root = (\<lambda>p. (p, the (read_at root p))) ` set ps"
    "hashed_stream (dir_digest id root) = DIR_DIGEST_DOMAIN @ stream root ps"
proof -
  note s = dir_digest_stream [OF assms(1)]
  obtain ps where "hashed_stream (dir_digest id root) = DIR_DIGEST_DOMAIN @ stream root ps" "distinct ps"
    "list_all (list_all name_ok) ps" "visible_files (\<lambda>n. n = ''.git'') root = (\<lambda>p. (p, the (read_at root p))) ` set ps"
    by (rule lenient_digest [OF s [THEN conjunct1] assms(2)]) simp
  with s that show ?thesis by metis
qed

lemma strict_stream:
  assumes "integrity_root_digest sha256 root declared = Inr d" "wf_node root"
  obtains p x ps where "resolve_contained root declared = Inr p" "node_at root p = Some x" "plain_node x"
    "d = Sha256Hex (sha256 (INTEGRITY_ROOT_DOMAIN @ stream x ps))" "distinct ps" "list_all (list_all name_ok) ps"
    "visible_files (\<lambda>_. False) x = (\<lambda>p. (p, the (read_at x p))) ` set ps"
    "hashed_stream (integrity_root_digest id root declared) = INTEGRITY_ROOT_DOMAIN @ stream x ps"
proof -
  note s = integrity_root_stream [OF assms(1)]
  obtain p x ps where p: "resolve_contained root declared = Inr p" "node_at root p = Some x" "plain_node x"
    "hashed_stream (integrity_root_digest id root declared) = INTEGRITY_ROOT_DOMAIN @ stream x ps" "distinct ps"
    "list_all (list_all name_ok) ps" "visible_files (\<lambda>_. False) x = (\<lambda>p. (p, the (read_at x p))) ` set ps"
    by (rule strict_digest [OF s [THEN conjunct1] assms(2)]) simp
  show ?thesis by (rule that [OF p(1-3) _ p(5-7) p(4)]) (use s p(4) in simp)
qed

text \<open>
  The digest of a skill directory identifies its content: two directories have equal digests exactly when
  they hold the same files with the same bytes under the same relative paths, symbolic links and everything
  under a \<open>.git\<close> entry left out, provided SHA-256 does not collide on the two streams and
  lengths fit 64 bits.\<close>

theorem dir_digest_exact:
  assumes "inj_on sha256 {hashed_stream (dir_digest id a), hashed_stream (dir_digest id b)}" "wf_node a" "wf_node b"
    and "sized_files (visible_files (\<lambda>n. n = ''.git'') a)" "sized_files (visible_files (\<lambda>n. n = ''.git'') b)"
    and "dir_digest sha256 a = Inr x" "dir_digest sha256 b = Inr y"
  shows "x = y \<longleftrightarrow> visible_files (\<lambda>n. n = ''.git'') a = visible_files (\<lambda>n. n = ''.git'') b"
proof -
  obtain ps where a: "x = Sha256Hex (sha256 (DIR_DIGEST_DOMAIN @ stream a ps))" "distinct ps" "list_all (list_all name_ok) ps"
    "visible_files (\<lambda>n. n = ''.git'') a = (\<lambda>p. (p, the (read_at a p))) ` set ps"
    "hashed_stream (dir_digest id a) = DIR_DIGEST_DOMAIN @ stream a ps"
    by (rule lenient_stream [OF assms(6,2)])
  obtain qs where b: "y = Sha256Hex (sha256 (DIR_DIGEST_DOMAIN @ stream b qs))" "distinct qs" "list_all (list_all name_ok) qs"
    "visible_files (\<lambda>n. n = ''.git'') b = (\<lambda>p. (p, the (read_at b p))) ` set qs"
    "hashed_stream (dir_digest id b) = DIR_DIGEST_DOMAIN @ stream b qs"
    by (rule lenient_stream [OF assms(7,3)])
  have "x = y \<longleftrightarrow> stream a ps = stream b qs"
    using inj_on_eq_iff [OF assms(1), of "hashed_stream (dir_digest id a)" "hashed_stream (dir_digest id b)"] by (simp add: a b)
  also have "\<dots> \<longleftrightarrow> visible_files (\<lambda>n. n = ''.git'') a = visible_files (\<lambda>n. n = ''.git'') b"
    unfolding a(4) b(4) by (rule stream_eq) (use a b assms(4,5) in simp_all)
  finally show ?thesis .
qed

definition sample_tree :: "string \<Rightarrow> node" where
  "sample_tree body = Directory [(''b'', Regular body), (''.git'', Regular ''x''), (''l'', Symlink ''/etc'')]"

lemma sample_tree_files: "visible_files (\<lambda>n. n = ''.git'') (sample_tree body) = {([''b''], body)}"
proof -
  have "(\<exists>x. node_at (sample_tree body) p = Some x \<and> is_leaf x \<and> list_all (\<lambda>n. n \<noteq> ''.git'') p \<and> read_node x = Some b)
      \<longleftrightarrow> p = [''b''] \<and> b = body" for p b
    by (cases p) (auto simp: sample_tree_def node_at_leaf split: if_splits)
  then show ?thesis by (simp add: visible_files_def)
qed

lemma sample_tree_digest: "dir_digest id (sample_tree body) = Inr (Sha256Hex (DIR_DIGEST_DOMAIN @ framed_files [(''b'', body)]))"
  by (simp add: dir_digest_def sample_tree_def collect_files_def path_bytes_def join_with_def)

theorem dir_digest_exact_witness:
  "dir_digest id (sample_tree ''u'') \<noteq> dir_digest id (sample_tree ''v'')"
proof -
  have "wf_node (sample_tree body)" for body by (simp add: sample_tree_def name_ok_def)
  moreover have "sized_files (visible_files (\<lambda>n. n = ''.git'') (sample_tree [c]))" for c
    by (simp add: sample_tree_files sized_files_def path_bytes_def join_with_def)
  ultimately show ?thesis
    using dir_digest_exact [OF inj_on_id, of "sample_tree ''u''" "sample_tree ''v''"] sample_tree_files sample_tree_digest
    by auto
qed

definition sized_below :: "node \<Rightarrow> bool" where
  "sized_below a \<longleftrightarrow> (\<forall>p x. node_at a p = Some x \<longrightarrow> sized_files (visible_files (\<lambda>_. False) x))"

text \<open>C15.
  A pinned integrity root covers every byte: its digest is given only for a subtree of regular files and
  directories reached without a symbolic link, and two such digests are equal exactly when the subtrees hold
  the same files, \<open>.git\<close> included, provided SHA-256 does not collide on the two streams hashed. It never equals the
  digest of a skill directory whose stream does not collide either.\<close>

theorem integrity_root_exact:
  assumes "inj_on sha256 {hashed_stream (integrity_root_digest id a d), hashed_stream (integrity_root_digest id b e)}"
    and "wf_node a" "wf_node b" "\<forall>t. a \<noteq> Symlink t"
    and "integrity_root_digest sha256 a d = Inr x" "integrity_root_digest sha256 b e = Inr y"
    and "sized_below a" "sized_below b"
  shows "\<exists>p m q n. resolve_contained a d = Inr p \<and> node_at a p = Some m \<and> plain_node m \<and> link_free a p \<and>
    resolve_contained b e = Inr q \<and> node_at b q = Some n \<and> plain_node n \<and>
    (x = y \<longleftrightarrow> visible_files (\<lambda>_. False) m = visible_files (\<lambda>_. False) n) \<and>
    (wf_node c \<and> inj_on sha256 {hashed_stream (integrity_root_digest id a d), hashed_stream (dir_digest id c)} \<longrightarrow>
       dir_digest sha256 c \<noteq> Inr x)"
proof -
  obtain p m ps where a: "resolve_contained a d = Inr p" "node_at a p = Some m" "plain_node m"
    "x = Sha256Hex (sha256 (INTEGRITY_ROOT_DOMAIN @ stream m ps))" "distinct ps" "list_all (list_all name_ok) ps"
    "visible_files (\<lambda>_. False) m = (\<lambda>p. (p, the (read_at m p))) ` set ps"
    "hashed_stream (integrity_root_digest id a d) = INTEGRITY_ROOT_DOMAIN @ stream m ps"
    by (rule strict_stream [OF assms(5,2)])
  obtain q n qs where b: "resolve_contained b e = Inr q" "node_at b q = Some n" "plain_node n"
    "y = Sha256Hex (sha256 (INTEGRITY_ROOT_DOMAIN @ stream n qs))" "distinct qs" "list_all (list_all name_ok) qs"
    "visible_files (\<lambda>_. False) n = (\<lambda>p. (p, the (read_at n p))) ` set qs"
    "hashed_stream (integrity_root_digest id b e) = INTEGRITY_ROOT_DOMAIN @ stream n qs"
    by (rule strict_stream [OF assms(6,3)])
  have sz: "sized_files (visible_files (\<lambda>_. False) m)" "sized_files (visible_files (\<lambda>_. False) n)"
    using assms(7,8) a(2) b(2) unfolding sized_below_def by blast+
  have "x = y \<longleftrightarrow> stream m ps = stream n qs" using inj_on_eq_iff [OF assms(1)] by (simp add: a(4,8) b(4,8))
  also have "\<dots> \<longleftrightarrow> visible_files (\<lambda>_. False) m = visible_files (\<lambda>_. False) n"
    unfolding a(7) b(7) by (rule stream_eq) (use a(5,6) b(5,6) sz in \<open>simp_all add: a(7) b(7)\<close>)
  finally have eq: "x = y \<longleftrightarrow> visible_files (\<lambda>_. False) m = visible_files (\<lambda>_. False) n" .
  have apart: "DIR_DIGEST_DOMAIN @ u \<noteq> INTEGRITY_ROOT_DOMAIN @ v" for u v
    by (simp add: DIR_DIGEST_DOMAIN_def INTEGRITY_ROOT_DOMAIN_def)
  have "dir_digest sha256 c \<noteq> Inr x"
    if c: "wf_node c" "inj_on sha256 {hashed_stream (integrity_root_digest id a d), hashed_stream (dir_digest id c)}"
  proof
    assume "dir_digest sha256 c = Inr x"
    then obtain rs where "x = Sha256Hex (sha256 (DIR_DIGEST_DOMAIN @ stream c rs))"
      "hashed_stream (dir_digest id c) = DIR_DIGEST_DOMAIN @ stream c rs"
      by (rule lenient_stream [OF _ c(1)])
    with inj_on_eq_iff [OF c(2)] apart show False by (simp add: a(4,8)) metis
  qed
  moreover have "link_free a p" using resolve_contained_Inr [OF a(1)] assms(4) by blast
  ultimately show ?thesis using a(1-3) b(1-3) eq by blast
qed

definition sample_root :: "string \<Rightarrow> node" where
  "sample_root body = Directory [(''s'', Regular body)]"

lemma sample_root_at:
  "node_at (sample_root body) p = Some x \<longleftrightarrow> (p = [] \<and> x = sample_root body) \<or> (p = [''s''] \<and> x = Regular body)"
  by (cases p) (auto simp: sample_root_def node_at_leaf)

lemma sample_root_summed: "integrity_root_digest sha256 (sample_root body) ''s'' =
    Inr (Sha256Hex (sha256 (INTEGRITY_ROOT_DOMAIN @ framed_files [([], body)])))"
proof -
  have "components ''s'' = [Normal ''s'']" by code_simp
  then have "resolve_contained (sample_root body) ''s'' = Inr [''s'']"
    by (simp add: resolve_contained_def sample_root_def starts_with_def)
  then show ?thesis
    by (simp add: integrity_root_digest_def integrity_root_files_def sample_root_def path_bytes_def join_with_def)
qed

theorem integrity_root_exact_witness:
  "integrity_root_digest (sample_sum (INTEGRITY_ROOT_DOMAIN @ framed_files [([], ''u'')])) (sample_root ''u'') ''s'' \<noteq>
   integrity_root_digest (sample_sum (INTEGRITY_ROOT_DOMAIN @ framed_files [([], ''u'')])) (sample_root ''v'') ''s''"
proof
  let ?h = "sample_sum (INTEGRITY_ROOT_DOMAIN @ framed_files [([], ''u'')])"
  assume eq: "integrity_root_digest ?h (sample_root ''u'') ''s'' = integrity_root_digest ?h (sample_root ''v'') ''s''"
  have i: "inj_on ?h {hashed_stream (integrity_root_digest id (sample_root ''u'') ''s''), hashed_stream (integrity_root_digest id (sample_root ''v'') ''s'')}"
    using sample_sum_inj by (simp add: sample_root_summed hashed_stream_def)
  have w: "wf_node (sample_root body)" "\<forall>t. sample_root body \<noteq> Symlink t" for body by (simp_all add: sample_root_def name_ok_def)
  have leaf: "visible_files (\<lambda>_. False) (Regular body) = {([], body)}" for body
    by (auto simp: visible_files_def node_at_leaf)
  have root: "visible_files (\<lambda>_. False) (sample_root body) = {([''s''], body)}" for body
    by (auto simp: visible_files_def sample_root_at) (auto simp: sample_root_def)
  have sz: "sized_below (sample_root [c])" for c
    by (auto simp: sized_below_def sample_root_at leaf root sized_files_def path_bytes_def join_with_def)
  have r: "resolve_contained (sample_root body) ''s'' = Inr p \<Longrightarrow> node_at (sample_root body) p = Some m \<Longrightarrow> m = Regular body" for body p m
    using resolve_contained_Inr [of "sample_root body" "''s''" p] w(2) by (auto simp: sample_root_at)
  from integrity_root_exact [OF i w(1) w(1) w(2) sample_root_summed sample_root_summed sz sz, of "Regular []"]
  obtain p m q n where p: "resolve_contained (sample_root ''u'') ''s'' = Inr p" "node_at (sample_root ''u'') p = Some m"
    and q: "resolve_contained (sample_root ''v'') ''s'' = Inr q" "node_at (sample_root ''v'') q = Some n"
    and e: "Sha256Hex (?h (INTEGRITY_ROOT_DOMAIN @ framed_files [([], ''u'')])) = Sha256Hex (?h (INTEGRITY_ROOT_DOMAIN @ framed_files [([], ''v'')]))
      \<longleftrightarrow> visible_files (\<lambda>_. False) m = visible_files (\<lambda>_. False) n"
    by (elim exE conjE) (rule that; simp)
  from r [OF p] r [OF q] e eq show False by (simp add: sample_root_summed leaf)
qed

text \<open>
  A declared path that is accepted stays inside the project: it names, below the root and through existing
  directories only, exactly the components that were declared, none of them \<open>..\<close> or a symbolic link, and it is
  never the root itself.\<close>

theorem contained_path_safe:
  assumes "resolve_contained root declared = Inr p" "root = Directory es"
  shows "p \<noteq> [] \<and> link_free root p \<and> ''..'' \<notin> set p \<and> CHR ''/'' \<notin> set (concat p) \<and>
    map Normal p = filter (\<lambda>c. c \<noteq> CurDir) (components declared) \<and>
    (\<exists>x. node_at root p = Some x \<and> \<not> (\<exists>t. x = Symlink t))"
proof -
  note r = resolve_contained_Inr [OF assms(1)]
  then have "link_free root p" using assms(2) by blast
  then have "\<exists>x. node_at root p = Some x \<and> \<not> (\<exists>t. x = Symlink t)"
    unfolding link_free_def by (metis le_refl take_all)
  with r assms(2) show ?thesis by (auto simp: list_all_iff name_ok_def)
qed

theorem contained_path_safe_witness:
  "resolve_contained (sample_tree ''u'') ''./b'' = Inr [''b''] \<and> link_free (sample_tree ''u'') [''b''] \<and>
   resolve_contained (sample_tree ''u'') ''../b'' = Inl (TraversalPath ''../b'') \<and>
   resolve_contained (sample_tree ''u'') ''./'' = Inl (ProjectRootPath ''./'') \<and>
   resolve_contained (sample_tree ''u'') ''l/x'' = Inl (SymlinkAt [''l''])"
proof -
  have e: "resolve_contained (sample_tree ''u'') ''./b'' = Inr [''b'']"
    "resolve_contained (sample_tree ''u'') ''../b'' = Inl (TraversalPath ''../b'')"
    "resolve_contained (sample_tree ''u'') ''./'' = Inl (ProjectRootPath ''./'')"
    "resolve_contained (sample_tree ''u'') ''l/x'' = Inl (SymlinkAt [''l''])"
    by code_simp+
  from contained_path_safe [OF e(1) sample_tree_def] e show ?thesis by blast
qed

text \<open>
  Parsing a digest normalises it: the result is 64 lower-case hex digits, and parsing that result again, bare or
  with the \<open>sha256:\<close> prefix, gives it back.\<close>

theorem sha256_canonical:
  assumes "parse_sha256 s = Inr d"
  shows "length (hex d) = 64 \<and> list_all is_ascii_hexdigit (hex d) \<and>
    parse_sha256 (hex d) = Inr d \<and> parse_sha256 (''sha256:'' @ hex d) = Inr d"
proof -
  note p = parse_sha256_Inr [OF assms]
  then have "parse_sha256 (hex d) = Inr (Sha256Hex (hex d)) \<and> parse_sha256 (''sha256:'' @ hex d) = Inr (Sha256Hex (hex d))"
    by (intro parse_sha256_hex) auto
  with p show ?thesis by simp
qed

theorem sha256_canonical_witness:
  "parse_sha256 (replicate 64 (CHR ''A'')) = Inr (Sha256Hex (replicate 64 (CHR ''a''))) \<and>
   parse_sha256 (replicate 64 (CHR ''a'')) = Inr (Sha256Hex (replicate 64 (CHR ''a'')))"
proof -
  have e: "parse_sha256 (replicate 64 (CHR ''A'')) = Inr (Sha256Hex (replicate 64 (CHR ''a'')))" by code_simp
  from sha256_canonical [OF e] e show ?thesis by simp
qed

end
