(* ===== verification/Config.thy ===== *)
theory Config
  imports Strings
begin

text \<open>
  What every configuration file of the program goes through (crates/core/src/util/mod.rs): a read that
  never buffers more than a bound, and the test of the declared schema version.
\<close>

section \<open>Bounded reads\<close>

definition MAX_CONFIG_BYTES :: nat where
  "MAX_CONFIG_BYTES = 8 * 1024 * 1024"

datatype read_error = OpenFailed string | NotUtf8 | OverLimit nat

text \<open>
  \<open>opened\<close> is what opening the file gives, with the bytes behind it; at most one byte past the bound is
  read, with the addition saturating at 64 bits.
\<close>

definition read_to_string_bounded :: "(string, string) result \<Rightarrow> nat \<Rightarrow> (string, read_error) result" where
  "read_to_string_bounded opened max_bytes =
     (case opened of
        Inl e \<Rightarrow> Inl (OpenFailed e)
      | Inr content \<Rightarrow>
          (case from_utf8 (take (min (max_bytes + 1) (2 ^ 64 - 1)) content) of
             None \<Rightarrow> Inl NotUtf8
           | Some buf \<Rightarrow> if max_bytes < length buf then Inl (OverLimit max_bytes) else Inr buf))"

lemma read_bounded_Inr:
  "max_bytes < 2 ^ 64 - 1 \<Longrightarrow>
   read_to_string_bounded opened max_bytes = Inr s \<longleftrightarrow> opened = Inr s \<and> length s \<le> max_bytes \<and> utf8_valid s"
  by (auto simp: read_to_string_bounded_def from_utf8_def split: sum.splits if_splits)

section \<open>Schema versions\<close>

datatype version_error = NewerSchema u32 u32 | ZeroSchema u32

definition check_schema_version :: "u32 \<Rightarrow> u32 \<Rightarrow> (unit, version_error) result" where
  "check_schema_version version supported =
     (if supported < version then Inl (NewerSchema version supported)
      else if version = 0 then Inl (ZeroSchema supported)
      else Inr ())"

lemma check_schema_version_Inr [simp]:
  "check_schema_version version supported = Inr u \<longleftrightarrow> 0 < version \<and> version \<le> supported"
  by (auto simp: check_schema_version_def word_neq_0_conv)

end
