(* ===== verification/Lock.thy ===== *)
theory Lock
  imports Config Digest Manifest "HOL-Library.Product_Lexorder"
begin

text \<open>
  The lockfile of crates/core/src/lock.rs: its pin tables, every operation that inserts, looks up or
  prunes a pin, the manifest stamp and the three ways a lock is written. Each table keeps one entry per
  key in key order; the locale \<open>pin_table\<close> is that contract, interpreted on all eight tables. The TOML
  parser and printer, file access and SHA-256 are parameters.
\<close>

section \<open>Errors\<close>

datatype lock_error =
    ParsingFailed
  | VersionRefused version_error
  | ReadingFailed read_error
  | WritingFailed string

section \<open>Pins\<close>

definition SUPPORTED_LOCK_VERSION :: u32 where
  "SUPPORTED_LOCK_VERSION = 2"

datatype package_member_kind = SkillMember | ServerMember | InstructionMember

fun lane :: "package_member_kind \<Rightarrow> string" where
  "lane SkillMember = ''dynamic''"
| "lane ServerMember = ''dynamic''"
| "lane InstructionMember = ''rendered''"

fun member_kind_as_str :: "package_member_kind \<Rightarrow> string" where
  "member_kind_as_str SkillMember = ''skill''"
| "member_kind_as_str ServerMember = ''server''"
| "member_kind_as_str InstructionMember = ''instruction''"

datatype package_member_origin = FromPackage | ProjectOverride

fun member_origin_as_str :: "package_member_origin \<Rightarrow> string" where
  "member_origin_as_str FromPackage = ''package''"
| "member_origin_as_str ProjectOverride = ''project-override''"

record locked_package_member =
  pm_name :: string
  pm_kind :: package_member_kind
  pm_origin :: package_member_origin
  pm_checksum :: sha256_hex
  pm_provenance :: string

record locked_package =
  pk_name :: string
  pk_version :: string
  pk_source :: string
  pk_rev :: "string option"
  pk_toolsets :: "string list"
  pk_removed :: "string list"
  pk_members :: "locked_package_member list"

datatype server_source = InlineServer | LibraryServer
datatype skill_lock_source = PathSkill | GitSkill

record locked_extension =
  le_name :: string
  le_target :: string
  le_source :: string
  le_path :: "string option"
  le_git :: "string option"
  le_rev :: "string option"
  le_checksum :: string

record locked_workflow =
  lw_name :: string
  lw_roles :: "string list"
  lw_source :: string
  lw_path :: "string option"
  lw_git :: "string option"
  lw_rev :: "string option"
  lw_checksum :: sha256_hex
  lw_blueprint :: "string option"
  lw_blueprint_checksum :: "sha256_hex option"

record locked_server =
  lv_name :: string
  lv_source :: server_source
  lv_checksum :: sha256_hex

record locked_instruction_variant =
  liv_cli :: "string option"
  liv_model :: "string option"
  liv_path :: string
  liv_checksum :: sha256_hex

record locked_instruction =
  li_name :: string
  li_path :: string
  li_checksum :: sha256_hex
  li_variants :: "locked_instruction_variant list"

datatype executable_kind = FilePin | RootPin

instantiation executable_kind :: linorder
begin

definition less_eq_executable_kind :: "executable_kind \<Rightarrow> executable_kind \<Rightarrow> bool" where
  "less_eq_executable_kind a b \<longleftrightarrow> a = FilePin \<or> b = RootPin"

definition less_executable_kind :: "executable_kind \<Rightarrow> executable_kind \<Rightarrow> bool" where
  "less_executable_kind a b \<longleftrightarrow> a = FilePin \<and> b = RootPin"

instance
proof
  fix a b c :: executable_kind
  show "a < b \<longleftrightarrow> a \<le> b \<and> \<not> b \<le> a" "a \<le> a" "a \<le> b \<or> b \<le> a"
    by (cases a; cases b; simp add: less_eq_executable_kind_def less_executable_kind_def)+
  show "a \<le> b \<Longrightarrow> b \<le> c \<Longrightarrow> a \<le> c" "a \<le> b \<Longrightarrow> b \<le> a \<Longrightarrow> a = b"
    by (cases a; cases b; cases c; simp add: less_eq_executable_kind_def)+
qed

end

record locked_executable =
  lx_path :: string
  lx_kind :: executable_kind
  lx_checksum :: sha256_hex

record locked_setting =
  lt_target :: string
  lt_key :: string
  lt_checksum :: sha256_hex

record locked_skill =
  lk_name :: string
  lk_source :: skill_lock_source
  lk_path :: "string option"
  lk_git :: "string option"
  lk_rev :: "string option"
  lk_checksum :: sha256_hex
  lk_license :: "string option"
  lk_origin :: "string option"

record lock =
  lo_version :: u32
  lo_skills :: "locked_skill list"
  lo_servers :: "locked_server list"
  lo_instructions :: "locked_instruction list"
  lo_executables :: "locked_executable list"
  lo_extensions :: "locked_extension list"
  lo_workflows :: "locked_workflow list"
  lo_packages :: "locked_package list"
  lo_settings :: "locked_setting list"
  lo_manifest_digest :: "sha256_hex option"

definition default_lock :: lock where
  "default_lock =
     \<lparr>lo_version = SUPPORTED_LOCK_VERSION, lo_skills = [], lo_servers = [], lo_instructions = [],
      lo_executables = [], lo_extensions = [], lo_workflows = [], lo_packages = [], lo_settings = [],
      lo_manifest_digest = None\<rparr>"

section \<open>Inserting into a table\<close>

text \<open>
  \<open>iter_mut().find\<close> and the assignment through it, or the push: the first entry with the key of \<open>e\<close> becomes
  \<open>keep\<close> of it, and without one \<open>e\<close> goes to the end. Every caller then sorts by key, stably.
\<close>

fun put_pin :: "('p \<Rightarrow> 'k) \<Rightarrow> ('p \<Rightarrow> 'p) \<Rightarrow> 'p \<Rightarrow> 'p list \<Rightarrow> 'p list" where
  "put_pin key keep e [] = [e]"
| "put_pin key keep e (p # ps) = (if key p = key e then keep p # ps else p # put_pin key keep e ps)"

definition sort_unique :: "string list \<Rightarrow> string list" where
  "sort_unique xs = remdups_adj (sort xs)"

section \<open>The operations\<close>

definition get_skill :: "string \<Rightarrow> lock \<Rightarrow> locked_skill option" where
  "get_skill name l = find (\<lambda>p. lk_name p = name) (lo_skills l)"

text \<open>An incoming \<open>None\<close> takes the recorded attribution over.\<close>

definition keep_attribution :: "locked_skill \<Rightarrow> locked_skill \<Rightarrow> locked_skill" where
  "keep_attribution e existing =
     e\<lparr>lk_license := or_else (lk_license e) (lk_license existing), lk_origin := or_else (lk_origin e) (lk_origin existing)\<rparr>"

definition upsert_skill :: "locked_skill \<Rightarrow> lock \<Rightarrow> lock" where
  "upsert_skill e l = l\<lparr>lo_skills := sort_key lk_name (put_pin lk_name (keep_attribution e) e (lo_skills l))\<rparr>"

definition remove_skill :: "string \<Rightarrow> lock \<Rightarrow> bool \<times> lock" where
  "remove_skill name l =
     (let kept = filter (\<lambda>p. lk_name p \<noteq> name) (lo_skills l)
      in (length kept \<noteq> length (lo_skills l), l\<lparr>lo_skills := kept\<rparr>))"

definition retain_names :: "string list \<Rightarrow> lock \<Rightarrow> lock" where
  "retain_names keep l = l\<lparr>lo_skills := filter (\<lambda>p. lk_name p \<in> set keep) (lo_skills l)\<rparr>"

definition get_instruction :: "string \<Rightarrow> lock \<Rightarrow> locked_instruction option" where
  "get_instruction name l = find (\<lambda>p. li_name p = name) (lo_instructions l)"

definition upsert_instruction :: "locked_instruction \<Rightarrow> lock \<Rightarrow> lock" where
  "upsert_instruction e l = l\<lparr>lo_instructions := sort_key li_name (put_pin li_name (\<lambda>_. e) e (lo_instructions l))\<rparr>"

definition retain_instruction_names :: "string list \<Rightarrow> lock \<Rightarrow> lock" where
  "retain_instruction_names keep l = l\<lparr>lo_instructions := filter (\<lambda>p. li_name p \<in> set keep) (lo_instructions l)\<rparr>"

definition get_server :: "string \<Rightarrow> lock \<Rightarrow> locked_server option" where
  "get_server name l = find (\<lambda>p. lv_name p = name) (lo_servers l)"

definition upsert_server :: "locked_server \<Rightarrow> lock \<Rightarrow> lock" where
  "upsert_server e l = l\<lparr>lo_servers := sort_key lv_name (put_pin lv_name (\<lambda>_. e) e (lo_servers l))\<rparr>"

definition setting_key :: "locked_setting \<Rightarrow> string \<times> string" where
  "setting_key p = (lt_target p, lt_key p)"

definition get_setting :: "string \<times> string \<Rightarrow> lock \<Rightarrow> locked_setting option" where
  "get_setting k l = find (\<lambda>p. lt_target p = fst k \<and> lt_key p = snd k) (lo_settings l)"

definition upsert_setting :: "locked_setting \<Rightarrow> lock \<Rightarrow> lock" where
  "upsert_setting e l = l\<lparr>lo_settings := sort_key setting_key (put_pin setting_key (\<lambda>_. e) e (lo_settings l))\<rparr>"

definition retain_settings :: "(string \<times> string) list \<Rightarrow> lock \<Rightarrow> lock" where
  "retain_settings keep l =
     l\<lparr>lo_settings := filter (\<lambda>p. list_ex (\<lambda>(t, k). t = lt_target p \<and> k = lt_key p) keep) (lo_settings l)\<rparr>"

definition executable_key :: "locked_executable \<Rightarrow> string \<times> executable_kind" where
  "executable_key p = (lx_path p, lx_kind p)"

definition get_executable :: "string \<times> executable_kind \<Rightarrow> lock \<Rightarrow> locked_executable option" where
  "get_executable k l = find (\<lambda>p. lx_path p = fst k \<and> lx_kind p = snd k) (lo_executables l)"

definition upsert_executable :: "locked_executable \<Rightarrow> lock \<Rightarrow> lock" where
  "upsert_executable e l =
     l\<lparr>lo_executables := sort_key executable_key (put_pin executable_key (\<lambda>_. e) e (lo_executables l))\<rparr>"

definition retain_executables :: "(string \<times> executable_kind) list \<Rightarrow> lock \<Rightarrow> lock" where
  "retain_executables keep l =
     l\<lparr>lo_executables := filter (\<lambda>p. list_ex (\<lambda>(q, k). q = lx_path p \<and> k = lx_kind p) keep) (lo_executables l)\<rparr>"

definition get_extension :: "string \<Rightarrow> lock \<Rightarrow> locked_extension option" where
  "get_extension name l = find (\<lambda>p. le_name p = name) (lo_extensions l)"

definition upsert_extension :: "locked_extension \<Rightarrow> lock \<Rightarrow> lock" where
  "upsert_extension e l = l\<lparr>lo_extensions := sort_key le_name (put_pin le_name (\<lambda>_. e) e (lo_extensions l))\<rparr>"

definition retain_extension_names :: "string list \<Rightarrow> lock \<Rightarrow> lock" where
  "retain_extension_names keep l = l\<lparr>lo_extensions := filter (\<lambda>p. le_name p \<in> set keep) (lo_extensions l)\<rparr>"

definition get_workflow :: "string \<Rightarrow> lock \<Rightarrow> locked_workflow option" where
  "get_workflow name l = find (\<lambda>p. lw_name p = name) (lo_workflows l)"

definition canonical_workflow :: "locked_workflow \<Rightarrow> locked_workflow" where
  "canonical_workflow e = e\<lparr>lw_roles := sort_unique (lw_roles e)\<rparr>"

definition upsert_workflow :: "locked_workflow \<Rightarrow> lock \<Rightarrow> lock" where
  "upsert_workflow e l =
     (let e = canonical_workflow e
      in l\<lparr>lo_workflows := sort_key lw_name (put_pin lw_name (\<lambda>_. e) e (lo_workflows l))\<rparr>)"

definition retain_workflow_names :: "string list \<Rightarrow> lock \<Rightarrow> lock" where
  "retain_workflow_names keep l = l\<lparr>lo_workflows := filter (\<lambda>p. lw_name p \<in> set keep) (lo_workflows l)\<rparr>"

definition get_package :: "string \<Rightarrow> lock \<Rightarrow> locked_package option" where
  "get_package name l = find (\<lambda>p. pk_name p = name) (lo_packages l)"

definition canonical_package :: "locked_package \<Rightarrow> locked_package" where
  "canonical_package e =
     e\<lparr>pk_toolsets := sort_unique (pk_toolsets e), pk_removed := sort_unique (pk_removed e),
       pk_members := sort_key pm_name (pk_members e)\<rparr>"

definition upsert_package :: "locked_package \<Rightarrow> lock \<Rightarrow> lock" where
  "upsert_package e l =
     (let e = canonical_package e
      in l\<lparr>lo_packages := sort_key pk_name (put_pin pk_name (\<lambda>_. e) e (lo_packages l))\<rparr>)"

definition retain_package_names :: "string list \<Rightarrow> lock \<Rightarrow> lock" where
  "retain_package_names keep l = l\<lparr>lo_packages := filter (\<lambda>p. pk_name p \<in> set keep) (lo_packages l)\<rparr>"

section \<open>Reading and writing the file\<close>

text \<open>
  The project directory the lock lives in: the bytes of the manifest, of the local overlay and of the
  lockfile, \<open>None\<close> when reading the file fails. \<open>'f\<close> is the text of a lockfile.
\<close>

record 'f project_dir =
  pd_manifest :: "string option"
  pd_local :: "string option"
  pd_lock :: "'f option"

definition MANIFEST_STAMP_DOMAIN :: string where
  "MANIFEST_STAMP_DOMAIN = ''agentstack-lock-manifest-stamp-v1'' @ [CHR 0x00]"

definition stamped_bytes :: "string \<Rightarrow> string option \<Rightarrow> string" where
  "stamped_bytes manifest lcl = MANIFEST_STAMP_DOMAIN @ concat (map frame_segment [Some manifest, lcl])"

definition manifest_stamp :: "(string \<Rightarrow> string) \<Rightarrow> 'f project_dir \<Rightarrow> sha256_hex option" where
  "manifest_stamp sha256 d =
     (case pd_manifest d of
        None \<Rightarrow> None
      | Some manifest \<Rightarrow>
          (case parse_sha256 (sha256 (stamped_bytes manifest (pd_local d))) of Inr h \<Rightarrow> Some h | Inl _ \<Rightarrow> None))"

definition parse_lock :: "('f \<Rightarrow> lock option) \<Rightarrow> 'f \<Rightarrow> (lock, lock_error) result" where
  "parse_lock from_str text =
     and_then (ok_or ParsingFailed (from_str text)) (\<lambda>lock.
       and_then (map_err VersionRefused (check_schema_version (lo_version lock) SUPPORTED_LOCK_VERSION)) (\<lambda>_.
         Inr (lock\<lparr>lo_version := SUPPORTED_LOCK_VERSION\<rparr>)))"

lemma parse_lock_ok:
  "from_str t = Some l \<Longrightarrow> 0 < lo_version l \<Longrightarrow> lo_version l \<le> SUPPORTED_LOCK_VERSION \<Longrightarrow>
   parse_lock from_str t = Inr (l\<lparr>lo_version := SUPPORTED_LOCK_VERSION\<rparr>)"
  by (auto simp: parse_lock_def check_schema_version_def)

text \<open>What opening the lockfile gives: its bytes, nothing there, or another error. The read of it is bounded.\<close>

datatype file_read = FileBytes string | NotFound | ReadError string

definition load_lock :: "(string \<Rightarrow> lock option) \<Rightarrow> file_read \<Rightarrow> (lock, lock_error) result" where
  "load_lock from_str r =
     (case r of
        FileBytes bytes \<Rightarrow>
          and_then (map_err ReadingFailed (read_to_string_bounded (Inr bytes) MAX_CONFIG_BYTES)) (\<lambda>text. parse_lock from_str text)
      | NotFound \<Rightarrow> Inr default_lock
      | ReadError e \<Rightarrow> Inl (ReadingFailed (OpenFailed e)))"

text \<open>\<open>to_str\<close> is the pretty printer, \<open>written\<close> what writing the file returns.\<close>

definition write_lock ::
  "(lock \<Rightarrow> ('f, string) result) \<Rightarrow> (unit, string) result \<Rightarrow> lock \<Rightarrow> 'f project_dir \<Rightarrow> (unit, lock_error) result \<times> 'f project_dir" where
  "write_lock to_str written l d =
     (case to_str l of
        Inl e \<Rightarrow> (Inl (WritingFailed e), d)
      | Inr text \<Rightarrow>
          (case written of
             Inl e \<Rightarrow> (Inl (WritingFailed e), d)
           | Inr _ \<Rightarrow> (Inr (), d\<lparr>pd_lock := Some text\<rparr>)))"

definition save ::
  "(lock \<Rightarrow> ('f, string) result) \<Rightarrow> (unit, string) result \<Rightarrow> lock \<Rightarrow> 'f project_dir \<Rightarrow> (unit, lock_error) result \<times> 'f project_dir" where
  "save to_str written l =
     (if lo_manifest_digest l = None then write_lock to_str written l
      else write_lock to_str written (l\<lparr>lo_manifest_digest := None\<rparr>))"

definition save_stamped ::
  "(string \<Rightarrow> string) \<Rightarrow> (lock \<Rightarrow> ('f, string) result) \<Rightarrow> (unit, string) result \<Rightarrow> lock \<Rightarrow> 'f project_dir
    \<Rightarrow> (unit, lock_error) result \<times> 'f project_dir" where
  "save_stamped sha256 to_str written l d =
     write_lock to_str written (l\<lparr>lo_manifest_digest := manifest_stamp sha256 d\<rparr>) d"

definition save_keeping_stamp ::
  "(lock \<Rightarrow> ('f, string) result) \<Rightarrow> (unit, string) result \<Rightarrow> lock \<Rightarrow> 'f project_dir \<Rightarrow> (unit, lock_error) result \<times> 'f project_dir" where
  "save_keeping_stamp to_str written l d = write_lock to_str written l d"

definition manifest_stale :: "(string \<Rightarrow> string) \<Rightarrow> lock \<Rightarrow> 'f project_dir \<Rightarrow> bool option" where
  "manifest_stale sha256 l d =
     (case lo_manifest_digest l of
        None \<Rightarrow> None
      | Some recorded \<Rightarrow> map_option (\<lambda>current. recorded \<noteq> current) (manifest_stamp sha256 d))"

section \<open>A table keeps one entry per key\<close>

definition keyed :: "('p \<Rightarrow> 'k::linorder) \<Rightarrow> 'p list \<Rightarrow> bool" where
  "keyed key ps \<longleftrightarrow> sorted_wrt (<) (map key ps)"

lemma keyed_distinct: "keyed key ps \<longleftrightarrow> sorted (map key ps) \<and> distinct (map key ps)"
  by (simp add: keyed_def strict_sorted_iff)

lemma put_pin_keys:
  "(\<And>p. key (keep p) = key e) \<Longrightarrow>
   map key (put_pin key keep e ps) = (if key e \<in> key ` set ps then map key ps else map key ps @ [key e])"
  by (induction ps) auto

lemma keyed_put_pin:
  "(\<And>p. key (keep p) = key e) \<Longrightarrow> keyed key ps \<Longrightarrow> keyed key (sort_key key (put_pin key keep e ps))"
proof -
  assume k: "\<And>p. key (keep p) = key e" and d: "keyed key ps"
  have "distinct (map key (put_pin key keep e ps))"
    using d by (auto simp: put_pin_keys [of key keep, OF k] keyed_distinct)
  then have "distinct (map key (sort_key key (put_pin key keep e ps)))" by (simp add: distinct_map)
  then show "keyed key (sort_key key (put_pin key keep e ps))" by (simp add: keyed_distinct)
qed

lemma find_keyed: "distinct (map key ps) \<Longrightarrow> find (\<lambda>p. key p = k) ps = Some p \<longleftrightarrow> p \<in> set ps \<and> key p = k"
  by (induction ps) (auto simp: image_iff)

lemma find_keyed_set:
  assumes "distinct (map key ps)" "distinct (map key qs)" "set ps = set qs"
  shows "find (\<lambda>p. key p = k) ps = find (\<lambda>p. key p = k) qs"
proof (cases "find (\<lambda>p. key p = k) ps")
  case None
  then have "find (\<lambda>p. key p = k) qs = None" using assms(3) by (auto simp: find_None_iff)
  with None show ?thesis by simp
next
  case (Some p)
  then have "find (\<lambda>p. key p = k) qs = Some p" using find_keyed [OF assms(1)] find_keyed [OF assms(2)] assms(3) by blast
  with Some show ?thesis by simp
qed

lemma find_put_pin:
  "(\<And>p. key (keep p) = key e) \<Longrightarrow> find (\<lambda>p. key p = k) (put_pin key keep e ps) =
     (if k = key e then Some (case find (\<lambda>p. key p = k) ps of None \<Rightarrow> e | Some old \<Rightarrow> keep old)
      else find (\<lambda>p. key p = k) ps)"
  by (induction ps) auto

lemma find_sorted_put_pin:
  assumes "\<And>p. key (keep p) = key e" "keyed key ps"
  shows "find (\<lambda>p. key p = k) (sort_key key (put_pin key keep e ps)) =
     (if k = key e then Some (case find (\<lambda>p. key p = k) ps of None \<Rightarrow> e | Some old \<Rightarrow> keep old)
      else find (\<lambda>p. key p = k) ps)"
proof -
  have s: "keyed key (sort_key key (put_pin key keep e ps))" by (rule keyed_put_pin) (use assms in simp_all)
  have "distinct (map key (put_pin key keep e ps))"
    using assms(2) by (auto simp: put_pin_keys [of key keep, OF assms(1)] keyed_distinct)
  then have "find (\<lambda>p. key p = k) (sort_key key (put_pin key keep e ps)) = find (\<lambda>p. key p = k) (put_pin key keep e ps)"
    using s by (intro find_keyed_set) (simp_all add: keyed_distinct)
  then show ?thesis by (simp add: find_put_pin [of key keep, OF assms(1)])
qed

lemma keyed_filter: "keyed key ps \<Longrightarrow> keyed key (filter P ps)"
  by (simp add: keyed_distinct sorted_filter distinct_map_filter)

lemma find_filter_key: "find (\<lambda>p. key p = k) (filter (\<lambda>p. Q (key p)) ps) = (if Q k then find (\<lambda>p. key p = k) ps else None)"
  by (induction ps) auto

text \<open>
  The contract of a pin table: a lookup finds the first entry with the key, an upsert puts the prepared
  entry (or what is kept of it against the existing one) and sorts, and neither changes the key.
\<close>

locale pin_table =
  fixes table :: "lock \<Rightarrow> 'p list" and key :: "'p \<Rightarrow> 'k::linorder"
    and get :: "'k \<Rightarrow> lock \<Rightarrow> 'p option" and upsert :: "'p \<Rightarrow> lock \<Rightarrow> lock"
    and prepare :: "'p \<Rightarrow> 'p" and keep :: "'p \<Rightarrow> 'p \<Rightarrow> 'p"
  assumes get_table: "get k l = find (\<lambda>p. key p = k) (table l)"
    and upsert_table: "table (upsert e l) = sort_key key (put_pin key (keep (prepare e)) (prepare e) (table l))"
    and key_prepare: "key (prepare e) = key e"
    and key_keep: "key (keep e old) = key e"
begin

lemma keyed_upsert: "keyed key (table l) \<Longrightarrow> keyed key (table (upsert e l))"
  unfolding upsert_table by (rule keyed_put_pin) (simp_all add: key_keep)

lemma get_upsert:
  "keyed key (table l) \<Longrightarrow> get k (upsert e l) =
     (if k = key e then Some (case get k l of None \<Rightarrow> prepare e | Some old \<Rightarrow> keep (prepare e) old) else get k l)"
  unfolding get_table upsert_table by (subst find_sorted_put_pin) (simp_all add: key_keep key_prepare)

end

locale prunable_table = pin_table table key get upsert prepare keep
  for table :: "lock \<Rightarrow> 'p list" and key :: "'p \<Rightarrow> 'k::linorder" and get upsert prepare keep +
  fixes retain :: "'k list \<Rightarrow> lock \<Rightarrow> lock"
  assumes retain_table: "table (retain ks l) = filter (\<lambda>p. key p \<in> set ks) (table l)"
begin

lemma keyed_retain: "keyed key (table l) \<Longrightarrow> keyed key (table (retain ks l))"
  unfolding retain_table by (rule keyed_filter)

lemma get_retain: "get k (retain ks l) = (if k \<in> set ks then get k l else None)"
  unfolding get_table retain_table by (rule find_filter_key)

end

lemmas lock_ops = get_skill_def upsert_skill_def retain_names_def keep_attribution_def
  get_instruction_def upsert_instruction_def retain_instruction_names_def get_server_def upsert_server_def
  get_setting_def upsert_setting_def retain_settings_def setting_key_def
  get_executable_def upsert_executable_def retain_executables_def executable_key_def
  get_extension_def upsert_extension_def retain_extension_names_def
  get_workflow_def upsert_workflow_def retain_workflow_names_def canonical_workflow_def
  get_package_def upsert_package_def retain_package_names_def canonical_package_def Let_def

interpretation skills: prunable_table lo_skills lk_name get_skill upsert_skill id keep_attribution retain_names
  by unfold_locales (simp_all add: lock_ops)

interpretation servers: pin_table lo_servers lv_name get_server upsert_server id "\<lambda>e _. e"
  by unfold_locales (simp_all add: lock_ops)

interpretation instructions: prunable_table lo_instructions li_name get_instruction upsert_instruction id "\<lambda>e _. e"
    retain_instruction_names
  by unfold_locales (simp_all add: lock_ops)

interpretation settings: prunable_table lo_settings setting_key get_setting upsert_setting id "\<lambda>e _. e" retain_settings
proof
  show "get_setting k l = find (\<lambda>p. setting_key p = k) (lo_settings l)" for k l
    by (cases k) (simp add: get_setting_def setting_key_def)
  show "lo_settings (retain_settings ks l) = filter (\<lambda>p. setting_key p \<in> set ks) (lo_settings l)" for ks l
    by (auto simp: retain_settings_def setting_key_def list_ex_iff intro!: filter_cong)
qed (simp_all add: upsert_setting_def)

interpretation executables: prunable_table lo_executables executable_key get_executable upsert_executable id "\<lambda>e _. e"
    retain_executables
proof
  show "get_executable k l = find (\<lambda>p. executable_key p = k) (lo_executables l)" for k l
    by (cases k) (simp add: get_executable_def executable_key_def)
  show "lo_executables (retain_executables ks l) = filter (\<lambda>p. executable_key p \<in> set ks) (lo_executables l)" for ks l
    by (auto simp: retain_executables_def executable_key_def list_ex_iff intro!: filter_cong)
qed (simp_all add: upsert_executable_def)

interpretation extensions: prunable_table lo_extensions le_name get_extension upsert_extension id "\<lambda>e _. e"
    retain_extension_names
  by unfold_locales (simp_all add: lock_ops)

interpretation workflows: prunable_table lo_workflows lw_name get_workflow upsert_workflow canonical_workflow "\<lambda>e _. e"
    retain_workflow_names
  by unfold_locales (simp_all add: lock_ops)

interpretation packages: prunable_table lo_packages pk_name get_package upsert_package canonical_package "\<lambda>e _. e"
    retain_package_names
  by unfold_locales (simp_all add: lock_ops)

section \<open>The canonical form of a settings value\<close>

text \<open>\<open>to_text\<close> is serde_json's text of a value that is neither an array nor an object.\<close>

function canonical_settings_json :: "(json \<Rightarrow> string) \<Rightarrow> json \<Rightarrow> string" where
  "canonical_settings_json to_text (JObject m) =
     ''{'' @ join_with '','' (map (\<lambda>(k, v). to_text (JString k) @ '':'' @ canonical_settings_json to_text v) (sort_key fst m)) @ ''}''"
| "canonical_settings_json to_text (JArray xs) =
     ''['' @ join_with '','' (map (canonical_settings_json to_text) xs) @ '']''"
| "canonical_settings_json to_text JNull = to_text JNull"
| "canonical_settings_json to_text (JBool b) = to_text (JBool b)"
| "canonical_settings_json to_text (JNumber n) = to_text (JNumber n)"
| "canonical_settings_json to_text (JString s) = to_text (JString s)"
  by pat_completeness auto
termination
proof (relation "measure (\<lambda>(_, v). size v)")
  fix m :: "(string \<times> json) list" and x :: "string \<times> json" and k v and sh :: "json \<Rightarrow> string"
  assume "x \<in> set (sort_key fst m)" "(k, v) = x"
  then have "(k, v) \<in> set m" by simp
  then have "size v \<le> size_list (size_prod (\<lambda>_. 0) size) m"
    using size_list_estimation' [of "(k, v)" m "size v" "size_prod (\<lambda>_. 0) size"] by simp
  then show "((sh, v), (sh, JObject m)) \<in> measure (\<lambda>(_, v). size v)" by simp
next
  fix xs :: "json list" and x and sh :: "json \<Rightarrow> string"
  assume "x \<in> set xs"
  then have "size x \<le> size_list size xs" using size_list_estimation' [of x xs "size x" size] by simp
  then show "((sh, x), (sh, JArray xs)) \<in> measure (\<lambda>(_, v). size v)" by simp
qed simp

definition checksum_of :: "(string \<Rightarrow> string) \<Rightarrow> (json \<Rightarrow> string) \<Rightarrow> json \<Rightarrow> sha256_hex" where
  "checksum_of sha256 to_text v = Sha256Hex (sha256 (canonical_settings_json to_text v))"

text \<open>The meaning of a value: its objects in key order, recursively.\<close>

fun scalar :: "json \<Rightarrow> bool" where
  "scalar (JObject _) = False"
| "scalar (JArray _) = False"
| "scalar _ = True"

function in_key_order :: "json \<Rightarrow> json" where
  "in_key_order (JObject m) = JObject (map (\<lambda>(k, v). (k, in_key_order v)) (sort_key fst m))"
| "in_key_order (JArray xs) = JArray (map in_key_order xs)"
| "in_key_order JNull = JNull"
| "in_key_order (JBool b) = JBool b"
| "in_key_order (JNumber n) = JNumber n"
| "in_key_order (JString s) = JString s"
  by pat_completeness auto
termination
proof (relation "measure size")
  fix m :: "(string \<times> json) list" and x :: "string \<times> json" and k v
  assume "x \<in> set (sort_key fst m)" "(k, v) = x"
  then have "(k, v) \<in> set m" by simp
  then have "size v \<le> size_list (size_prod (\<lambda>_. 0) size) m"
    using size_list_estimation' [of "(k, v)" m "size v" "size_prod (\<lambda>_. 0) size"] by simp
  then show "(v, JObject m) \<in> measure size" by simp
next
  fix xs :: "json list" and x
  assume "x \<in> set xs"
  then have "size x \<le> size_list size xs" using size_list_estimation' [of x xs "size x" size] by simp
  then show "(x, JArray xs) \<in> measure size" by simp
qed simp

text \<open>The same text over a value as it stands, element by element.\<close>

fun sequence :: "string \<Rightarrow> string list \<Rightarrow> string" where
  "sequence close [] = close"
| "sequence close [x] = x @ close"
| "sequence close (x # y # ys) = x @ '','' @ sequence close (y # ys)"

fun render :: "(json \<Rightarrow> string) \<Rightarrow> json \<Rightarrow> string" where
  "render to_text (JObject m) = ''{'' @ sequence ''}'' (map (\<lambda>(k, v). to_text (JString k) @ '':'' @ render to_text v) m)"
| "render to_text (JArray xs) = ''['' @ sequence '']'' (map (render to_text) xs)"
| "render to_text v = to_text v"

lemma join_sequence: "join_with '','' xs @ close = sequence close xs"
proof (induction close xs rule: sequence.induct)
  case (3 close x y ys)
  then show ?case by (simp add: join_with_def)
qed (simp_all add: join_with_def)

lemma canonical_render: "canonical_settings_json to_text v = render to_text (in_key_order v)"
proof (induction to_text v rule: canonical_settings_json.induct)
  case (1 to_text m)
  have "map (\<lambda>(k, v). to_text (JString k) @ '':'' @ canonical_settings_json to_text v) (sort_key fst m) =
      map (\<lambda>(k, v). to_text (JString k) @ '':'' @ render to_text (in_key_order v)) (sort_key fst m)"
    using 1 by (intro map_cong) auto
  then show ?case 
    by (auto simp: join_sequence comp_def case_prod_unfold intro!: arg_cong [where f = "sequence ''}''"] map_cong)
next
  case (2 to_text xs)
  then show ?case by (auto simp: join_sequence intro!: arg_cong [where f = "sequence '']''"] map_cong)
qed simp_all

definition stops :: "string \<Rightarrow> bool" where
  "stops r \<longleftrightarrow> r = [] \<or> hd r \<in> set '',:]}''"

text \<open>
  What the JSON grammar gives: the text of a scalar ends where a structural character follows, determines the
  scalar, and does not begin with a structural character. (The string of a number stands for serde's number;
  on strings that are no number the printer is unconstrained, and can be chosen so that this holds.)
\<close>

definition scalar_text :: "(json \<Rightarrow> string) \<Rightarrow> bool" where
  "scalar_text to_text \<longleftrightarrow>
     (\<forall>a b r r'. scalar a \<longrightarrow> scalar b \<longrightarrow> stops r \<longrightarrow> stops r' \<longrightarrow> to_text a @ r = to_text b @ r' \<longrightarrow> a = b \<and> r = r') \<and>
     (\<forall>a. scalar a \<longrightarrow> to_text a \<noteq> [] \<and> hd (to_text a) \<notin> set '',:]}[{'')"

lemma scalar_textD:
  "scalar_text to_text \<Longrightarrow> scalar a \<Longrightarrow> scalar b \<Longrightarrow> stops r \<Longrightarrow> stops r' \<Longrightarrow> to_text a @ r = to_text b @ r' \<Longrightarrow> a = b \<and> r = r'"
  "scalar_text to_text \<Longrightarrow> scalar a \<Longrightarrow> \<exists>c s. to_text a = c # s \<and> c \<notin> set '',:]}[{''"
proof -
  assume s: "scalar_text to_text"
  show "scalar a \<Longrightarrow> scalar b \<Longrightarrow> stops r \<Longrightarrow> stops r' \<Longrightarrow> to_text a @ r = to_text b @ r' \<Longrightarrow> a = b \<and> r = r'"
    using s unfolding scalar_text_def by blast
  assume "scalar a"
  with s have "to_text a \<noteq> []" "hd (to_text a) \<notin> set '',:]}[{''" unfolding scalar_text_def by blast+
  then show "\<exists>c s. to_text a = c # s \<and> c \<notin> set '',:]}[{''" by (cases "to_text a") simp_all
qed

lemma render_head: "scalar_text to_text \<Longrightarrow> \<exists>c s. render to_text v = c # s \<and> c \<notin> set '',:]}''"
  by (cases v) (auto dest!: scalar_textD(2) [of to_text v])

text \<open>Two sequences of self-delimiting pieces that agree, agree piece by piece.\<close>

lemma sequence_inj:
  assumes "\<And>x y r r'. x \<in> set xs \<Longrightarrow> stops r \<Longrightarrow> stops r' \<Longrightarrow> f x @ r = f y @ r' \<Longrightarrow> x = y \<and> r = r'"
    and "\<And>x. \<exists>c s. f x = c # s \<and> c \<notin> set '',:]}''"
    and "close \<in> {'']'', ''}''}"
  shows "sequence close (map f xs) @ r = sequence close (map f ys) @ r' \<Longrightarrow> xs = ys \<and> r = r'"
  using assms(1)
proof (induction xs arbitrary: ys)
  case Nil
  obtain k where k: "close = [k]" "k \<in> set '']}''" using assms(3) by auto
  show ?case
  proof (cases ys)
    case Nil
    with Nil.prems k show ?thesis by simp
  next
    case (Cons y zs)
    obtain c s where "f y = c # s" "c \<notin> set '',:]}''" using assms(2) by blast
    then show ?thesis using Nil.prems(1) k Cons by (cases zs) auto
  qed
next
  case (Cons x xs)
  obtain k where k: "close = [k]" "k \<in> set '']}''" using assms(3) by auto
  obtain c s where x: "f x = c # s" "c \<notin> set '',:]}''" using assms(2) by blast
  show ?case
  proof (cases ys)
    case Nil
    then show ?thesis using Cons.prems(1) k x by (cases xs) auto
  next
    case ys: (Cons y zs)
    define t where "t = (if xs = [] then close else '','' @ sequence close (map f xs)) @ r"
    define t' where "t' = (if zs = [] then close else '','' @ sequence close (map f zs)) @ r'"
    have "sequence close (map f (x # xs)) @ r = f x @ t" by (cases xs) (simp_all add: t_def)
    moreover have "sequence close (map f ys) @ r' = f y @ t'" by (cases zs) (simp_all add: t'_def ys)
    ultimately have eq: "f x @ t = f y @ t'" using Cons.prems(1) by simp
    have "stops t" "stops t'" using k by (auto simp: t_def t'_def stops_def)
    from Cons.prems(2) [OF _ this eq] have xy: "x = y" and tt: "t = t'" by auto
    have "k \<noteq> CHR '',''" using k(2) by auto
    then have "xs = [] \<longleftrightarrow> zs = []" using tt k(1) by (auto simp: t_def t'_def split: if_splits)
    moreover have "xs = zs \<and> r = r'" if "xs \<noteq> []" "zs \<noteq> []"
    proof (rule Cons.IH)
      show "sequence close (map f xs) @ r = sequence close (map f zs) @ r'" using tt that by (simp add: t_def t'_def)
    qed (rule Cons.prems(2), simp_all)
    moreover have "xs = [] \<Longrightarrow> zs = [] \<Longrightarrow> r = r'" using tt by (simp add: t_def t'_def)
    ultimately show ?thesis using xy ys by blast
  qed
qed

lemma render_member_inj:
  assumes sh: "scalar_text to_text" and "stops r" "stops r'"
    and "to_text (JString k) @ '':'' @ t = to_text (JString k') @ '':'' @ t'"
  shows "k = k' \<and> t = t'"
  using scalar_textD(1) [OF sh _ _ _ _ assms(4)] by (simp add: stops_def)

lemma render_scalar:
  assumes sh: "scalar_text to_text" and "scalar a" "render to_text a @ r = render to_text b @ r'" "stops r" "stops r'"
  shows "a = b \<and> r = r'"
proof -
  have a: "render to_text a = to_text a" using assms(2) by (cases a) simp_all
  show ?thesis
  proof (cases "scalar b")
    case True
    then have "render to_text b = to_text b" by (cases b) simp_all
    with scalar_textD(1) [OF sh assms(2) True assms(4,5)] assms(3) a show ?thesis by simp
  next
    case False
    with scalar_textD(2) [OF sh assms(2)] assms(3) a show ?thesis by (cases b) auto
  qed
qed

lemma render_inj:
  assumes sh: "scalar_text to_text"
  shows "render to_text a @ r = render to_text b @ r' \<Longrightarrow> stops r \<Longrightarrow> stops r' \<Longrightarrow> a = b \<and> r = r'"
  using sh
proof (induction to_text a arbitrary: b r r' rule: render.induct)
  case (1 to_text m)
  let ?f = "\<lambda>(k, v). to_text (JString k) @ '':'' @ render to_text v"
  obtain m' where b: "b = JObject m'"
  proof (cases b)
    case (JArray xs)
    with "1.prems"(1) show ?thesis by simp
  qed (use "1.prems"(1) scalar_textD(2) [OF "1.prems"(4), of b] that in auto)
  have el: "x = y \<and> s = s'" if x: "x \<in> set m" and st: "stops s" "stops s'" and eq: "?f x @ s = ?f y @ s'" for x y s s'
  proof -
    obtain k v k' v' where xy: "x = (k, v)" "y = (k', v')" by fastforce
    with eq have "to_text (JString k) @ '':'' @ (render to_text v @ s) = to_text (JString k') @ '':'' @ (render to_text v' @ s')" by simp
    from render_member_inj [OF "1.prems"(4) st this] have "k = k'" "render to_text v @ s = render to_text v' @ s'" by auto
    with "1.IH" [OF x xy(1) [symmetric], of s v' s'] st "1.prems"(4) xy show ?thesis by simp
  qed
  have hd: "\<exists>c s. ?f x = c # s \<and> c \<notin> set '',:]}''" for x
    using scalar_textD(2) [OF "1.prems"(4), of "JString (fst x)"] by (auto simp: case_prod_unfold)
  have "sequence ''}'' (map ?f m) @ r = sequence ''}'' (map ?f m') @ r'" using "1.prems"(1) b by simp
  from sequence_inj [OF el hd _ this] b show ?case by simp
next
  case (2 to_text xs)
  obtain ys where b: "b = JArray ys"
  proof (cases b)
    case (JObject m)
    with "2.prems"(1) show ?thesis by simp
  qed (use "2.prems"(1) scalar_textD(2) [OF "2.prems"(4), of b] that in auto)
  have "sequence '']'' (map (render to_text) xs) @ r = sequence '']'' (map (render to_text) ys) @ r'" using "2.prems"(1) b by simp
  from sequence_inj [OF _ render_head [OF "2.prems"(4)] _ this] "2.IH" "2.prems"(4) b show ?case by simp
qed (rule render_scalar; simp)+

section \<open>Sequences of operations\<close>

datatype lock_op =
    UpsertSkill locked_skill | RemoveSkill string | RetainNames "string list"
  | UpsertServer locked_server
  | UpsertInstruction locked_instruction | RetainInstructionNames "string list"
  | UpsertSetting locked_setting | RetainSettings "(string \<times> string) list"
  | UpsertExecutable locked_executable | RetainExecutables "(string \<times> executable_kind) list"
  | UpsertExtension locked_extension | RetainExtensionNames "string list"
  | UpsertWorkflow locked_workflow | RetainWorkflowNames "string list"
  | UpsertPackage locked_package | RetainPackageNames "string list"

fun exec_lock_op :: "lock_op \<Rightarrow> lock \<Rightarrow> lock" where
  "exec_lock_op (UpsertSkill e) l = upsert_skill e l"
| "exec_lock_op (RemoveSkill n) l = snd (remove_skill n l)"
| "exec_lock_op (RetainNames ks) l = retain_names ks l"
| "exec_lock_op (UpsertServer e) l = upsert_server e l"
| "exec_lock_op (UpsertInstruction e) l = upsert_instruction e l"
| "exec_lock_op (RetainInstructionNames ks) l = retain_instruction_names ks l"
| "exec_lock_op (UpsertSetting e) l = upsert_setting e l"
| "exec_lock_op (RetainSettings ks) l = retain_settings ks l"
| "exec_lock_op (UpsertExecutable e) l = upsert_executable e l"
| "exec_lock_op (RetainExecutables ks) l = retain_executables ks l"
| "exec_lock_op (UpsertExtension e) l = upsert_extension e l"
| "exec_lock_op (RetainExtensionNames ks) l = retain_extension_names ks l"
| "exec_lock_op (UpsertWorkflow e) l = upsert_workflow e l"
| "exec_lock_op (RetainWorkflowNames ks) l = retain_workflow_names ks l"
| "exec_lock_op (UpsertPackage e) l = upsert_package e l"
| "exec_lock_op (RetainPackageNames ks) l = retain_package_names ks l"

definition canonical_lists :: "lock \<Rightarrow> bool" where
  "canonical_lists l \<longleftrightarrow>
     (\<forall>w \<in> set (lo_workflows l). sorted_wrt (<) (lw_roles w)) \<and>
     (\<forall>p \<in> set (lo_packages l). sorted_wrt (<) (pk_toolsets p) \<and> sorted_wrt (<) (pk_removed p) \<and> sorted (map pm_name (pk_members p)))"

definition lock_ok :: "lock \<Rightarrow> bool" where
  "lock_ok l \<longleftrightarrow>
     keyed lk_name (lo_skills l) \<and> keyed lv_name (lo_servers l) \<and> keyed li_name (lo_instructions l) \<and>
     keyed setting_key (lo_settings l) \<and> keyed executable_key (lo_executables l) \<and> keyed le_name (lo_extensions l) \<and>
     keyed lw_name (lo_workflows l) \<and> keyed pk_name (lo_packages l) \<and> canonical_lists l"

lemma sorted_sort_unique: "sorted_wrt (<) (sort_unique xs)"
proof -
  have "sorted ys \<Longrightarrow> distinct (remdups_adj ys)" for ys :: "string list"
    by (induction ys rule: remdups_adj.induct) auto
  then show ?thesis by (simp add: sort_unique_def strict_sorted_iff)
qed

lemma set_put_pin: "set (put_pin key (\<lambda>_. e) e ps) \<subseteq> insert e (set ps)"
  by (induction ps) auto

lemma canonical_upsert:
  "canonical_lists l \<Longrightarrow> canonical_lists (upsert_workflow w l)"
  "canonical_lists l \<Longrightarrow> canonical_lists (upsert_package p l)"
  using set_put_pin [of lw_name "canonical_workflow w" "lo_workflows l"] set_put_pin [of pk_name "canonical_package p" "lo_packages l"]
  by (auto simp: canonical_lists_def upsert_workflow_def upsert_package_def Let_def
      canonical_workflow_def canonical_package_def sorted_sort_unique)

lemmas keyed_intros = skills.keyed_upsert skills.keyed_retain servers.keyed_upsert instructions.keyed_upsert
  instructions.keyed_retain settings.keyed_upsert settings.keyed_retain executables.keyed_upsert executables.keyed_retain
  extensions.keyed_upsert extensions.keyed_retain workflows.keyed_upsert workflows.keyed_retain
  packages.keyed_upsert packages.keyed_retain keyed_filter

text \<open>Every operation touches one table.\<close>

lemma lock_frames [simp]:
  "lo_skills (upsert_server a l) = lo_skills l" "lo_skills (upsert_instruction b l) = lo_skills l"
  "lo_servers (upsert_skill c l) = lo_servers l" "lo_servers (upsert_instruction b l) = lo_servers l"
  by (simp_all add: lock_ops)

lemma exec_lock_ok: "lock_ok l \<Longrightarrow> lock_ok (exec_lock_op op l)"
proof (cases op)
  case (UpsertWorkflow w)
  assume l: "lock_ok l"
  then have "keyed lw_name (lo_workflows (upsert_workflow w l))" "canonical_lists (upsert_workflow w l)"
    by (simp_all add: lock_ok_def workflows.keyed_upsert canonical_upsert)
  with l UpsertWorkflow show ?thesis by (simp add: lock_ok_def) (simp add: upsert_workflow_def Let_def)
next
  case (UpsertPackage p)
  assume l: "lock_ok l"
  then have "keyed pk_name (lo_packages (upsert_package p l))" "canonical_lists (upsert_package p l)"
    by (simp_all add: lock_ok_def packages.keyed_upsert canonical_upsert)
  with l UpsertPackage show ?thesis by (simp add: lock_ok_def) (simp add: upsert_package_def Let_def)
qed (auto simp: lock_ok_def canonical_lists_def lock_ops remove_skill_def
      intro!: keyed_put_pin keyed_filter)

definition run_lock_ops :: "lock_op list \<Rightarrow> lock \<Rightarrow> lock" where
  "run_lock_ops ops l = fold exec_lock_op ops l"


section \<open>Properties\<close>

text \<open>C16.
  Whatever sequence of inserts, removals and prunings runs on a lock, each of its eight tables keeps one entry
  per key in key order, and the role and member lists of its workflows and packages stay canonical. In such a lock a
  skill is listed exactly when looking its name up finds it.\<close>

theorem lock_tables_keyed:
  assumes "lock_ok l"
  shows "lock_ok (run_lock_ops ops l) \<and>
    (p \<in> set (lo_skills (run_lock_ops ops l)) \<longleftrightarrow> get_skill (lk_name p) (run_lock_ops ops l) = Some p)"
proof -
  have l: "lock_ok (run_lock_ops ops l)"
    using assms unfolding run_lock_ops_def by (induction ops arbitrary: l) (simp_all add: exec_lock_ok)
  then have "distinct (map lk_name (lo_skills (run_lock_ops ops l)))" by (simp add: lock_ok_def keyed_distinct)
  from find_keyed [OF this, of "lk_name p" p] l show ?thesis by (simp add: get_skill_def)
qed

definition sample_skill :: locked_skill where
  "sample_skill = \<lparr>lk_name = ''s'', lk_source = PathSkill, lk_path = None, lk_git = None, lk_rev = None,
     lk_checksum = Sha256Hex ''0'', lk_license = Some ''MIT'', lk_origin = None\<rparr>"

lemma default_lock_ok: "lock_ok default_lock"
  by (simp add: lock_ok_def default_lock_def keyed_def canonical_lists_def)

theorem lock_tables_keyed_witness:
  "lock_ok (run_lock_ops [UpsertSkill sample_skill, RetainNames [''s'']] default_lock)"
  using lock_tables_keyed [OF default_lock_ok] by blast

text \<open>
  After a skill is pinned, looking its name up finds the new pin, with the license and origin of the old one where
  the new one brings none; every other skill, and every server, is found as before.\<close>

theorem skill_attribution_kept:
  assumes "lock_ok l"
  shows "get_skill n (upsert_skill e l) =
      (if n \<noteq> lk_name e then get_skill n l
       else case get_skill n l of
              None \<Rightarrow> Some e
            | Some old \<Rightarrow> Some (e\<lparr>lk_license := or_else (lk_license e) (lk_license old),
                                lk_origin := or_else (lk_origin e) (lk_origin old)\<rparr>)) \<and>
    get_server m (upsert_skill e l) = get_server m l"
proof -
  have "keyed lk_name (lo_skills l)" using assms by (simp add: lock_ok_def)
  from skills.get_upsert [OF this, of n e] show ?thesis
    by (simp add: keep_attribution_def get_server_def split: option.splits)
qed

theorem skill_attribution_kept_witness:
  "get_skill ''s'' (upsert_skill (sample_skill\<lparr>lk_license := None, lk_origin := Some ''o''\<rparr>) (upsert_skill sample_skill default_lock)) =
     Some (sample_skill\<lparr>lk_origin := Some ''o''\<rparr>)"
proof -
  have l: "lock_ok (upsert_skill sample_skill default_lock)"
    using exec_lock_ok [OF default_lock_ok, of "UpsertSkill sample_skill"] by simp
  have "get_skill ''s'' (upsert_skill sample_skill default_lock) = Some sample_skill" by code_simp
  with conjunct1 [OF skill_attribution_kept [OF l, of "''s''" "sample_skill\<lparr>lk_license := None, lk_origin := Some ''o''\<rparr>"]]
  show ?thesis by (simp add: sample_skill_def or_else_def)
qed

lemma stamped_bytes_inj:
  "stamped_bytes m a = stamped_bytes m' a' \<Longrightarrow> \<forall>s \<in> {Some m, a, Some m', a'}. sized s \<Longrightarrow> m = m' \<and> a = a'"
  using frame_segment_inj [of "Some m" "frame_segment a" "Some m'" "frame_segment a'"]
    frame_segment_inj [of a "[]" a' "[]"] by (auto simp: stamped_bytes_def)

lemma parse_sha256_cases: "parse_sha256 (sha256 x) = Inr (Sha256Hex (sha256 x)) \<Longrightarrow> pd_manifest d = Some m \<Longrightarrow>
    x = stamped_bytes m (pd_local d) \<Longrightarrow> manifest_stamp sha256 d = Some (Sha256Hex (sha256 x))"
  by (simp add: manifest_stamp_def)

lemma load_printed:
  assumes "from_str text = Some k" "utf8_valid text" "lo_version k \<in> {1, 2}"
  shows "length text \<le> MAX_CONFIG_BYTES \<Longrightarrow> load_lock from_str (FileBytes text) = Inr (k\<lparr>lo_version := SUPPORTED_LOCK_VERSION\<rparr>)"
    "length text > MAX_CONFIG_BYTES \<Longrightarrow> \<not> is_ok (load_lock from_str (FileBytes text))"
proof -
  have v: "0 < lo_version k" "lo_version k \<le> SUPPORTED_LOCK_VERSION"
    using assms(3) by (auto simp: SUPPORTED_LOCK_VERSION_def)
  have bounded: "read_to_string_bounded (Inr u) MAX_CONFIG_BYTES = Inr t \<longleftrightarrow> t = u \<and> length t \<le> MAX_CONFIG_BYTES \<and> utf8_valid t" for u t
    by (subst read_bounded_Inr) (auto simp: MAX_CONFIG_BYTES_def)
  show "length text \<le> MAX_CONFIG_BYTES \<Longrightarrow> load_lock from_str (FileBytes text) = Inr (k\<lparr>lo_version := SUPPORTED_LOCK_VERSION\<rparr>)"
    using bounded [THEN iffD2] assms(2) parse_lock_ok [of from_str _ k, OF assms(1)] v by (simp add: load_lock_def)
  show "length text > MAX_CONFIG_BYTES \<Longrightarrow> \<not> is_ok (load_lock from_str (FileBytes text))"
    using bounded by (cases "read_to_string_bounded (Inr text) MAX_CONFIG_BYTES") (auto simp: load_lock_def)
qed

text \<open>What a write leaves on the disk: the printed lock, which reads back as it was when the bounded read takes it.\<close>

definition reads_back :: "(string \<Rightarrow> lock option) \<Rightarrow> string project_dir \<Rightarrow> lock \<Rightarrow> bool" where
  "reads_back from_str d k \<longleftrightarrow>
     (\<exists>text. pd_lock d = Some text \<and>
        (if length text \<le> MAX_CONFIG_BYTES then load_lock from_str (FileBytes text) = Inr k
         else \<not> is_ok (load_lock from_str (FileBytes text))))"

text \<open>C17.
  A lock written with a stamp reads back with every table as it was, the stamp added and its version brought up to
  date, and later reports the manifest as stale exactly when the manifest or the local overlay differs from what it
  was at the write; a lock written by a command that never saw the whole manifest reads back without a stamp and
  reports neither. Only a file of more than 8 MiB, which the write does not refuse, does not load again.\<close>

theorem stamp_detects_edits:
  assumes "\<forall>k text. to_str k = Inr text \<longrightarrow> from_str text = Some k \<and> utf8_valid text"
    and "pd_manifest d = Some m" and "pd_manifest e = Some m'"
    and "\<forall>s \<in> {Some m, pd_local d, Some m', pd_local e}. sized s"
    and "\<forall>x. parse_sha256 (sha256 x) = Inr (Sha256Hex (sha256 x))"
    and "inj_on sha256 {stamped_bytes m (pd_local d), stamped_bytes m' (pd_local e)}"
    and "lo_version l \<in> {1, 2}"
    and "save_stamped sha256 to_str (Inr ()) l d = (Inr (), d')" "save to_str (Inr ()) l d = (Inr (), d'')"
    and "stamped = l\<lparr>lo_manifest_digest := manifest_stamp sha256 d, lo_version := 2\<rparr>"
    and "partial = l\<lparr>lo_manifest_digest := None, lo_version := 2\<rparr>"
  shows "reads_back from_str d' stamped \<and> manifest_stale sha256 stamped e = Some (m \<noteq> m' \<or> pd_local d \<noteq> pd_local e) \<and>
    reads_back from_str d'' partial \<and> manifest_stale sha256 partial e = None"
proof (intro conjI)
  note stamp = parse_sha256_cases [of sha256, OF assms(5) [rule_format]]
  let ?k = "l\<lparr>lo_manifest_digest := manifest_stamp sha256 d\<rparr>" and ?j = "l\<lparr>lo_manifest_digest := None\<rparr>"
  from assms(8) obtain f where f: "to_str ?k = Inr f" "pd_lock d' = Some f"
    by (auto simp: save_stamped_def write_lock_def split: sum.splits)
  have "lo_version ?k \<in> {1, 2}" using assms(7) by simp
  from load_printed [OF _ _ this, of from_str f] assms(1) f show "reads_back from_str d' stamped"
    by (auto simp: reads_back_def assms(10) SUPPORTED_LOCK_VERSION_def)
  have "save to_str (Inr ()) l d = write_lock to_str (Inr ()) ?j d" by (cases l) (simp add: save_def)
  with assms(9) obtain g where g: "to_str ?j = Inr g" "pd_lock d'' = Some g"
    by (auto simp: write_lock_def split: sum.splits)
  have "lo_version ?j \<in> {1, 2}" using assms(7) by simp
  from load_printed [OF _ _ this, of from_str g] assms(1) g show "reads_back from_str d'' partial"
    by (auto simp: reads_back_def assms(11) SUPPORTED_LOCK_VERSION_def)
  show "manifest_stale sha256 partial e = None" by (simp add: manifest_stale_def assms(11))
  have "sha256 (stamped_bytes m (pd_local d)) = sha256 (stamped_bytes m' (pd_local e)) \<longleftrightarrow> m = m' \<and> pd_local d = pd_local e"
    (is "?S \<longleftrightarrow> ?M")
  proof
    assume ?S
    then have "stamped_bytes m (pd_local d) = stamped_bytes m' (pd_local e)" by (rule inj_onD [OF assms(6)]) simp_all
    then show ?M using assms(4) by (rule stamped_bytes_inj)
  qed simp
  then show "manifest_stale sha256 stamped e = Some (m \<noteq> m' \<or> pd_local d \<noteq> pd_local e)"
    by (simp add: manifest_stale_def assms(10) stamp [OF assms(2) refl] stamp [OF assms(3) refl])
qed

definition sample_dir :: "string \<Rightarrow> string project_dir" where
  "sample_dir m = \<lparr>pd_manifest = Some m, pd_local = None, pd_lock = None\<rparr>"

definition sample_sha :: "string \<Rightarrow> string" where
  "sample_sha x = replicate 64 (if x = stamped_bytes ''a'' None then CHR ''a'' else CHR ''b'')"

definition sample_stamped :: lock where
  "sample_stamped = default_lock\<lparr>lo_manifest_digest := manifest_stamp sample_sha (sample_dir ''a'')\<rparr>"

text \<open>A printer and a parser of two locks, each a word of text.\<close>

definition sample_to_str :: "lock \<Rightarrow> (string, string) result" where
  "sample_to_str k = (if k = sample_stamped then Inr ''stamped'' else if k = default_lock then Inr ''plain'' else Inl [])"

definition sample_from_str :: "string \<Rightarrow> lock option" where
  "sample_from_str text = (if text = ''stamped'' then Some sample_stamped else if text = ''plain'' then Some default_lock else None)"

theorem stamp_detects_edits_witness:
  "reads_back sample_from_str (snd (save_stamped sample_sha sample_to_str (Inr ()) default_lock (sample_dir ''a''))) sample_stamped \<and>
   manifest_stale sample_sha sample_stamped (sample_dir ''b'') = Some True"
proof -
  have p: "\<forall>x. parse_sha256 (sample_sha x) = Inr (Sha256Hex (sample_sha x))"
  proof
    fix x
    have "parse_sha256 (replicate 64 (CHR ''a'')) = Inr (Sha256Hex (replicate 64 (CHR ''a'')))"
      "parse_sha256 (replicate 64 (CHR ''b'')) = Inr (Sha256Hex (replicate 64 (CHR ''b'')))"
      by (rule parse_sha256_hex [THEN conjunct1]; code_simp)+
    then show "parse_sha256 (sample_sha x) = Inr (Sha256Hex (sample_sha x))"
      by (cases "x = stamped_bytes ''a'' None") (simp_all add: sample_sha_def)
  qed
  have m: "pd_manifest (sample_dir ''a'') = Some ''a''" "pd_manifest (sample_dir ''b'') = Some ''b''"
    by (simp_all add: sample_dir_def)
  have lo: "pd_local (sample_dir x) = None" for x by (simp add: sample_dir_def)
  have z: "\<forall>s \<in> {Some ''a'', pd_local (sample_dir ''a''), Some ''b'', pd_local (sample_dir ''b'')}. sized s"
    by (simp add: sized_def lo)
  have "stamped_bytes ''a'' None \<noteq> stamped_bytes ''b'' None"
    using stamped_bytes_inj [of "''a''" None "''b''" None] by (auto simp: sized_def)
  then have i: "inj_on sample_sha {stamped_bytes ''a'' (pd_local (sample_dir ''a'')), stamped_bytes ''b'' (pd_local (sample_dir ''b''))}"
    by (simp add: lo sample_sha_def)
  have u: "lo_manifest_digest default_lock = None" "lo_version default_lock = 2"
    by (simp_all add: default_lock_def SUPPORTED_LOCK_VERSION_def)
  have w: "save_stamped sample_sha sample_to_str (Inr ()) default_lock (sample_dir ''a'') =
      (Inr (), snd (save_stamped sample_sha sample_to_str (Inr ()) default_lock (sample_dir ''a'')))"
    "save sample_to_str (Inr ()) default_lock (sample_dir ''a'') = (Inr (), snd (save sample_to_str (Inr ()) default_lock (sample_dir ''a'')))"
    using u by (simp_all add: save_stamped_def save_def write_lock_def sample_to_str_def sample_stamped_def)
  have v: "lo_version default_lock \<in> {1, 2}" by (simp add: u)
  have "utf8_valid ''stamped''" "utf8_valid ''plain''" by code_simp+
  then have r: "\<forall>k text. sample_to_str k = Inr text \<longrightarrow> sample_from_str text = Some k \<and> utf8_valid text"
    by (auto simp: sample_to_str_def sample_from_str_def split: if_splits)
  have k: "sample_stamped = default_lock\<lparr>lo_manifest_digest := manifest_stamp sample_sha (sample_dir ''a''), lo_version := 2\<rparr>"
    by (simp add: sample_stamped_def default_lock_def SUPPORTED_LOCK_VERSION_def)
  from stamp_detects_edits [OF r m z p i v w k refl] show ?thesis by simp
qed

text \<open>C18.
  Two settings values have one canonical form, and so one checksum input, exactly when they are equal up to the
  order of object keys: the order of array elements, and everything else, is covered.\<close>

theorem settings_digest_exact:
  assumes "scalar_text to_text"
  shows "canonical_settings_json to_text v = canonical_settings_json to_text w \<longleftrightarrow> in_key_order v = in_key_order w"
  using render_inj [OF assms, of "in_key_order v" "[]" "in_key_order w" "[]"] by (auto simp: canonical_render stops_def)

definition mark :: "string \<Rightarrow> string" where
  "mark s = concat (map (\<lambda>c. [CHR ''x'', c]) s) @ ''q''"

fun sample_text :: "json \<Rightarrow> string" where
  "sample_text (JBool b) = (if b then ''t'' else ''f'')"
| "sample_text (JNumber n) = CHR ''d'' # mark n"
| "sample_text (JString s) = CHR ''s'' # mark s"
| "sample_text _ = ''n''"

lemma mark_inj: "mark s @ r = mark s' @ r' \<Longrightarrow> s = s' \<and> r = r'"
proof (induction s arbitrary: s')
  case Nil
  then show ?case by (cases s') (simp_all add: mark_def)
next
  case (Cons c s)
  then show ?case by (cases s') (auto simp: mark_def)
qed

lemma sample_scalar_text: "scalar_text sample_text"
proof -
  have "a = b \<and> r = r'" if "scalar a" "scalar b" "sample_text a @ r = sample_text b @ r'" for a b r r'
    using that by (cases a; cases b) (auto dest: mark_inj split: if_splits)
  moreover have "sample_text a \<noteq> [] \<and> hd (sample_text a) \<notin> set '',:]}[{''" if "scalar a" for a
    using that by (cases a) auto
  ultimately show ?thesis unfolding scalar_text_def by blast
qed

theorem settings_digest_exact_witness:
  "canonical_settings_json sample_text (JObject [(''b'', JNull), (''a'', JNumber ''1'')]) =
     canonical_settings_json sample_text (JObject [(''a'', JNumber ''1''), (''b'', JNull)]) \<and>
   canonical_settings_json sample_text (JArray [JBool True, JNull]) \<noteq> canonical_settings_json sample_text (JArray [JNull, JBool True])"
proof -
  have "in_key_order (JObject [(''b'', JNull), (''a'', JNumber ''1'')]) = in_key_order (JObject [(''a'', JNumber ''1''), (''b'', JNull)])"
    by code_simp
  moreover have "in_key_order (JArray [JBool True, JNull]) \<noteq> in_key_order (JArray [JNull, JBool True])" by code_simp
  ultimately show ?thesis unfolding settings_digest_exact [OF sample_scalar_text] by blast
qed

end
