(* ===== verification/Paths.thy ===== *)
theory Paths
  imports Digest "HOL-Library.Sublist"
begin

text \<open>
  Lexical paths: a location is the list of the components of a path (\<open>std::path\<close> on Unix), with the parent, the
  last name, joining and printing, and the machine home of crates/core/src/util/paths.rs.
\<close>

type_synonym location = "component list"

section \<open>Locations\<close>

text \<open>\<open>Path::parent\<close>, and \<open>Path::join\<close> of one name.\<close>

definition parent :: "location \<Rightarrow> location option" where
  "parent p = (if p = [] \<or> last p = RootDir then None else Some (butlast p))"

abbreviation below :: "location \<Rightarrow> string \<Rightarrow> location" where
  "below dir name \<equiv> dir @ [Normal name]"

text \<open>\<open>Path::file_name\<close>, and the text of a location that has only its root and names.\<close>

definition file_name :: "location \<Rightarrow> string option" where
  "file_name p = (case rev p of Normal n # _ \<Rightarrow> Some n | _ \<Rightarrow> None)"

fun component_text :: "component \<Rightarrow> string" where
  "component_text RootDir = []"
| "component_text CurDir = ''.''"
| "component_text ParentDir = ''..''"
| "component_text (Normal n) = n"

definition show_location :: "location \<Rightarrow> string" where
  "show_location p =
     (case p of
        RootDir # rest \<Rightarrow> ''/'' @ join_with ''/'' (map component_text rest)
      | _ \<Rightarrow> join_with ''/'' (map component_text p))"

text \<open>\<open>agentstack_home\<close> of crates/core/src/util/paths.rs, as the text of the path.\<close>

definition join_path :: "string \<Rightarrow> string \<Rightarrow> string" where
  "join_path base rel =
     (if starts_with rel ''/'' then rel
      else if base = [] \<or> last base = CHR ''/'' then base @ rel else base @ ''/'' @ rel)"

definition agentstack_home :: "string option \<Rightarrow> string option \<Rightarrow> string" where
  "agentstack_home env_home home_dir =
     (case env_home of
        Some dir \<Rightarrow> dir
      | None \<Rightarrow> join_path (case home_dir of Some h \<Rightarrow> h | None \<Rightarrow> ''.'') ''.agentstack'')"

lemma components_join:
  assumes "CHR ''/'' \<notin> set n" "n \<notin> {[], ''.'', ''..''}" "base \<noteq> []"
  shows "components (join_path base n) = components base @ [Normal n]"
proof -
  have n: "\<not> starts_with n ''/''" using assms(1) by (auto simp: starts_with_iff)
  have s: "split_on (CHR ''/'') n = [n]" using assms(1) by simp
  show ?thesis
  proof (cases "last base = CHR ''/''")
    case True
    then obtain b where b: "base = b @ ''/''" using assms(3) by (metis append_butlast_last_id)
    have "split_on (CHR ''/'') (join_path base n) = split_on (CHR ''/'') b @ [n]"
      using n True b s split_on_append [of "CHR ''/''" b n] by (simp add: join_path_def)
    moreover have "split_on (CHR ''/'') base = split_on (CHR ''/'') b @ [[]]"
      using split_on_append [of "CHR ''/''" b "[]"] b by simp
    moreover have "starts_with (join_path base n) ''/'' = starts_with base ''/''"
      using b n True by (cases b) (auto simp: join_path_def starts_with_iff)
    ultimately show ?thesis using assms(2) b n True
      by (auto simp: components_def Let_def hd_append join_path_def starts_with_iff)
  next
    case False
    have "split_on (CHR ''/'') (join_path base n) = split_on (CHR ''/'') base @ [n]"
      using n False assms(3) s split_on_append [of "CHR ''/''" base n] by (simp add: join_path_def)
    moreover have "starts_with (join_path base n) ''/'' = starts_with base ''/''"
      using n False assms(3) by (cases base) (auto simp: join_path_def starts_with_iff)
    ultimately show ?thesis using assms(2) by (auto simp: components_def Let_def hd_append)
  qed
qed

end
