(* ===== verification/Load.thy ===== *)
theory Load
  imports Config Paths Manifest "HOL-Library.AList"
begin

text \<open>
  Manifest loading of crates/core/src/manifest/load.rs: where a manifest is looked for, the upward search
  for a project, the deep merge of the local overlay, the schema errors and their repairs, the machine
  layer, and the merge of its instructions beneath a project. The TOML parser, serde's typing of a
  value, the file system and SHA-256 are parameters. A location is the list of its path components.
\<close>

section \<open>Where a manifest lives\<close>

definition MANIFEST_FILE :: string where
  "MANIFEST_FILE = ''agentstack.toml''"

definition LOCAL_FILE :: string where
  "LOCAL_FILE = ''agentstack.local.toml''"

definition MANIFEST_SUBDIR :: string where
  "MANIFEST_SUBDIR = ''.agentstack''"

definition SUPPORTED_MANIFEST_VERSION :: u32 where
  "SUPPORTED_MANIFEST_VERSION = 1"

definition resolve_manifest_dir :: "(location \<Rightarrow> bool) \<Rightarrow> location \<Rightarrow> location" where
  "resolve_manifest_dir exists base =
     (let nested = below base MANIFEST_SUBDIR in if exists (below nested MANIFEST_FILE) then nested else base)"

definition new_manifest_dir :: "(location \<Rightarrow> bool) \<Rightarrow> location \<Rightarrow> location" where
  "new_manifest_dir exists base =
     (if exists (below base MANIFEST_FILE) then base else below base MANIFEST_SUBDIR)"

text \<open>
  The upward search. \<open>home_layer\<close> holds at the home directory and above it, in either spelling;
  \<open>machine_layer\<close> at the machine home.
\<close>

definition home_layer :: "(location \<Rightarrow> location option) \<Rightarrow> location option \<Rightarrow> location \<Rightarrow> bool" where
  "home_layer canonicalize home dir \<longleftrightarrow>
     (case home of
        None \<Rightarrow> False
      | Some h \<Rightarrow>
          prefix dir h \<or>
          (case (canonicalize h, canonicalize dir) of (Some h', Some d) \<Rightarrow> prefix d h' | _ \<Rightarrow> False))"

definition machine_layer :: "(location \<Rightarrow> location option) \<Rightarrow> location \<Rightarrow> location \<Rightarrow> bool" where
  "machine_layer canonicalize machine_home dir \<longleftrightarrow>
     dir = machine_home \<or> (canonicalize machine_home \<noteq> None \<and> canonicalize dir = canonicalize machine_home)"

definition has_manifest :: "(location \<Rightarrow> bool) \<Rightarrow> location \<Rightarrow> bool" where
  "has_manifest exists dir \<longleftrightarrow>
     exists (below (below dir MANIFEST_SUBDIR) MANIFEST_FILE) \<or> exists (below dir MANIFEST_FILE)"

function discover_project_base_below ::
  "(location \<Rightarrow> bool) \<Rightarrow> (location \<Rightarrow> location option) \<Rightarrow> location \<Rightarrow> location option \<Rightarrow> location \<Rightarrow> location option" where
  "discover_project_base_below exists canonicalize machine_home home dir =
     (if home_layer canonicalize home dir then None
      else if machine_layer canonicalize machine_home dir then None
      else if has_manifest exists dir then Some dir
      else case parent dir of
             None \<Rightarrow> None
           | Some up \<Rightarrow> discover_project_base_below exists canonicalize machine_home home up)"
  by pat_completeness auto
termination
  by (relation "measure (\<lambda>(_, _, _, _, dir). length dir)") (auto simp: parent_def split: if_splits)

declare discover_project_base_below.simps [simp del]

definition discover_project_base ::
  "(location \<Rightarrow> bool) \<Rightarrow> (location \<Rightarrow> location option) \<Rightarrow> string option \<Rightarrow> string option \<Rightarrow> location \<Rightarrow> location option" where
  "discover_project_base exists canonicalize env_home home_dir start =
     discover_project_base_below exists canonicalize (components (agentstack_home env_home home_dir))
       (map_option components home_dir) start"

definition project_root_of :: "location \<Rightarrow> location" where
  "project_root_of dir =
     (if dir \<noteq> [] \<and> last dir = Normal MANIFEST_SUBDIR
      then (case parent dir of Some up \<Rightarrow> if up \<noteq> [] then up else dir | None \<Rightarrow> dir)
      else dir)"

section \<open>TOML values and the deep merge\<close>

datatype toml =
    TomlString string
  | TomlInteger int
  | TomlFloat string
  | TomlBoolean bool
  | TomlDatetime string
  | TomlArray "toml list"
  | TomlTable "(string \<times> toml) list"

text \<open>A table keeps its insertion order: an entry that is there is merged in place, a new one goes to the end.\<close>

function merge_value :: "toml \<Rightarrow> toml \<Rightarrow> toml"
  and merge_entries :: "(string \<times> toml) list \<Rightarrow> (string \<times> toml) list \<Rightarrow> (string \<times> toml) list" where
  "merge_value base overlay =
     (case (base, overlay) of
        (TomlTable base_tbl, TomlTable overlay_tbl) \<Rightarrow> TomlTable (merge_entries base_tbl overlay_tbl)
      | (_, overlay_val) \<Rightarrow> overlay_val)"
| "merge_entries base_tbl [] = base_tbl"
| "merge_entries base_tbl ((k, v) # rest) =
     merge_entries
       (case map_of base_tbl k of
          Some existing \<Rightarrow> AList.update k (merge_value existing v) base_tbl
        | None \<Rightarrow> base_tbl @ [(k, v)]) rest"
  by pat_completeness auto
termination
  by (relation "measure (\<lambda>x. case x of Inl (_, overlay) \<Rightarrow> 2 * size overlay
        | Inr (_, overlay_tbl) \<Rightarrow> 2 * size_list (size_prod (\<lambda>_. 0) size) overlay_tbl + 1)") auto

declare merge_value.simps [simp del]

section \<open>Schema errors\<close>

text \<open>What a load fails with; \<open>SchemaError\<close> carries the file, the line, the message with what it is about, and the repair.\<close>

datatype load_error =
    NoManifest location
  | ManifestUnread location read_error
  | OverlayUnread location string
  | ManifestOverLimit location nat
  | SyntaxError location string
  | SchemaError location "nat option" string string
  | VersionError location version_error

definition split_once_at :: "string \<Rightarrow> string \<Rightarrow> (string \<times> string) option" where
  "split_once_at pat s = map_option (\<lambda>i. (take i s, drop (i + length pat) s)) (find_sub pat s)"

text \<open>1-based; an offset that is no character boundary of the text counts all of it.\<close>

definition line_of :: "string \<Rightarrow> nat \<Rightarrow> nat" where
  "line_of s offset =
     (let before = (if offset = length s \<or> (offset < length s \<and> \<not> is_cont (byte (s ! offset))) then take offset s else s)
      in length (filter (\<lambda>c. c = CHR 0x0A) before) + 1)"

definition version_line :: string where
  "version_line = [CHR 0x0A] @ ''    version = '' @ show_nat (unat SUPPORTED_MANIFEST_VERSION)"

definition schema_fix :: "string \<Rightarrow> bool \<Rightarrow> string" where
  "schema_fix key missing =
     (let leaf = (case rsplit_once (CHR ''.'') key of Some (_, l) \<Rightarrow> l | None \<Rightarrow> key);
          q = dq; tick = [CHR 0x60]; nl = [CHR 0x0A]
      in if key = ''version'' \<and> missing then
           ''every manifest starts with its schema version '' @ em_dash @ '' add this as the first line:'' @ version_line
         else if key = ''version'' then ''the schema version is a plain number '' @ em_dash @ '' set:'' @ version_line
         else if leaf = ''type'' \<and> starts_with key ''servers.'' then
           ''every [servers.X] table declares how the server runs '' @ em_dash @ '' add one of:'' @ nl @ ''    type = '' @
           q @ ''stdio'' @ q @ ''   # a local command'' @ nl @ ''    type = '' @ q @ ''http'' @ q @ ''    # a remote URL''
         else if leaf \<in> {''event'', ''command''} \<and> starts_with key ''hooks.'' then
           ''every [hooks.X] table needs both keys, for example:'' @ nl @ ''    event = '' @ q @ ''PreToolUse'' @ q @ nl @
           ''    command = '' @ q @ ''./scripts/check.sh'' @ q
         else if key = [] then ''correct the manifest'' @ [CHR 0x27] @ ''s contents to match the schema''
         else if missing then tick @ key @ tick @ '' is required '' @ em_dash @ '' add it to this manifest''
         else ''correct the value of '' @ tick @ key @ tick @ '' in this manifest'')"

definition schema_error :: "location \<Rightarrow> string \<Rightarrow> nat option \<Rightarrow> load_error" where
  "schema_error path detail line =
     (let detail = trim_end detail; tick = [CHR 0x60];
          (message, table) =
            (case split_once_at ([CHR 0x0A] @ ''in '' @ tick) detail of
               Some (message, rest) \<Rightarrow> (trim_end message, strip_suffix tick rest)
             | None \<Rightarrow> (detail, None));
          missing = Option.bind (strip_prefix (''missing field '' @ tick) message) (strip_suffix tick);
          key = (case (missing, table) of
                   (Some field, Some table) \<Rightarrow> table @ ''.'' @ field
                 | (Some field, None) \<Rightarrow> field
                 | (None, Some table) \<Rightarrow> table
                 | (None, None) \<Rightarrow> []);
          located = (case (missing, table) of
                   (Some _, Some table) \<Rightarrow> '' in ['' @ table @ '']''
                 | (None, Some key) \<Rightarrow> '' at '' @ tick @ key @ tick
                 | (_, None) \<Rightarrow> [])
      in SchemaError path line (message @ located) (schema_fix key (missing \<noteq> None)))"

text \<open>
  \<open>try_into\<close> types a value; \<open>error_start\<close> is where the typed parse of a text reports its failure, \<open>None\<close>
  when it succeeds or reports no place.
\<close>

definition deserialize_manifest ::
  "(toml \<Rightarrow> (manifest, string) result) \<Rightarrow> (string \<Rightarrow> nat option) \<Rightarrow> location \<Rightarrow> toml \<Rightarrow> string option
    \<Rightarrow> (manifest, load_error) result" where
  "deserialize_manifest try_into error_start path v source =
     (case try_into v of
        Inr m \<Rightarrow> Inr m
      | Inl e \<Rightarrow> Inl (schema_error path e (Option.bind source (\<lambda>t. map_option (line_of t) (error_start t)))))"

section \<open>Loading a project\<close>

record loaded_manifest =
  ld_manifest :: manifest
  ld_manifest_path :: location
  ld_local_path :: "location option"
  ld_user_path :: "location option"

definition load_from_contents ::
  "(string \<Rightarrow> (toml, string) result) \<Rightarrow> (toml \<Rightarrow> (manifest, string) result) \<Rightarrow> (string \<Rightarrow> nat option)
    \<Rightarrow> location \<Rightarrow> string \<Rightarrow> string option \<Rightarrow> (loaded_manifest, load_error) result" where
  "load_from_contents from_str try_into error_start dir manifest_text local_text =
     (let manifest_path = below dir MANIFEST_FILE; local_path = below dir LOCAL_FILE in
      if MAX_CONFIG_BYTES < length manifest_text then Inl (ManifestOverLimit manifest_path MAX_CONFIG_BYTES)
      else and_then (map_err (SyntaxError manifest_path) (from_str manifest_text)) (\<lambda>base.
        and_then
          (case local_text of
             None \<Rightarrow> Inr base
           | Some t \<Rightarrow> and_then (map_err (SyntaxError local_path) (from_str t)) (\<lambda>overlay. Inr (merge_value base overlay))) (\<lambda>v.
        and_then (deserialize_manifest try_into error_start manifest_path v
                    (if local_text = None then Some manifest_text else None)) (\<lambda>m.
        and_then (map_err (VersionError manifest_path) (check_schema_version (mf_version m) SUPPORTED_MANIFEST_VERSION)) (\<lambda>_.
        Inr \<lparr>ld_manifest = m, ld_manifest_path = manifest_path,
             ld_local_path = map_option (\<lambda>_. local_path) local_text, ld_user_path = None\<rparr>)))))"

text \<open>\<open>opened\<close> gives the bytes of a file, or why they cannot be had.\<close>

definition load_from_dir ::
  "(location \<Rightarrow> bool) \<Rightarrow> (location \<Rightarrow> (string, string) result) \<Rightarrow> (string \<Rightarrow> (toml, string) result)
    \<Rightarrow> (toml \<Rightarrow> (manifest, string) result) \<Rightarrow> (string \<Rightarrow> nat option) \<Rightarrow> location \<Rightarrow> (loaded_manifest, load_error) result" where
  "load_from_dir exists opened from_str try_into error_start dir =
     (let manifest_path = below dir MANIFEST_FILE; local_path = below dir LOCAL_FILE in
      if \<not> exists manifest_path then Inl (NoManifest (project_root_of dir))
      else and_then (map_err (ManifestUnread manifest_path)
                       (read_to_string_bounded (opened manifest_path) MAX_CONFIG_BYTES)) (\<lambda>base_text.
        and_then
          (if exists local_path
           then and_then (map_err (OverlayUnread local_path) (opened local_path)) (\<lambda>bytes.
                  if utf8_valid bytes then Inr (Some bytes) else Inl (OverlayUnread local_path ''stream did not contain valid UTF-8''))
           else Inr None) (\<lambda>local_text.
        load_from_contents from_str try_into error_start dir base_text local_text)))"

section \<open>The machine layer\<close>

definition machine_manifest ::
  "(location \<Rightarrow> bool) \<Rightarrow> (location \<Rightarrow> (string, string) result) \<Rightarrow> (string \<Rightarrow> (toml, string) result)
    \<Rightarrow> (toml \<Rightarrow> (manifest, string) result) \<Rightarrow> (string \<Rightarrow> nat option) \<Rightarrow> (string \<Rightarrow> string) \<Rightarrow> location
    \<Rightarrow> (manifest \<times> string, load_error) result option" where
  "machine_manifest exists opened from_str try_into error_start sha256 home =
     (let path = below home MANIFEST_FILE in
      if \<not> exists path then None
      else Some (and_then (map_err (ManifestUnread path) (read_to_string_bounded (opened path) MAX_CONFIG_BYTES)) (\<lambda>t.
        and_then (map_err (SyntaxError path) (from_str t)) (\<lambda>v.
        and_then (deserialize_manifest try_into error_start path v (Some t)) (\<lambda>m.
        and_then (map_err (VersionError path) (check_schema_version (mf_version m) SUPPORTED_MANIFEST_VERSION)) (\<lambda>_.
        Inr (m, sha256 t)))))))"

definition machine_policy_health :: "(manifest \<times> string, load_error) result option \<Rightarrow> (policy \<times> string, load_error) result option" where
  "machine_policy_health = map_option (map_sum id (\<lambda>(m, source_digest). (mf_policy m, source_digest)))"

definition machine_guard_health :: "(manifest \<times> string, load_error) result option \<Rightarrow> (guard_config, load_error) result option" where
  "machine_guard_health = map_option (map_sum id (\<lambda>(m, _). mf_guard m))"

definition machine_experimental_health ::
  "(manifest \<times> string, load_error) result option \<Rightarrow> (experimental_config, load_error) result option" where
  "machine_experimental_health = map_option (map_sum id (\<lambda>(m, _). mf_experimental m))"

text \<open>
  A relative body path, anchored at the machine home: a leading \<open>.\<close> component is stripped, and with it
  the separators and dots around what is left.
\<close>

definition strip_dot_slash :: "string \<Rightarrow> string" where
  "strip_dot_slash declared =
     (let segs = split_on (CHR ''/'') declared; empty = (\<lambda>seg. seg = [] \<or> seg = ''.'')
      in if hd segs = ''.''
         then join_with ''/'' (rev (dropWhile empty (rev (dropWhile empty (tl segs)))))
         else declared)"

definition anchor :: "string \<Rightarrow> string \<Rightarrow> string" where
  "anchor home declared =
     (if starts_with declared ''/'' then declared else join_path home (strip_dot_slash declared))"

definition inherit :: "string \<Rightarrow> instruction \<Rightarrow> instruction" where
  "inherit home instr =
     instr\<lparr>in_path := map_option (anchor home) (in_path instr),
           in_variants := map (\<lambda>v. v\<lparr>iv_path := anchor home (iv_path v)\<rparr>) (in_variants instr),
           in_from_user_layer := True\<rparr>"

definition inherit_instructions :: "string \<Rightarrow> manifest \<Rightarrow> loaded_manifest \<Rightarrow> loaded_manifest" where
  "inherit_instructions home user loaded =
     (let own = mf_instructions (ld_manifest loaded);
          merged = map (\<lambda>(name, instr). (name, inherit home instr))
            (filter (\<lambda>(name, _). map_of own name = None) (mf_instructions user))
      in if merged = [] then loaded
         else loaded\<lparr>ld_manifest := (ld_manifest loaded)\<lparr>mf_instructions := merged @ own\<rparr>,
                     ld_user_path := Some (below (components home) MANIFEST_FILE)\<rparr>)"

text \<open>\<open>typed\<close> is the typed parse of a text.\<close>

definition merge_user_layer ::
  "(location \<Rightarrow> bool) \<Rightarrow> (location \<Rightarrow> location option) \<Rightarrow> (location \<Rightarrow> string option) \<Rightarrow> (string \<Rightarrow> manifest option)
    \<Rightarrow> string \<Rightarrow> loaded_manifest \<Rightarrow> loaded_manifest" where
  "merge_user_layer exists canonicalize read typed home loaded =
     (let home_dir = components home; user_manifest = below home_dir MANIFEST_FILE;
          project_dir = (case parent (ld_manifest_path loaded) of Some d \<Rightarrow> d | None \<Rightarrow> [CurDir]);
          same = (case (canonicalize home_dir, canonicalize project_dir) of
                    (Some a, Some b) \<Rightarrow> a = b
                  | _ \<Rightarrow> home_dir = project_dir)
      in if \<not> exists user_manifest \<or> same then loaded
         else case Option.bind (read user_manifest) typed of
           None \<Rightarrow> loaded
         | Some user \<Rightarrow>
             if \<not> is_ok (check_schema_version (mf_version user) SUPPORTED_MANIFEST_VERSION) then loaded
             else inherit_instructions home user loaded)"

lemma merge_user_layer_cases:
  "merge_user_layer exists canonicalize read typed home loaded = loaded \<or>
   (\<exists>user. merge_user_layer exists canonicalize read typed home loaded = inherit_instructions home user loaded)"
  by (cases "Option.bind (read (below (components home) MANIFEST_FILE)) typed") (auto simp: merge_user_layer_def Let_def)

section \<open>The merge\<close>

definition merged_entry :: "toml option \<Rightarrow> toml option \<Rightarrow> toml option" where
  "merged_entry b o' =
     (case (b, o') of
        (Some x, Some y) \<Rightarrow> Some (merge_value x y)
      | (Some x, None) \<Rightarrow> Some x
      | (None, y) \<Rightarrow> y)"

lemma merge_entries_step:
  "merge_entries b ((k, v) # rest) =
     merge_entries (AList.update k (case map_of b k of Some x \<Rightarrow> merge_value x v | None \<Rightarrow> v) b) rest"
proof -
  have "map_of b k = None \<Longrightarrow> AList.update k v b = b @ [(k, v)]"
    by (induction b) (auto split: if_splits)
  then show ?thesis by (auto split: option.splits)
qed

lemma map_of_merge_entries:
  "distinct (map fst o') \<Longrightarrow> map_of (merge_entries b o') k = merged_entry (map_of b k) (map_of o' k)"
proof (induction o' arbitrary: b)
  case Nil
  then show ?case by (simp add: merged_entry_def split: option.splits)
next
  case (Cons e rest)
  obtain j v where e: "e = (j, v)" by fastforce
  have d: "distinct (map fst rest)" using Cons.prems by simp
  have "j \<notin> fst ` set rest" using Cons.prems by (simp add: e)
  then have none: "map_of rest j = None" by (simp add: map_of_eq_None_iff)
  show ?case
    by (simp only: e merge_entries_step Cons.IH [OF d] update_conv)
      (use none in \<open>auto simp: merged_entry_def split: option.splits\<close>)
qed

lemma keys_merge_entries:
  "distinct (map fst b) \<Longrightarrow> distinct (map fst o') \<Longrightarrow>
   map fst (merge_entries b o') = map fst b @ filter (\<lambda>k. k \<notin> fst ` set b) (map fst o')"
proof (induction o' arbitrary: b)
  case (Cons e rest)
  obtain j v where e: "e = (j, v)" by fastforce
  let ?b = "AList.update j (case map_of b j of Some x \<Rightarrow> merge_value x v | None \<Rightarrow> v) b"
  have keys: "map fst ?b = (if j \<in> fst ` set b then map fst b else map fst b @ [j])" by (simp add: update_keys)
  then have "set (map fst ?b) = insert j (set (map fst b))" by auto
  then have set: "fst ` set ?b = insert j (fst ` set b)" by simp
  have "distinct (map fst ?b)" using Cons.prems(1) by (rule distinct_update)
  from Cons.IH [OF this] Cons.prems(2) have
    "map fst (merge_entries ?b rest) = map fst ?b @ filter (\<lambda>k. k \<notin> fst ` set ?b) (map fst rest)" by simp
  moreover have "filter (\<lambda>k. k \<notin> fst ` set ?b) (map fst rest) = filter (\<lambda>k. k \<notin> fst ` set b) (map fst rest)"
    using Cons.prems(2) unfolding set by (auto simp: e image_iff intro!: filter_cong)
  ultimately show ?case by (simp add: e merge_entries_step keys del: merge_entries.simps)
qed simp

section \<open>Values at paths\<close>

fun is_table :: "toml \<Rightarrow> bool" where
  "is_table (TomlTable t) = True"
| "is_table _ = False"

fun toml_at :: "toml \<Rightarrow> string list \<Rightarrow> toml option" where
  "toml_at v [] = Some v"
| "toml_at (TomlTable t) (k # p) = (case map_of t k of None \<Rightarrow> None | Some x \<Rightarrow> toml_at x p)"
| "toml_at _ (k # p) = None"

text \<open>What a parsed document has: no table with a key twice.\<close>

fun unique_keys :: "toml \<Rightarrow> bool" where
  "unique_keys (TomlTable t) \<longleftrightarrow> distinct (map fst t) \<and> list_all (\<lambda>(k, v). unique_keys v) t"
| "unique_keys _ = True"

text \<open>The overlay says something that is no table above the path, so nothing of the base is left there.\<close>

definition shadowed :: "toml \<Rightarrow> string list \<Rightarrow> bool" where
  "shadowed v p \<longleftrightarrow> (\<exists>q x. strict_prefix q p \<and> toml_at v q = Some x \<and> \<not> is_table x)"

lemma merge_value_other: "\<not> (is_table x \<and> is_table y) \<Longrightarrow> merge_value x y = y"
  by (subst merge_value.simps) (auto split: toml.splits)

lemma toml_at_other: "\<not> is_table v \<Longrightarrow> p \<noteq> [] \<Longrightarrow> toml_at v p = None"
  by (cases v; cases p) auto

lemma shadowed_Nil [simp]: "\<not> shadowed v []"
  by (simp add: shadowed_def)

lemma shadowed_Cons: "shadowed (TomlTable t) (k # p) \<longleftrightarrow> (\<exists>x. map_of t k = Some x \<and> shadowed x p)"
proof
  assume "shadowed (TomlTable t) (k # p)"
  then obtain q x where q: "strict_prefix q (k # p)" "toml_at (TomlTable t) q = Some x" "\<not> is_table x" by (auto simp: shadowed_def)
  then obtain q' where "q = k # q'" "strict_prefix q' p" by (cases q) auto
  with q show "\<exists>x. map_of t k = Some x \<and> shadowed x p" by (auto simp: shadowed_def split: option.splits)
next
  assume "\<exists>x. map_of t k = Some x \<and> shadowed x p"
  then obtain x q y where "map_of t k = Some x" "strict_prefix q p" "toml_at x q = Some y" "\<not> is_table y" by (auto simp: shadowed_def)
  then show "shadowed (TomlTable t) (k # p)" unfolding shadowed_def by (intro exI [of _ "k # q"] exI [of _ y]) simp
qed

lemma shadowed_other: "\<not> is_table v \<Longrightarrow> p \<noteq> [] \<Longrightarrow> shadowed v p"
  unfolding shadowed_def by (intro exI [of _ "[]"] exI [of _ v]) (cases p; simp)

lemma shadowed_none: "shadowed x q \<Longrightarrow> toml_at x q = None"
proof (induction q arbitrary: x)
  case (Cons j q)
  then show ?case by (cases x) (auto simp: shadowed_Cons split: option.splits)
qed simp

lemma toml_at_merged:
  "unique_keys o' \<Longrightarrow> toml_at (merge_value b o') p = (if shadowed o' p then None else merged_entry (toml_at b p) (toml_at o' p))"
proof (induction p arbitrary: b o')
  case Nil
  show ?case by (simp add: merged_entry_def)
next
  case (Cons k p)
  show ?case
  proof (cases "is_table b \<and> is_table o'")
    case False
    then consider "\<not> is_table o'" | "is_table o'" "\<not> is_table b" by blast
    then show ?thesis
    proof cases
      case 1
      then show ?thesis by (simp add: merge_value_other shadowed_other toml_at_other)
    next
      case 2
      then obtain t where t: "o' = TomlTable t" by (cases o') auto
      from shadowed_none have "shadowed o' (k # p) \<Longrightarrow> toml_at o' (k # p) = None" .
      with 2 show ?thesis by (simp add: merge_value_other toml_at_other merged_entry_def split: option.splits)
    qed
  next
    case True
    then obtain t u where t: "b = TomlTable t" and u: "o' = TomlTable u" by (cases b; cases o') auto
    from Cons.prems have d: "distinct (map fst u)" and in_u: "map_of u k = Some y \<Longrightarrow> unique_keys y" for y
      by (auto simp: u list_all_iff dest!: map_of_SomeD)
    have m: "map_of (merge_entries t u) k = merged_entry (map_of t k) (map_of u k)" by (rule map_of_merge_entries [OF d])
    show ?thesis
      using Cons.IH [OF in_u] m
      by (cases "map_of t k"; cases "map_of u k")
        (auto simp: t u merge_value.simps [of "TomlTable t" "TomlTable u"] shadowed_Cons merged_entry_def shadowed_none split: option.splits)
  qed
qed

section \<open>Properties\<close>

text \<open>C25.
  The merge, at every path: what lies below a value of the overlay that is no table is gone; where both layers say
  something the result is the merge of the two, which is the overlay's value unless both are tables; where one of
  them does it is that one's. Of two tables the keys of the manifest stay in place and the new ones follow in order.\<close>

theorem overlay_merge_exact:
  assumes "unique_keys o'"
  shows "toml_at (merge_value b o') p =
      (if shadowed o' p then None
       else case (toml_at b p, toml_at o' p) of
         (Some x, Some y) \<Rightarrow> Some (merge_value x y) | (Some x, None) \<Rightarrow> Some x | (None, y) \<Rightarrow> y) \<and>
    (\<not> (is_table x \<and> is_table y) \<longrightarrow> merge_value x y = y) \<and>
    (distinct (map fst t) \<and> distinct (map fst u) \<longrightarrow>
       (\<exists>r. merge_value (TomlTable t) (TomlTable u) = TomlTable r \<and>
          map fst r = map fst t @ filter (\<lambda>k. k \<notin> fst ` set t) (map fst u)))"
  using toml_at_merged [OF assms, of b p] merge_value_other [of x y] keys_merge_entries [of t u]
  by (simp add: merged_entry_def merge_value.simps [of "TomlTable t" "TomlTable u"])

theorem overlay_merge_exact_witness:
  "toml_at (merge_value (TomlTable [(''a'', TomlTable [(''b'', TomlInteger 1)]), (''c'', TomlInteger 2)]) (TomlTable [(''a'', TomlInteger 5)]))
     [''a'', ''b''] = None \<and>
   toml_at (merge_value (TomlTable [(''a'', TomlTable [(''b'', TomlInteger 1)]), (''c'', TomlInteger 2)]) (TomlTable [(''a'', TomlInteger 5)]))
     [''c''] = Some (TomlInteger 2)"
proof -
  let ?b = "TomlTable [(''a'', TomlTable [(''b'', TomlInteger 1)]), (''c'', TomlInteger 2)]" and ?o = "TomlTable [(''a'', TomlInteger 5)]"
  have u: "unique_keys ?o" by simp
  have "shadowed ?o [''a'', ''b'']" "\<not> shadowed ?o [''c'']" by (simp_all add: shadowed_Cons shadowed_other)
  then show ?thesis using overlay_merge_exact [OF u, of ?b "[''a'', ''b'']"] overlay_merge_exact [OF u, of ?b "[''c'']"] by simp
qed

text \<open>
  A project loads exactly when its manifest is at most 8 MiB, both layers parse, their merge types as a manifest
  and its version is the supported one; what is loaded is that typed merge and no other, and the error of a
  failed typing points at a line only when there is no overlay.\<close>

theorem load_exact:
  "(load_from_contents from_str try_into error_start dir t lcl = Inr ld \<longleftrightarrow>
     length t \<le> 8 * 1024 * 1024 \<and>
     (\<exists>base v m. from_str t = Inr base \<and>
        (case lcl of None \<Rightarrow> v = base | Some l \<Rightarrow> \<exists>overlay. from_str l = Inr overlay \<and> v = merge_value base overlay) \<and>
        try_into v = Inr m \<and> mf_version m = 1 \<and>
        ld = \<lparr>ld_manifest = m, ld_manifest_path = dir @ [Normal ''agentstack.toml''],
              ld_local_path = map_option (\<lambda>_. dir @ [Normal ''agentstack.local.toml'']) lcl, ld_user_path = None\<rparr>)) \<and>
   (load_from_contents from_str try_into error_start dir t (Some l) \<noteq> Inl (SchemaError p (Some n) msg fix))"
proof -
  have one: "0 < x \<and> x \<le> SUPPORTED_MANIFEST_VERSION \<longleftrightarrow> x = 1" for x :: u32
    by (auto simp: SUPPORTED_MANIFEST_VERSION_def word_less_nat_alt word_le_nat_alt word_unat_eq_iff)
  have d: "deserialize_manifest try_into error_start p v s = Inr m \<longleftrightarrow> try_into v = Inr m" for p v s m
    by (auto simp: deserialize_manifest_def schema_error_def Let_def split: sum.splits prod.splits)
  have n: "deserialize_manifest try_into error_start q v None \<noteq> Inl (SchemaError p (Some n) msg fix)" for q v
    by (auto simp: deserialize_manifest_def schema_error_def Let_def split: sum.splits prod.splits)
  show ?thesis
  proof (intro conjI)
    show "load_from_contents from_str try_into error_start dir t (Some l) \<noteq> Inl (SchemaError p (Some n) msg fix)"
      using n by (auto simp: load_from_contents_def and_then_Inl map_err_Inl and_then_Inr Let_def)
    show "load_from_contents from_str try_into error_start dir t lcl = Inr ld \<longleftrightarrow>
     length t \<le> 8 * 1024 * 1024 \<and>
     (\<exists>base v m. from_str t = Inr base \<and>
        (case lcl of None \<Rightarrow> v = base | Some l \<Rightarrow> \<exists>overlay. from_str l = Inr overlay \<and> v = merge_value base overlay) \<and>
        try_into v = Inr m \<and> mf_version m = 1 \<and>
        ld = \<lparr>ld_manifest = m, ld_manifest_path = dir @ [Normal ''agentstack.toml''],
              ld_local_path = map_option (\<lambda>_. dir @ [Normal ''agentstack.local.toml'']) lcl, ld_user_path = None\<rparr>)"
      by (cases lcl) (auto simp: load_from_contents_def and_then_Inr Let_def d one MAX_CONFIG_BYTES_def MANIFEST_FILE_def LOCAL_FILE_def)
  qed
qed

definition anchored :: "string \<Rightarrow> string \<Rightarrow> bool" where
  "anchored home q \<longleftrightarrow> starts_with q ''/'' \<or> (\<exists>r. q = join_path home r)"

definition instruction_paths :: "instruction \<Rightarrow> string list" where
  "instruction_paths i = (case in_path i of Some q \<Rightarrow> [q] | None \<Rightarrow> []) @ map iv_path (in_variants i)"

lemma inherit_anchored [simp]:
  "in_from_user_layer (inherit home i)" "list_all (anchored home) (instruction_paths (inherit home i))"
proof -
  have "anchored home (anchor home q)" for q by (auto simp: anchored_def anchor_def)
  then show "in_from_user_layer (inherit home i)" "list_all (anchored home) (instruction_paths (inherit home i))"
    by (auto simp: inherit_def instruction_paths_def list_all_iff split: option.splits)
qed

text \<open>
  The machine layer adds instructions and nothing else: every field but the instructions is the project's, every
  instruction the project declares is kept as it is, and each inherited one comes before them, is flagged, is not
  declared by the project and has, in every variant, an absolute path or one joined to the machine home.\<close>

theorem user_layer_isolated:
  assumes "merge_user_layer exists canonicalize read typed home loaded = after"
  shows "ld_manifest after = (ld_manifest loaded)\<lparr>mf_instructions := mf_instructions (ld_manifest after)\<rparr> \<and>
    (\<exists>inherited. mf_instructions (ld_manifest after) = inherited @ mf_instructions (ld_manifest loaded) \<and>
       (\<forall>(name, i) \<in> set inherited. map_of (mf_instructions (ld_manifest loaded)) name = None \<and> in_from_user_layer i \<and>
          list_all (anchored home) (instruction_paths i)))"
proof (cases "after = loaded")
  case True
  then show ?thesis by (intro conjI exI [of _ "[]"]) simp_all
next
  case False
  with merge_user_layer_cases assms obtain user where u: "after = inherit_instructions home user loaded" by metis
  with False show ?thesis
    by (auto simp: inherit_instructions_def Let_def split: if_splits)
qed

definition sample_manifest :: "(string \<times> instruction) list \<Rightarrow> manifest" where
  "sample_manifest is =
     \<lparr>mf_version = 1, mf_meta = \<lparr>mt_name = None, mt_gitignore = None\<rparr>, mf_servers = [], mf_skills = [],
      mf_default_toolset = None, mf_profiles = [], mf_instructions = is, mf_settings = [], mf_hooks = [], mf_extensions = [],
      mf_workflows = [], mf_packs = [], mf_package_overrides = [], mf_targets_default = [], mf_policy = default_policy,
      mf_guard = \<lparr>gc_enabled = None, gc_allow_roots = [], gc_project_roots = []\<rparr>,
      mf_experimental = \<lparr>xc_tools_execute = False,
        xc_tools_execute_limits = \<lparr>xl_timeout_ms = None, xl_max_calls = None, xl_max_output_bytes = None\<rparr>\<rparr>,
      mf_delivery = \<lparr>dl_render_locally = None, dl_harness = []\<rparr>\<rparr>"

definition sample_instruction :: "string \<Rightarrow> instruction" where
  "sample_instruction path = \<lparr>in_path = Some path, in_targets = all_targets, in_variants = [], in_from_user_layer = False\<rparr>"

definition sample_loaded :: loaded_manifest where
  "sample_loaded =
     \<lparr>ld_manifest = sample_manifest [(''a'', sample_instruction ''./p.md'')],
      ld_manifest_path = [RootDir, Normal ''p'', Normal ''agentstack.toml''], ld_local_path = None, ld_user_path = None\<rparr>"

theorem user_layer_isolated_witness:
  "\<exists>after. merge_user_layer (\<lambda>_. True) (\<lambda>_. None) (\<lambda>_. Some [])
       (\<lambda>_. Some (sample_manifest [(''a'', sample_instruction ''x''), (''b'', sample_instruction ''./x.md'')])) ''/h'' sample_loaded = after \<and>
     map_of (mf_instructions (ld_manifest after)) ''b'' = Some ((sample_instruction ''/h/x.md'')\<lparr>in_from_user_layer := True\<rparr>) \<and>
     map_of (mf_instructions (ld_manifest after)) ''a'' = Some (sample_instruction ''./p.md'') \<and>
     mf_policy (ld_manifest after) = default_policy"
proof -
  let ?after = "merge_user_layer (\<lambda>_. True) (\<lambda>_. None) (\<lambda>_. Some [])
       (\<lambda>_. Some (sample_manifest [(''a'', sample_instruction ''x''), (''b'', sample_instruction ''./x.md'')])) ''/h'' sample_loaded"
  have "mf_policy (ld_manifest ?after) = default_policy"
    using conjunct1 [OF user_layer_isolated [OF refl, of "\<lambda>_. True" "\<lambda>_. None" "\<lambda>_. Some []"
      "\<lambda>_. Some (sample_manifest [(''a'', sample_instruction ''x''), (''b'', sample_instruction ''./x.md'')])" "''/h''" sample_loaded]]
    by (simp add: manifest.simps sample_loaded_def) (metis manifest.select_convs(15) manifest.update_convs(7) sample_manifest_def)
  moreover have "map_of (mf_instructions (ld_manifest ?after)) ''b'' = Some ((sample_instruction ''/h/x.md'')\<lparr>in_from_user_layer := True\<rparr>)"
    "map_of (mf_instructions (ld_manifest ?after)) ''a'' = Some (sample_instruction ''./p.md'')"
    by code_simp+
  ultimately show ?thesis by blast
qed

section \<open>The upward search\<close>

definition level :: "string list \<Rightarrow> nat \<Rightarrow> location" where
  "level names k = RootDir # map Normal (take k names)"

definition fence :: "(location \<Rightarrow> location option) \<Rightarrow> location \<Rightarrow> location option \<Rightarrow> location \<Rightarrow> bool" where
  "fence canonicalize machine_home home d \<longleftrightarrow>
     home_layer canonicalize home d \<or> machine_layer canonicalize machine_home d"

lemma parent_level: "k < length names \<Longrightarrow> parent (level names (Suc k)) = Some (level names k)"
  by (simp add: parent_def level_def take_Suc_conv_app_nth)

lemma parent_root: "parent (level names 0) = None"
  by (simp add: parent_def level_def)

lemma discover_step:
  "discover_project_base_below exists canonicalize mh home d =
     (if fence canonicalize mh home d then None
      else if has_manifest exists d then Some d
      else Option.bind (parent d) (discover_project_base_below exists canonicalize mh home))"
  by (subst discover_project_base_below.simps) (simp add: fence_def split: option.splits)

lemma ex_le_Suc: "(\<exists>i \<le> Suc k. Q i) \<longleftrightarrow> Q (Suc k) \<or> (\<exists>i \<le> k. Q i)"
  by (metis le_Suc_eq)

lemma ex_le_conj: "(\<And>i. i \<le> k \<Longrightarrow> P i \<longleftrightarrow> A \<and> B \<and> Q i) \<Longrightarrow> (\<exists>i \<le> k. P i) \<longleftrightarrow> A \<and> B \<and> (\<exists>i \<le> k. Q i)" for k :: nat
  by blast

lemma nearest_Suc:
  "(\<exists>i \<le> Suc k. d = L i \<and> m i \<and> (\<forall>j. i \<le> j \<and> j \<le> Suc k \<longrightarrow> \<not> f j) \<and> (\<forall>j. i < j \<and> j \<le> Suc k \<longrightarrow> \<not> m j)) \<longleftrightarrow>
   \<not> f (Suc k) \<and>
   (if m (Suc k) then d = L (Suc k)
    else \<exists>i \<le> k. d = L i \<and> m i \<and> (\<forall>j. i \<le> j \<and> j \<le> k \<longrightarrow> \<not> f j) \<and> (\<forall>j. i < j \<and> j \<le> k \<longrightarrow> \<not> m j))"
  (is "(\<exists>i \<le> Suc k. ?P i (Suc k)) \<longleftrightarrow> _")
proof -
  have inner: "?P i (Suc k) \<longleftrightarrow> \<not> f (Suc k) \<and> \<not> m (Suc k) \<and> ?P i k" if "i \<le> k" for i
  proof -
    have "(\<forall>j. i \<le> j \<and> j \<le> Suc k \<longrightarrow> Q j) \<longleftrightarrow> Q (Suc k) \<and> (\<forall>j. i \<le> j \<and> j \<le> k \<longrightarrow> Q j)"
      "(\<forall>j. i < j \<and> j \<le> Suc k \<longrightarrow> Q j) \<longleftrightarrow> Q (Suc k) \<and> (\<forall>j. i < j \<and> j \<le> k \<longrightarrow> Q j)" for Q
    proof -
      have "i \<le> j \<and> j \<le> Suc k \<longleftrightarrow> j = Suc k \<or> (i \<le> j \<and> j \<le> k)" "i < j \<and> j \<le> Suc k \<longleftrightarrow> j = Suc k \<or> (i < j \<and> j \<le> k)" for j
        using that by linarith+
      then show "(\<forall>j. i \<le> j \<and> j \<le> Suc k \<longrightarrow> Q j) \<longleftrightarrow> Q (Suc k) \<and> (\<forall>j. i \<le> j \<and> j \<le> k \<longrightarrow> Q j)"
        "(\<forall>j. i < j \<and> j \<le> Suc k \<longrightarrow> Q j) \<longleftrightarrow> Q (Suc k) \<and> (\<forall>j. i < j \<and> j \<le> k \<longrightarrow> Q j)"
        by simp_all blast+
    qed
    from this [of "\<lambda>j. \<not> f j"] this [of "\<lambda>j. \<not> m j"] show ?thesis by satx
  qed
  have last: "?P (Suc k) (Suc k) \<longleftrightarrow> \<not> f (Suc k) \<and> m (Suc k) \<and> d = L (Suc k)"
  proof -
    have a: "(\<forall>j. Suc k \<le> j \<and> j \<le> Suc k \<longrightarrow> \<not> f j) \<longleftrightarrow> \<not> f (Suc k)" by (metis order_antisym order_refl)
    have b: "(\<forall>j. Suc k < j \<and> j \<le> Suc k \<longrightarrow> \<not> m j) \<longleftrightarrow> True" by (metis leD)
    show ?thesis unfolding a b by satx
  qed
  have split: "(\<exists>i \<le> Suc k. ?P i (Suc k)) \<longleftrightarrow> ?P (Suc k) (Suc k) \<or> (\<exists>i \<le> k. ?P i (Suc k))"
    by (rule ex_le_Suc)
  have rest: "(\<exists>i \<le> k. ?P i (Suc k)) \<longleftrightarrow> \<not> f (Suc k) \<and> \<not> m (Suc k) \<and> (\<exists>i \<le> k. ?P i k)"
    by (rule ex_le_conj, rule inner)
  show ?thesis unfolding split last rest by (cases "m (Suc k)") simp_all
qed

lemma discover_level:
  "k \<le> length names \<Longrightarrow>
   discover_project_base_below exists canonicalize mh home (level names k) = Some d \<longleftrightarrow>
     (\<exists>i \<le> k. d = level names i \<and> has_manifest exists (level names i) \<and>
        (\<forall>j. i \<le> j \<and> j \<le> k \<longrightarrow> \<not> fence canonicalize mh home (level names j)) \<and>
        (\<forall>j. i < j \<and> j \<le> k \<longrightarrow> \<not> has_manifest exists (level names j)))"
proof (induction k)
  case 0
  show ?case by (subst discover_step) (auto simp: parent_root)
next
  case (Suc k)
  then show ?case
    unfolding nearest_Suc [where L = "level names" and m = "\<lambda>i. has_manifest exists (level names i)"]
    by (subst discover_step) (auto simp: parent_level)
qed

text \<open>
  The project found from a directory is the nearest directory at or above it with a manifest, provided that neither
  it nor any directory on the way is the machine home, the home directory or above the home directory; in every
  other case no project is found.\<close>

theorem discover_nearest:
  "discover_project_base_below exists canonicalize mh home (level names (length names)) = Some d \<longleftrightarrow>
     (\<exists>i \<le> length names. d = level names i \<and> has_manifest exists (level names i) \<and>
        (\<forall>j. i \<le> j \<and> j \<le> length names \<longrightarrow>
           \<not> home_layer canonicalize home (level names j) \<and> \<not> machine_layer canonicalize mh (level names j)) \<and>
        (\<forall>j. i < j \<and> j \<le> length names \<longrightarrow> \<not> has_manifest exists (level names j)))"
  unfolding discover_level [OF order_refl] fence_def de_Morgan_disj by (rule refl)

theorem discover_nearest_witness:
  "discover_project_base_below (\<lambda>p. p = below (level [''p''] 1) MANIFEST_FILE) (\<lambda>_. None) (level [''m''] 1) None
     (level [''p'', ''q''] 2) = Some (level [''p'', ''q''] 1) \<and>
   discover_project_base_below (\<lambda>p. p = below (level [''p''] 1) MANIFEST_FILE) (\<lambda>_. None) (level [''m''] 1)
     (Some (level [''p'', ''h''] 2)) (level [''p'', ''q''] 2) = None"
proof -
  let ?ex = "\<lambda>p. p = below (level [''p''] 1) MANIFEST_FILE"
  let ?s = "level [''p'', ''q''] (length [''p'', ''q''])"
  have s: "level [''p'', ''q''] 2 = ?s" by (simp add: level_def)
  have l: "level [''p'', ''q''] j = (if j = 0 then [RootDir] else if j = 1 then [RootDir, Normal ''p''] else [RootDir, Normal ''p'', Normal ''q''])" for j
    by (cases j; cases "j - 1") (auto simp: level_def)
  have v: "level [''m''] (Suc 0) = [RootDir, Normal ''m'']" "level [''p''] (Suc 0) = [RootDir, Normal ''p'']"
    "level [''p'', ''h''] 2 = [RootDir, Normal ''p'', Normal ''h'']" by (simp_all add: level_def)
  note defs = has_manifest_def home_layer_def machine_layer_def MANIFEST_SUBDIR_def
  have "discover_project_base_below ?ex (\<lambda>_. None) (level [''m''] 1) None ?s = Some (level [''p'', ''q''] 1)"
    by (subst discover_nearest, intro exI [of _ 1]) (auto simp: l v defs)
  moreover have "discover_project_base_below ?ex (\<lambda>_. None) (level [''m''] 1) (Some (level [''p'', ''h''] 2)) ?s \<noteq> Some d" for d
    by (subst discover_nearest) (auto simp: l v defs split: if_splits)
  then have "discover_project_base_below ?ex (\<lambda>_. None) (level [''m''] 1) (Some (level [''p'', ''h''] 2)) ?s = None"
    by (cases "discover_project_base_below ?ex (\<lambda>_. None) (level [''m''] 1) (Some (level [''p'', ''h''] 2)) ?s") auto
  ultimately show ?thesis unfolding s by blast
qed

end
