(* ===== verification/Utf8.thy ===== *)
theory Utf8
  imports Strings
begin

text \<open>
  Valid UTF-8 text as a list of encoded characters, with the operations the program uses on it:
  iteration by characters, character boundaries and truncation at one.
\<close>

section \<open>Characters\<close>

definition utf8_char :: "string \<Rightarrow> bool" where
  "utf8_char c \<longleftrightarrow> utf8_head c = (True, length c)"

function utf8_chars :: "string \<Rightarrow> string list" where
  "utf8_chars s =
     (if s = [] then [] else let n = snd (utf8_head s) in take n s # utf8_chars (drop n s))"
  by pat_completeness auto
termination
  by (relation "measure length") (simp_all add: utf8_head_pos)

declare utf8_chars.simps [simp del]

lemma utf8_char_append: "utf8_char c \<Longrightarrow> utf8_head (c @ r) = (True, length c)"
proof -
  assume c: "utf8_char c"
  then have "c \<noteq> []" using utf8_head_pos [of c] by (auto simp: utf8_char_def)
  moreover have "at (c @ r) i = at c i" if "i < length c" for i using that by (simp add: at_def nth_append)
  ultimately show ?thesis
    using c unfolding utf8_char_def utf8_head_def Let_def by (auto split: if_splits)
qed

lemma utf8_head_take:
  assumes "utf8_head s = (True, n)" "s \<noteq> []"
  shows "utf8_char (take n s) \<and> n \<le> length s"
proof -
  have le: "n \<le> length s"
    using assms unfolding utf8_head_def Let_def at_def is_cont_def
    by (cases s) (auto simp: Suc_le_eq split: if_splits)
  have "0 < n" using utf8_head_pos [of s] assms(1) by simp
  have "at (take n s) i = at s i" if "i < n" for i using that le by (simp add: at_def)
  with assms(1) le show ?thesis
    unfolding utf8_char_def utf8_head_def Let_def by (auto split: if_splits)
qed

lemma utf8_chars_concat:
  "list_all utf8_char cs \<Longrightarrow> utf8_chars (concat cs) = cs \<and> utf8_valid (concat cs)"
proof (induction cs)
  case Nil
  show ?case by (simp add: utf8_chars.simps utf8_valid_Nil)
next
  case (Cons c cs)
  then have h: "utf8_head (c @ concat cs) = (True, length c)" by (simp add: utf8_char_append)
  then have "c \<noteq> []" using utf8_head_pos [of "c @ concat cs"] by auto
  with h Cons show ?case by (simp add: utf8_chars.simps [of "c @ _"] utf8_valid.simps [of "c @ _"])
qed

lemma utf8_valid_chars: "utf8_valid s \<Longrightarrow> list_all utf8_char (utf8_chars s) \<and> concat (utf8_chars s) = s"
proof (induction s rule: utf8_chars.induct)
  case (1 s)
  show ?case
  proof (cases "s = []")
    case True
    then show ?thesis by (simp add: utf8_chars.simps)
  next
    case False
    with "1.prems" have h: "fst (utf8_head s)" "utf8_valid (drop (snd (utf8_head s)) s)"
      by (simp_all add: utf8_valid.simps [of s] split: if_splits)
    then have "utf8_head s = (True, snd (utf8_head s))" by (metis prod.collapse)
    from utf8_head_take [OF this False] "1.IH" [OF False refl h(2)] False show ?thesis
      by (simp add: utf8_chars.simps [of s] Let_def)
  qed
qed

lemma utf8_valid_iff: "utf8_valid s \<longleftrightarrow> (\<exists>cs. list_all utf8_char cs \<and> s = concat cs)"
  using utf8_chars_concat utf8_valid_chars by metis

lemma utf8_valid_append: "utf8_valid a \<Longrightarrow> utf8_valid b \<Longrightarrow> utf8_valid (a @ b)"
  unfolding utf8_valid_iff by (metis concat_append list_all_append)

section \<open>Boundaries\<close>

definition is_char_boundary :: "string \<Rightarrow> nat \<Rightarrow> bool" where
  "is_char_boundary s i \<longleftrightarrow> i = 0 \<or> i = length s \<or> (i < length s \<and> \<not> is_cont (byte (s ! i)))"

text \<open>The loop that walks back to the last boundary at or before an offset.\<close>

fun floor_boundary :: "string \<Rightarrow> nat \<Rightarrow> nat" where
  "floor_boundary s 0 = 0"
| "floor_boundary s (Suc n) = (if is_char_boundary s (Suc n) then Suc n else floor_boundary s n)"

definition truncate_bytes :: "nat \<Rightarrow> string \<Rightarrow> string" where
  "truncate_bytes cap s = (if cap < length s then take (floor_boundary s cap) s else s)"

lemma utf8_char_bytes:
  assumes "utf8_char c" "i < length c"
  shows "is_cont (byte (c ! i)) \<longleftrightarrow> i \<noteq> 0"
proof -
  have "length c \<noteq> 0" using assms by auto
  then have "length c \<in> {1, 2, 3, 4}"
    using assms(1) unfolding utf8_char_def utf8_head_def Let_def by (auto split: if_splits)
  then have "i = 0 \<or> i = 1 \<or> i = 2 \<or> i = 3" using assms(2) by auto
  then show ?thesis
    using assms unfolding utf8_char_def utf8_head_def Let_def at_def is_cont_def
    by (elim disjE) (auto split: if_splits)
qed

lemma first_byte: "list_all utf8_char cs \<Longrightarrow> concat cs \<noteq> [] \<Longrightarrow> \<not> is_cont (byte (concat cs ! 0))"
proof (induction cs)
  case (Cons c cs)
  then have "c \<noteq> []" using utf8_head_pos [of c] by (auto simp: utf8_char_def)
  with Cons.prems utf8_char_bytes [of c 0] show ?case by (simp add: nth_append)
qed simp

lemma boundary_concat:
  "list_all utf8_char cs \<Longrightarrow>
   is_char_boundary (concat cs) i \<longleftrightarrow> (\<exists>k \<le> length cs. i = length (concat (take k cs)))"
proof (induction cs arbitrary: i)
  case Nil
  then show ?case by (auto simp: is_char_boundary_def)
next
  case (Cons c cs)
  have c: "utf8_char c" using Cons.prems by simp
  then have pos: "0 < length c" using utf8_head_pos [of c] by (simp add: utf8_char_def)
  show ?case
  proof (cases "i < length c")
    case True
    have "(\<exists>k \<le> length (c # cs). i = length (concat (take k (c # cs)))) \<longleftrightarrow> i = 0"
    proof
      assume "\<exists>k \<le> length (c # cs). i = length (concat (take k (c # cs)))"
      then obtain k where "i = length (concat (take k (c # cs)))" by blast
      with True show "i = 0" by (cases k) auto
    qed (intro exI [of _ 0], simp)
    moreover have "is_char_boundary (concat (c # cs)) i \<longleftrightarrow> i = 0"
      using True utf8_char_bytes [OF c True] pos by (auto simp: is_char_boundary_def nth_append)
    ultimately show ?thesis by simp
  next
    case False
    then have "is_char_boundary (concat (c # cs)) i \<longleftrightarrow> is_char_boundary (concat cs) (i - length c)"
      using pos Cons.prems first_byte [of cs] by (auto simp: is_char_boundary_def nth_append)
    also have "\<dots> \<longleftrightarrow> (\<exists>k \<le> length cs. i - length c = length (concat (take k cs)))"
      using Cons by simp
    also have "\<dots> \<longleftrightarrow> (\<exists>k \<le> length (c # cs). i = length (concat (take k (c # cs))))"
    proof
      assume "\<exists>k \<le> length cs. i - length c = length (concat (take k cs))"
      then obtain k where "k \<le> length cs" "i - length c = length (concat (take k cs))" by blast
      with False show "\<exists>k \<le> length (c # cs). i = length (concat (take k (c # cs)))"
        by (intro exI [of _ "Suc k"]) auto
    next
      assume "\<exists>k \<le> length (c # cs). i = length (concat (take k (c # cs)))"
      then obtain k where k: "k \<le> length (c # cs)" "i = length (concat (take k (c # cs)))" by blast
      with False pos show "\<exists>k \<le> length cs. i - length c = length (concat (take k cs))"
        by (cases k) auto
    qed
    finally show ?thesis .
  qed
qed

lemma floor_boundary:
  "floor_boundary s n \<le> n \<and> is_char_boundary s (floor_boundary s n) \<and>
   (\<forall>i. floor_boundary s n < i \<and> i \<le> n \<longrightarrow> \<not> is_char_boundary s i)"
proof (induction n)
  case 0
  show ?case by (auto simp: is_char_boundary_def)
next
  case (Suc n)
  then show ?case by (auto simp: le_Suc_eq)
qed

lemma concat_take_mono: "j \<le> k \<Longrightarrow> length (concat (take j cs)) \<le> length (concat (take k cs))"
proof -
  assume "j \<le> k"
  then have "take k cs = take j cs @ take (k - j) (drop j cs)" by (metis le_add_diff_inverse take_add)
  then show ?thesis by simp
qed

text \<open>Truncation keeps the longest prefix of whole characters that fits.\<close>

lemma truncate_chars:
  assumes "list_all utf8_char cs"
  shows "\<exists>k \<le> length cs. truncate_bytes cap (concat cs) = concat (take k cs) \<and>
    length (concat (take k cs)) \<le> cap \<and> (k < length cs \<longrightarrow> cap < length (concat (take (Suc k) cs)))"
proof (cases "cap < length (concat cs)")
  case False
  then show ?thesis by (intro exI [of _ "length cs"]) (simp add: truncate_bytes_def)
next
  case True
  let ?n = "floor_boundary (concat cs) cap"
  obtain k where k: "k \<le> length cs" "?n = length (concat (take k cs))"
    using floor_boundary [of "concat cs" cap] boundary_concat [OF assms] by metis
  have "concat cs = concat (take k cs) @ concat (drop k cs)" by (metis append_take_drop_id concat_append)
  then have "take ?n (concat cs) = concat (take k cs)" using k(2) by simp
  moreover have "?n \<le> cap" using floor_boundary by blast
  moreover have "cap < length (concat (take (Suc k) cs))" if "k < length cs"
  proof (rule ccontr)
    assume n: "\<not> cap < length (concat (take (Suc k) cs))"
    have "utf8_char (cs ! k)" using assms that by (simp add: list_all_length)
    then have "cs ! k \<noteq> []" using utf8_head_pos [of "cs ! k"] by (auto simp: utf8_char_def)
    then have "?n < length (concat (take (Suc k) cs))" using that k(2) by (simp add: take_Suc_conv_app_nth)
    moreover have "is_char_boundary (concat cs) (length (concat (take (Suc k) cs)))"
      unfolding boundary_concat [OF assms] using that by (intro exI [of _ "Suc k"]) simp
    ultimately show False using floor_boundary [of "concat cs" cap] n by (meson not_less)
  qed
  ultimately show ?thesis using True k by (intro exI [of _ k]) (simp add: truncate_bytes_def)
qed

section \<open>Reading characters off\<close>

lemma utf8_chars_Nil [simp]: "utf8_chars [] = []"
  by (simp add: utf8_chars.simps)

lemma utf8_chars_append: "utf8_char c \<Longrightarrow> utf8_chars (c @ r) = c # utf8_chars r"
proof -
  assume c: "utf8_char c"
  then have "c \<noteq> []" using utf8_head_pos [of c] by (auto simp: utf8_char_def)
  with utf8_char_append [OF c, of r] show ?thesis by (simp add: utf8_chars.simps [of "c @ r"])
qed

lemma utf8_char_ascii: "is_ascii c \<Longrightarrow> utf8_char [c]"
  by (simp add: utf8_char_def utf8_head_def Let_def at_def is_ascii_def)

lemma utf8_chars_Cons_ascii: "is_ascii c \<Longrightarrow> utf8_chars (c # r) = [c] # utf8_chars r"
  using utf8_chars_append [OF utf8_char_ascii, of c r] by simp

lemma utf8_chars_ascii: "list_all is_ascii s \<Longrightarrow> utf8_chars s = map (\<lambda>c. [c]) s"
  by (induction s) (simp_all add: utf8_chars_Cons_ascii)

lemma utf8_char_high:
  assumes "utf8_char c" "a \<in> set c" "is_ascii a"
  shows "c = [a]"
proof -
  obtain i where i: "i < length c" "c ! i = a" using assms(2) by (auto simp: in_set_conv_nth)
  with assms(3) have "\<not> is_cont (byte (c ! i))" by (simp add: is_cont_def is_ascii_def)
  then have "i = 0" using utf8_char_bytes [OF assms(1) i(1)] by simp
  then have "at c 0 < 128" using i assms(3) by (simp add: at_def is_ascii_def)
  then have "length c = 1" using assms(1) unfolding utf8_char_def utf8_head_def Let_def by (auto split: if_splits)
  with i \<open>i = 0\<close> show ?thesis by (cases c) auto
qed

end
