(* ===== verification/Recorder.thy ===== *)
theory Recorder
  imports Utf8 Load
begin

text \<open>
  The evidence streams of crates/recorder/src/lib.rs: the machine-wide call, trust and load logs with their
  rotation, the digest key, the bounded strings of a skill load, the run-scoped event log, and the readers,
  the chunked backward one included. Serialization, parsing, SHA-256 and what each file operation
  returns are arguments.
\<close>

section \<open>Records\<close>

datatype call_outcome = CallOk | CallError | CallDenied

fun outcome_as_str :: "call_outcome \<Rightarrow> string" where
  "outcome_as_str CallOk = ''ok''"
| "outcome_as_str CallError = ''error''"
| "outcome_as_str CallDenied = ''denied''"

record call_record =
  cr_ts :: u64
  cr_run :: "string option"
  cr_pid :: u32
  cr_project :: "string option"
  cr_server :: string
  cr_tool :: string
  cr_args_digest :: string
  cr_outcome :: call_outcome
  cr_detail :: "string option"
  cr_ms :: u64

datatype trust_action = Grant | Regrant | Repin | Revoke | Decide | Undecide

record trust_mutation =
  tm_ts :: u64
  tm_action :: trust_action
  tm_project :: string
  tm_digest :: string

record load_record =
  lr_ts :: u64
  lr_name :: string
  lr_reason :: string
  lr_project :: "string option"
  lr_run :: "string option"

type_synonym i32 = "32 word"

text \<open>The first argument of every event is its time stamp.\<close>

datatype (plugins only: code size) run_event =
    ExecutionStarted u64 (ev_execution: string) (ev_parent: "string option") (ev_source: string) (ev_input: string)
      (ev_authority: string) (ev_runtime: string) (ev_tools: "string list") (ev_limits: json)
  | ExecutionFinished u64 (ev_execution: string) (ev_outcome: string) u64 u32 (ev_result: "string option") u64 u64
  | ExecutionLimitHit u64 (ev_execution: string) (ev_limit: string) u64
  | RuntimeImagePulled u64 (ev_image: string)
  | SandboxStarted u64 (ev_image: string) (ev_workspace: string)
  | Egress u64 (ev_server: string) (ev_host: string) (ev_allowed: bool) (ev_rule: "string option")
  | ToolCall u64 (ev_caller: "string option") (ev_server: string) (ev_tool: string) call_outcome (ev_args: string)
      (ev_detail: "string option") u64
  | SecretAccess u64 (ev_server: string) (ev_reference: string)
  | SecretDenied u64 (ev_server: string) (ev_reference: string) (ev_denial: string)
  | PinRejected u64 (ev_server: string) (ev_reason: string)
  | TrustRefused u64 (ev_server: string) (ev_tool: string) (ev_state: string) (ev_reason: string)
  | FenceRefused u64 (ev_server: string) (ev_tool: string) (ev_toolset: "string option") (ev_reason: string)
  | SkillLoaded u64 (ev_name: string) (ev_reason: string)
  | SandboxExited u64 (ev_code: "i32 option")
  | HostStarted u64 (ev_harness: string) (ev_posture: string)
  | HostExited u64 (ev_outcome: string) (ev_code: "i32 option") u64
  | AttemptStarted u64 (ev_harness: string) (ev_posture: string)
  | GateDecision u64 (ev_gate: string) (ev_passed: bool) (ev_detail: "string option")
  | GrantFrozen u64 (ev_grant: string)
  | LockedOutcome u64 (ev_outcome: string) (ev_code: "i32 option") u64 (ev_grant_option: "string option") (ev_usage: string)
  | HeadlessOutput u64 u64 (ev_sha256: string) (ev_truncated: bool)
  | WorkflowStarted u64 (ev_workflow: string) (ev_workflow_digest: string) (ev_grant: string) (ev_args: string) u32 u64
  | StepSpawned u64 (ev_step: u64) (ev_role: string) (ev_child: string) (ev_request: string) (ev_label: "string option")
      (ev_taint: "u64 list") (ev_serial: bool) (ev_codex_residual: bool)
  | StepCompleted u64 (ev_step: u64)
  | WorkflowResumed u64 u64
  | StepFailed u64 (ev_step: u64) (ev_reason: string)
  | WorkflowCompleted u64 (ev_outcome: string) (ev_exhausted: bool) u64

section \<open>The digest of arguments\<close>

datatype key_open = KeyCreated bool | KeyExists "string option" | KeyOpenFailed

text \<open>
  The key file as it is, whether its directory can be made, the random bytes drawn, and what opening it for
  creation gives: a new file (and whether the write succeeds), an existing one (and what reading it again
  gives) or an error.
\<close>

definition usable_key :: "string option \<Rightarrow> string option" where
  "usable_key file = (case file of Some k \<Rightarrow> if 16 \<le> length k then Some k else None | None \<Rightarrow> None)"

definition digest_key :: "string option \<Rightarrow> bool \<Rightarrow> string \<Rightarrow> key_open \<Rightarrow> string option" where
  "digest_key key_file dir_made random opened =
     (case usable_key key_file of
        Some k \<Rightarrow> Some k
      | None \<Rightarrow>
          if \<not> dir_made then None
          else case opened of
              KeyCreated written \<Rightarrow> if written then Some random else None
            | KeyExists reread \<Rightarrow> usable_key reread
            | KeyOpenFailed \<Rightarrow> None)"

text \<open>\<open>to_string\<close> is serde_json's text of the arguments, \<open>None\<close> when it fails; \<open>sha256\<close> gives the hex text.\<close>

definition digest_args :: "(string \<Rightarrow> string) \<Rightarrow> ('v \<Rightarrow> string option) \<Rightarrow> string option \<Rightarrow> 'v \<Rightarrow> string" where
  "digest_args sha256 to_string key args =
     take 12 (sha256 ((case key of Some k \<Rightarrow> k | None \<Rightarrow> []) @ (case to_string args of Some t \<Rightarrow> t | None \<Rightarrow> [])))"

section \<open>Appending\<close>

definition MAX_BYTES :: nat where
  "MAX_BYTES = 5 * 1024 * 1024"

text \<open>A stream on disk: the current generation and the rotated one, \<open>None\<close> for a missing file.\<close>

record stream =
  st_current :: "string option"
  st_rotated :: "string option"

text \<open>
  What the file operations of one append do: whether the directory is there, the rename works and the file
  opens, and how many bytes reach it (\<open>None\<close> for all: a crash or a full disk can stop a write in the middle).
\<close>

record append_run =
  ar_dir_made :: bool
  ar_renamed :: bool
  ar_opened :: bool
  ar_written :: "nat option"

definition write_all :: "nat option \<Rightarrow> string \<Rightarrow> string option \<Rightarrow> string option" where
  "write_all written line current =
     Some ((case current of Some c \<Rightarrow> c | None \<Rightarrow> []) @ (case written of None \<Rightarrow> line | Some n \<Rightarrow> take n line))"

definition rotate_stream :: "append_run \<Rightarrow> stream \<Rightarrow> stream" where
  "rotate_stream r s =
     (if (case st_current s of Some c \<Rightarrow> MAX_BYTES < length c | None \<Rightarrow> False) \<and> ar_renamed r
      then \<lparr>st_current = None, st_rotated = st_current s\<rparr> else s)"

definition append_audit_line :: "append_run \<Rightarrow> string \<Rightarrow> bool \<Rightarrow> stream \<Rightarrow> stream" where
  "append_audit_line r line rotates s =
     (if \<not> ar_dir_made r then s
      else
        (let s = (if rotates then rotate_stream r s else s) in
         if ar_opened r then s\<lparr>st_current := write_all (ar_written r) (line @ [CHR 0x0A]) (st_current s)\<rparr> else s))"

definition record_line :: "('r \<Rightarrow> string option) \<Rightarrow> bool \<Rightarrow> append_run \<Rightarrow> 'r \<Rightarrow> stream \<Rightarrow> stream" where
  "record_line to_string rotates r rec s =
     (case to_string rec of None \<Rightarrow> s | Some line \<Rightarrow> append_audit_line r line rotates s)"

definition record_call :: "(call_record \<Rightarrow> string option) \<Rightarrow> append_run \<Rightarrow> call_record \<Rightarrow> stream \<Rightarrow> stream" where
  "record_call to_string = record_line to_string True"

definition record_trust :: "(trust_mutation \<Rightarrow> string option) \<Rightarrow> append_run \<Rightarrow> trust_mutation \<Rightarrow> stream \<Rightarrow> stream" where
  "record_trust to_string = record_line to_string False"

definition LOAD_NAME_CAP :: nat where "LOAD_NAME_CAP = 200"
definition LOAD_REASON_CAP :: nat where "LOAD_REASON_CAP = 500"

text \<open>\<open>char::is_control\<close> on the encoding of a character: U+0000 to U+001F and U+007F to U+009F.\<close>

definition is_control :: "string \<Rightarrow> bool" where
  "is_control c \<longleftrightarrow>
     (case map byte c of
        [b] \<Rightarrow> b < 32 \<or> b = 127
      | [b, d] \<Rightarrow> b = 194 \<and> d < 160
      | _ \<Rightarrow> False)"

definition bounded :: "string \<Rightarrow> nat \<Rightarrow> string" where
  "bounded s cap = truncate_bytes cap (concat (filter (\<lambda>c. \<not> is_control c) (utf8_chars s)))"

definition new_load_record :: "u64 \<Rightarrow> string \<Rightarrow> string \<Rightarrow> string option \<Rightarrow> string option \<Rightarrow> load_record" where
  "new_load_record ts name reason project run =
     \<lparr>lr_ts = ts, lr_name = bounded name LOAD_NAME_CAP, lr_reason = bounded reason LOAD_REASON_CAP,
      lr_project = project, lr_run = run\<rparr>"

definition record_skill_load :: "(load_record \<Rightarrow> string option) \<Rightarrow> append_run \<Rightarrow> load_record \<Rightarrow> stream \<Rightarrow> stream" where
  "record_skill_load to_string r rec =
     record_line to_string True r (new_load_record (lr_ts rec) (lr_name rec) (lr_reason rec) (lr_project rec) (lr_run rec))"

section \<open>Reading\<close>

text \<open>The whole file as text: nothing when it is missing, unreadable or not UTF-8.\<close>

definition read_all :: "(string \<Rightarrow> 'r option) \<Rightarrow> string option \<Rightarrow> 'r list" where
  "read_all from_str file =
     (case Option.bind file from_utf8 of None \<Rightarrow> [] | Some t \<Rightarrow> List.map_filter from_str (str_lines t))"

definition TAIL_CHUNK_BYTES :: nat where
  "TAIL_CHUNK_BYTES = 64 * 1024"

definition last_n :: "nat \<Rightarrow> 'a list \<Rightarrow> 'a list" where
  "last_n n xs = rev (take n (rev xs))"

text \<open>The lines of the window that are whole: everything after its first newline, or all of it at the start of the file.\<close>

definition whole_lines :: "nat \<Rightarrow> string \<Rightarrow> string list" where
  "whole_lines start window =
     (if start = 0 then split_on (CHR 0x0A) window
      else case split_once (CHR 0x0A) window of Some (_, rest) \<Rightarrow> split_on (CHR 0x0A) rest | None \<Rightarrow> [[]])"

text \<open>\<open>readable\<close> tells at which offsets seeking and reading succeed.\<close>

function tail_loop :: "(string \<Rightarrow> 'r option) \<Rightarrow> (nat \<Rightarrow> bool) \<Rightarrow> nat \<Rightarrow> string \<Rightarrow> nat \<Rightarrow> string \<Rightarrow> 'r list" where
  "tail_loop from_slice readable n file start window =
     (let chunk_len = min start TAIL_CHUNK_BYTES; start' = start - chunk_len in
      if \<not> readable start' then []
      else
        (let window = take chunk_len (drop start' file) @ window;
             records = List.map_filter from_slice (whole_lines start' window)
         in if n \<le> length records \<or> start' = 0 then last_n n records
            else tail_loop from_slice readable n file start' window))"
  by pat_completeness auto
termination
  by (relation "measure (\<lambda>(_, _, _, _, start, _). start)") (auto simp: TAIL_CHUNK_BYTES_def)

declare tail_loop.simps [simp del]

definition read_tail_of :: "(string \<Rightarrow> 'r option) \<Rightarrow> (nat \<Rightarrow> bool) \<Rightarrow> string option \<Rightarrow> nat \<Rightarrow> 'r list" where
  "read_tail_of from_slice readable file n =
     (if n = 0 then []
      else case file of None \<Rightarrow> [] | Some f \<Rightarrow> tail_loop from_slice readable n f (length f) [])"

section \<open>The log of one run\<close>

definition safe_run_segment :: "string \<Rightarrow> bool" where
  "safe_run_segment run_id \<longleftrightarrow>
     run_id \<noteq> [] \<and> length run_id \<le> 128 \<and> run_id \<noteq> ''.'' \<and> run_id \<noteq> ''..'' \<and>
     list_all (\<lambda>b. is_ascii_alphanumeric b \<or> b = CHR ''-'' \<or> b = CHR ''_'' \<or> b = CHR ''.'') run_id"

definition run_dir :: "string \<Rightarrow> string \<Rightarrow> string option" where
  "run_dir home run_id =
     (if safe_run_segment run_id then Some (join_path (join_path home ''runs'') run_id) else None)"

text \<open>The directory of the log; \<open>made\<close> is whether it could be created.\<close>

definition create_run_log :: "string \<Rightarrow> bool \<Rightarrow> string \<Rightarrow> string option" where
  "create_run_log home made run_id = Option.bind (run_dir home run_id) (\<lambda>dir. if made then Some dir else None)"

definition append_event :: "(run_event \<Rightarrow> (string, string) result) \<Rightarrow> append_run \<Rightarrow> run_event \<Rightarrow> string option \<Rightarrow> string option" where
  "append_event to_string r ev file =
     (case to_string ev of
        Inl _ \<Rightarrow> file
      | Inr line \<Rightarrow> if ar_opened r then write_all (ar_written r) (line @ [CHR 0x0A]) file else file)"

datatype append_error = NotSerialized string | NotOpened | NotWritten

definition append_checked ::
  "(run_event \<Rightarrow> (string, string) result) \<Rightarrow> append_run \<Rightarrow> run_event \<Rightarrow> string option
    \<Rightarrow> (unit, append_error) result \<times> string option" where
  "append_checked to_string r ev file =
     (case to_string ev of
        Inl e \<Rightarrow> (Inl (NotSerialized e), file)
      | Inr line \<Rightarrow>
          if \<not> ar_opened r then (Inl NotOpened, file)
          else ((if ar_written r = None then Inr () else Inl NotWritten),
                write_all (ar_written r) (line @ [CHR 0x0A]) file))"

definition read_run :: "(string \<Rightarrow> run_event option) \<Rightarrow> string \<Rightarrow> (string \<Rightarrow> string option) \<Rightarrow> string \<Rightarrow> run_event list" where
  "read_run from_str home files run_id =
     (case run_dir home run_id of
        None \<Rightarrow> []
      | Some dir \<Rightarrow> read_all from_str (files (join_path dir ''events.jsonl'')))"

section \<open>The backward reader\<close>

lemma map_filter_append: "List.map_filter f (xs @ ys) = List.map_filter f xs @ List.map_filter f ys"
  by (simp add: List.map_filter_def)

lemma last_n_append: "n \<le> length ys \<Longrightarrow> last_n n (xs @ ys) = last_n n ys"
  by (simp add: last_n_def)

lemma whole_lines_suffix:
  assumes "start = 0 \<longrightarrow> pre = []" "from_slice [] = None"
  shows "\<exists>xs. List.map_filter from_slice (split_on (CHR 0x0A) (pre @ window)) =
    xs @ List.map_filter from_slice (whole_lines start window)"
proof (cases "start = 0 \<or> CHR 0x0A \<notin> set window")
  case True
  then show ?thesis
    using assms by (auto simp: whole_lines_def List.map_filter_def split: option.splits prod.splits)
      (metis append_Nil2 option.distinct(1) split_once_None)+
next
  case False
  then obtain a b where s: "split_once (CHR 0x0A) window = Some (a, b)"
    by (cases "split_once (CHR 0x0A) window") (auto simp: split_once_None)
  then have "window = a @ CHR 0x0A # b" by (simp add: split_once_Some)
  then have "split_on (CHR 0x0A) (pre @ window) = split_on (CHR 0x0A) (pre @ a) @ split_on (CHR 0x0A) b"
    using split_on_append [of "CHR 0x0A" "pre @ a" b] by simp
  with s False show ?thesis by (simp add: whole_lines_def map_filter_append)
qed

lemma tail_loop_exact:
  assumes "from_slice [] = None" "start \<le> length content" "\<And>i. readable i"
  shows "tail_loop from_slice readable n content start (drop start content) =
    last_n n (List.map_filter from_slice (split_on (CHR 0x0A) content))"
  using assms(2)
proof (induction start rule: less_induct)
  case (less start)
  define start' where "start' = start - min start TAIL_CHUNK_BYTES"
  have window: "take (min start TAIL_CHUNK_BYTES) (drop start' content) @ drop start content = drop start' content"
    using append_take_drop_id [of "min start TAIL_CHUNK_BYTES" "drop start' content"] by (simp add: start'_def)
  let ?records = "List.map_filter from_slice (whole_lines start' (drop start' content))"
  obtain xs where xs: "List.map_filter from_slice (split_on (CHR 0x0A) content) = xs @ ?records"
    using whole_lines_suffix [of start' "take start' content" from_slice "drop start' content"] assms(1) by auto
  have whole: "start' = 0 \<Longrightarrow> List.map_filter from_slice (split_on (CHR 0x0A) content) = ?records"
    by (simp add: whole_lines_def)
  have step: "tail_loop from_slice readable n content start (drop start content) =
      (if n \<le> length ?records \<or> start' = 0 then last_n n ?records
       else tail_loop from_slice readable n content start' (drop start' content))"
    by (subst tail_loop.simps) (simp only: Let_def assms(3) window start'_def [symmetric] not_True_eq_False if_False)
  show ?case
  proof (cases "n \<le> length ?records \<or> start' = 0")
    case True
    then show ?thesis unfolding step using xs whole last_n_append [of n ?records xs] by auto
  next
    case False
    then have "start' < start" by (auto simp: start'_def TAIL_CHUNK_BYTES_def)
    moreover have "start' \<le> length content" using less.prems by (simp add: start'_def)
    ultimately show ?thesis unfolding step using less.IH False by simp
  qed
qed

section \<open>Properties\<close>

text \<open>C24.
  The chunked backward reader gives what reading the whole file would: the last \<open>n\<close> records of its lines,
  whatever the chunk boundaries cut and whatever lines do not parse.\<close>

theorem tail_reader_exact:
  assumes "from_slice [] = None"
  shows "read_tail_of from_slice (\<lambda>_. True) (Some content) n =
    last_n n (List.map_filter from_slice (split_on (CHR 0x0A) content))"
proof (cases "n = 0")
  case True
  then show ?thesis by (simp add: read_tail_of_def last_n_def)
next
  case False
  with tail_loop_exact [where from_slice = from_slice and start = "length content" and content = content and readable = "\<lambda>_. True" and n = n] assms show ?thesis by (simp add: read_tail_of_def)
qed

definition sample_line :: "string \<Rightarrow> string option" where
  "sample_line l = (if l = [] \<or> hd l \<noteq> CHR ''r'' then None else Some l)"

theorem tail_reader_exact_witness:
  "read_tail_of sample_line (\<lambda>_. True) (Some (''r1'' @ [CHR 0x0A] @ ''x'' @ [CHR 0x0A] @ ''r2'' @ [CHR 0x0A] @ ''r3'')) 2 = [''r2'', ''r3'']"
proof -
  have n: "sample_line [] = None" by (simp add: sample_line_def)
  show ?thesis unfolding tail_reader_exact [of sample_line, OF n] by code_simp
qed

text \<open>
  What serde_json gives for a record: one line of UTF-8 text that reads back, without or with the carriage
  return a line reader would strip.
\<close>

definition line_codec :: "('r \<Rightarrow> string option) \<Rightarrow> (string \<Rightarrow> 'r option) \<Rightarrow> bool" where
  "line_codec to_string from_str \<longleftrightarrow>
     from_str [] = None \<and>
     (\<forall>r l. to_string r = Some l \<longrightarrow>
        from_str l = Some r \<and> utf8_valid l \<and> l \<noteq> [] \<and> CHR 0x0A \<notin> set l \<and> last l \<noteq> CHR 0x0D)"

definition append_ok :: append_run where
  "append_ok = \<lparr>ar_dir_made = True, ar_renamed = True, ar_opened = True, ar_written = None\<rparr>"

text \<open>A log of whole lines.\<close>

definition holds :: "('r \<Rightarrow> string option) \<Rightarrow> 'r list \<Rightarrow> string option \<Rightarrow> bool" where
  "holds to_string rs content \<longleftrightarrow>
     (\<forall>r \<in> set rs. to_string r \<noteq> None) \<and>
     (case content of None \<Rightarrow> rs = [] | Some f \<Rightarrow> f = concat (map (\<lambda>r. the (to_string r) @ [CHR 0x0A]) rs))"

lemma split_lines:
  "\<forall>l \<in> set ls. CHR 0x0A \<notin> set l \<Longrightarrow> split_on (CHR 0x0A) (concat (map (\<lambda>l. l @ [CHR 0x0A]) ls)) = ls @ [[]]"
  by (induction ls) simp_all

lemma newline_valid: "utf8_valid (CHR 0x0A # s) \<longleftrightarrow> utf8_valid s"
  by (rule utf8_valid_Cons_ascii) code_simp

lemma holds_read:
  assumes c: "line_codec to_string from_str" and h: "holds to_string rs (Some f)"
  shows "read_all from_str (Some f) = rs \<and> List.map_filter from_str (split_on (CHR 0x0A) f) = rs"
proof -
  let ?ls = "map (\<lambda>r. the (to_string r)) rs"
  have f: "f = concat (map (\<lambda>l. l @ [CHR 0x0A]) ?ls)" using h by (simp add: holds_def comp_def)
  have l: "\<forall>r \<in> set rs. from_str (the (to_string r)) = Some r \<and> utf8_valid (the (to_string r)) \<and> the (to_string r) \<noteq> [] \<and>
      CHR 0x0A \<notin> set (the (to_string r)) \<and> last (the (to_string r)) \<noteq> CHR 0x0D"
    using c h by (auto simp: line_codec_def holds_def)
  have s: "split_on (CHR 0x0A) f = ?ls @ [[]]" unfolding f using l by (intro split_lines) auto
  have "strip_cr (the (to_string r)) = the (to_string r)" if "r \<in> set rs" for r
    using bspec [OF l that] by (auto simp: strip_cr_def strip_suffix_Some split: option.splits)
  then have "str_lines f = ?ls" unfolding str_lines_def s by (simp add: Let_def map_idI)
  moreover have "List.map_filter from_str ?ls = rs"
    using l by (induction rs) (auto simp: List.map_filter_def)
  moreover have "utf8_valid f"
    unfolding f using l
    by (induction rs) (auto simp: utf8_valid_Nil newline_valid intro!: utf8_valid_append)
  moreover have "from_str [] = None" using c by (simp add: line_codec_def)
  ultimately show ?thesis
    by (simp add: read_all_def from_utf8_def s map_filter_append List.map_filter_def)
qed

lemma holds_append:
  assumes "holds to_string rs (st_current s)" "to_string r \<noteq> None"
    and "\<forall>c. st_current s = Some c \<longrightarrow> length c \<le> MAX_BYTES"
  shows "holds to_string (rs @ [r]) (st_current (record_line to_string rotates append_ok r s))"
  using assms
  by (auto simp: holds_def record_line_def append_audit_line_def append_ok_def rotate_stream_def write_all_def Let_def
      split: option.splits)

text \<open>
  Records that were appended read back in order, whole: as long as the file has not reached the rotation
  bound and the file operations succeed, the full reader gives exactly the records before and the new one, and the
  tail reader the last of them.\<close>

theorem log_round_trip:
  assumes "line_codec to_string from_str" "holds to_string rs (st_current s)" "to_string r \<noteq> None"
    and "\<forall>c. st_current s = Some c \<longrightarrow> length c \<le> 5 * 1024 * 1024"
  shows "read_all from_str (st_current (record_line to_string rotates append_ok r s)) = rs @ [r] \<and>
    read_tail_of from_str (\<lambda>_. True) (st_current (record_line to_string rotates append_ok r s)) n = last_n n (rs @ [r])"
proof -
  have h: "holds to_string (rs @ [r]) (st_current (record_line to_string rotates append_ok r s))"
    using assms(2-4) by (intro holds_append) (simp_all add: MAX_BYTES_def)
  then obtain f where f: "st_current (record_line to_string rotates append_ok r s) = Some f"
    by (cases "st_current (record_line to_string rotates append_ok r s)") (auto simp: holds_def)
  have "from_str [] = None" using assms(1) by (simp add: line_codec_def)
  from tail_reader_exact [of from_str, OF this, of f n] holds_read [OF assms(1), of "rs @ [r]" f] h f show ?thesis by simp
qed

definition sample_trust :: "string \<Rightarrow> trust_mutation" where
  "sample_trust p = \<lparr>tm_ts = 0, tm_action = Grant, tm_project = p, tm_digest = ''d''\<rparr>"

definition sample_print :: "trust_mutation \<Rightarrow> string option" where
  "sample_print m = (if m = sample_trust ''a'' then Some ''r1'' else if m = sample_trust ''b'' then Some ''r2'' else None)"

definition sample_parse :: "string \<Rightarrow> trust_mutation option" where
  "sample_parse l = (if l = ''r1'' then Some (sample_trust ''a'') else if l = ''r2'' then Some (sample_trust ''b'') else None)"

lemma sample_line_codec: "line_codec sample_print sample_parse"
proof -
  have "utf8_valid ''r1''" "utf8_valid ''r2''" by code_simp+
  then show ?thesis by (auto simp: line_codec_def sample_print_def sample_parse_def)
qed

theorem log_round_trip_witness:
  "read_all sample_parse (st_current (record_trust sample_print append_ok (sample_trust ''b'')
     \<lparr>st_current = Some (''r1'' @ [CHR 0x0A]), st_rotated = None\<rparr>)) = [sample_trust ''a'', sample_trust ''b'']"
proof -
  let ?s = "\<lparr>st_current = Some (''r1'' @ [CHR 0x0A]), st_rotated = None\<rparr>"
  have h: "holds sample_print [sample_trust ''a''] (st_current ?s)" by (simp add: holds_def sample_print_def)
  have p: "sample_print (sample_trust ''b'') \<noteq> None" by (simp add: sample_print_def)
  have l: "\<forall>c. st_current ?s = Some c \<longrightarrow> length c \<le> 5 * 1024 * 1024" by simp
  from log_round_trip [OF sample_line_codec h p l, of False] show ?thesis by (simp add: record_trust_def)
qed

text \<open>
  One torn byte hides a whole log from the full reader: when a write stops inside a multi-byte character, whatever
  valid lines come before it or are appended later, reading the log gives no record at all, while the tail
  reader still finds them.\<close>

theorem torn_byte_bricks_log:
  assumes "\<not> utf8_valid f" "from_str [] = None"
  shows "read_all from_str (Some f) = [] \<and>
    read_tail_of from_str (\<lambda>_. True) (Some f) n = last_n n (List.map_filter from_str (split_on (CHR 0x0A) f))"
  using assms tail_reader_exact [of from_str, OF assms(2)] by (simp add: read_all_def from_utf8_def)

theorem torn_byte_bricks_log_witness:
  "read_all sample_parse (Some (''r1'' @ [CHR 0x0A, CHR 0xC3, CHR 0x0A] @ ''r2'' @ [CHR 0x0A])) = [] \<and>
   read_tail_of sample_parse (\<lambda>_. True) (Some (''r1'' @ [CHR 0x0A, CHR 0xC3, CHR 0x0A] @ ''r2'' @ [CHR 0x0A])) 5 =
     [sample_trust ''a'', sample_trust ''b'']"
proof -
  let ?f = "''r1'' @ [CHR 0x0A, CHR 0xC3, CHR 0x0A] @ ''r2'' @ [CHR 0x0A]"
  have u: "\<not> utf8_valid ?f" by code_simp
  have n: "sample_parse [] = None" by (simp add: sample_parse_def)
  have "last_n 5 (List.map_filter sample_parse (split_on (CHR 0x0A) ?f)) = [sample_trust ''a'', sample_trust ''b'']"
    by (simp add: List.map_filter_def sample_parse_def last_n_def)
  with torn_byte_bricks_log [of ?f sample_parse, OF u n] show ?thesis by simp
qed

text \<open>
  A bounded string is the longest run of whole characters of the text without its control characters that fits
  the cap: it is valid UTF-8 of at most \<open>cap\<close> bytes, holds no control character, and bounding it again changes
  nothing.\<close>

theorem bounded_exact:
  assumes "utf8_valid s"
  shows "(\<exists>k. bounded s cap = concat (take k (filter (\<lambda>c. \<not> is_control c) (utf8_chars s))) \<and>
      (k < length (filter (\<lambda>c. \<not> is_control c) (utf8_chars s)) \<longrightarrow>
         cap < length (concat (take (Suc k) (filter (\<lambda>c. \<not> is_control c) (utf8_chars s)))))) \<and>
    length (bounded s cap) \<le> cap \<and> utf8_valid (bounded s cap) \<and>
    list_all (\<lambda>c. \<not> is_control c) (utf8_chars (bounded s cap)) \<and> bounded (bounded s cap) cap = bounded s cap"
proof -
  let ?cs = "filter (\<lambda>c. \<not> is_control c) (utf8_chars s)"
  have cs: "list_all utf8_char ?cs" using utf8_valid_chars [OF assms] by (auto simp: list_all_iff)
  obtain k where k: "bounded s cap = concat (take k ?cs)" "length (concat (take k ?cs)) \<le> cap"
    "k < length ?cs \<longrightarrow> cap < length (concat (take (Suc k) ?cs))"
    using truncate_chars [OF cs, of cap] by (auto simp: bounded_def)
  have t: "list_all utf8_char (take k ?cs)" "list_all (\<lambda>c. \<not> is_control c) (take k ?cs)"
    using cs by (auto simp: list_all_iff dest: in_set_takeD)
  note u = utf8_chars_concat [OF t(1)]
  have f: "filter (\<lambda>c. \<not> is_control c) (take k ?cs) = take k ?cs"
    using t(2) by (simp only: filter_id_conv list_all_iff)
  have "bounded (concat (take k ?cs)) cap = concat (take k ?cs)"
    unfolding bounded_def conjunct1 [OF u] f using k(2) by (simp only: truncate_bytes_def) (simp del: length_concat)
  then have "bounded (bounded s cap) cap = bounded s cap" unfolding k(1) .
  with k t u show ?thesis by auto
qed

theorem bounded_exact_witness:
  "bounded [CHR ''a'', CHR 0x07, CHR 0xC2, CHR 0x85, CHR 0xC3, CHR 0xA9, CHR ''b''] 2 = ''a'' \<and>
   utf8_valid (bounded [CHR ''a'', CHR 0x07, CHR 0xC2, CHR 0x85, CHR 0xC3, CHR 0xA9, CHR ''b''] 2)"
proof -
  let ?s = "[CHR ''a'', CHR 0x07, CHR 0xC2, CHR 0x85, CHR 0xC3, CHR 0xA9, CHR ''b'']"
  have u: "utf8_valid ?s" by code_simp
  have "bounded ?s 2 = ''a''" by code_simp
  with bounded_exact [OF u, of 2] show ?thesis by blast
qed

section \<open>The size of a rotated log\<close>

definition small :: "nat \<Rightarrow> string option \<Rightarrow> bool" where
  "small n f \<longleftrightarrow> (case f of None \<Rightarrow> True | Some c \<Rightarrow> length c \<le> n)"

lemma append_small:
  assumes "ar_renamed r" "length line \<le> L" "small (MAX_BYTES + L + 1) (st_current s)" "small (MAX_BYTES + L + 1) (st_rotated s)"
  shows "small (MAX_BYTES + L + 1) (st_current (append_audit_line r line True s)) \<and>
    small (MAX_BYTES + L + 1) (st_rotated (append_audit_line r line True s))"
proof -
  have "small MAX_BYTES (st_current (rotate_stream r s)) \<and> small (MAX_BYTES + L + 1) (st_rotated (rotate_stream r s))"
    using assms by (auto simp: rotate_stream_def small_def split: option.splits)
  moreover have "small (MAX_BYTES + L + 1) (write_all w (line @ [CHR 0x0A]) f)" if "small MAX_BYTES f" for w f
    using that assms(2) by (auto simp: write_all_def small_def split: option.splits)
  moreover have "small MAX_BYTES f \<Longrightarrow> small (MAX_BYTES + L + 1) f" for f by (auto simp: small_def split: option.splits)
  ultimately show ?thesis using assms(3,4) by (auto simp: append_audit_line_def Let_def)
qed

text \<open>
  The call log stays small: over any sequence of appends of records of at most \<open>L\<close> bytes, however many of them tear
  or fail to open, neither of its two generations exceeds 5 MiB by more than one record, as long as the rename of
  the rotation works.\<close>

theorem log_size_bounded:
  assumes "\<forall>(r, rec) \<in> set ops. ar_renamed r" "\<forall>rec l. to_string rec = Some l \<longrightarrow> length l \<le> L"
  shows "(case fold (\<lambda>(r, rec). record_call to_string r rec) ops \<lparr>st_current = None, st_rotated = None\<rparr> of
      s \<Rightarrow> \<forall>c. st_current s = Some c \<or> st_rotated s = Some c \<longrightarrow> length c \<le> 5 * 1024 * 1024 + L + 1)"
proof -
  have "small (MAX_BYTES + L + 1) (st_current (fold (\<lambda>(r, rec). record_call to_string r rec) ops s)) \<and>
      small (MAX_BYTES + L + 1) (st_rotated (fold (\<lambda>(r, rec). record_call to_string r rec) ops s))"
    if "small (MAX_BYTES + L + 1) (st_current s)" "small (MAX_BYTES + L + 1) (st_rotated s)" for s
    using that assms(1)
  proof (induction ops arbitrary: s)
    case (Cons op ops)
    obtain r rec where op: "op = (r, rec)" by fastforce
    have "small (MAX_BYTES + L + 1) (st_current (record_call to_string r rec s)) \<and>
        small (MAX_BYTES + L + 1) (st_rotated (record_call to_string r rec s))"
      using append_small [of r _ L s] assms(2) Cons.prems
      by (auto simp: op record_call_def record_line_def split: option.splits)
    with Cons op show ?case by simp
  qed simp
  from this [of "\<lparr>st_current = None, st_rotated = None\<rparr>"] show ?thesis
    by (auto simp: small_def MAX_BYTES_def split: option.splits)
qed

theorem log_size_bounded_witness:
  "\<forall>c. st_current (record_call (\<lambda>_. Some ''r'') append_ok \<lparr>cr_ts = 0, cr_run = None, cr_pid = 1, cr_project = None, cr_server = [],
      cr_tool = [], cr_args_digest = [], cr_outcome = CallOk, cr_detail = None, cr_ms = 0\<rparr> \<lparr>st_current = None, st_rotated = None\<rparr>) = Some c
    \<longrightarrow> length c \<le> 5 * 1024 * 1024 + 2"
proof -
  let ?op = "(append_ok, \<lparr>cr_ts = 0, cr_run = None, cr_pid = 1, cr_project = None, cr_server = [],
      cr_tool = [], cr_args_digest = [], cr_outcome = CallOk, cr_detail = None, cr_ms = 0\<rparr>)"
  have r: "\<forall>(r, rec) \<in> set [?op]. ar_renamed r" by (simp add: append_ok_def)
  have l: "\<forall>rec l. (\<lambda>_ :: call_record. Some ''r'') rec = Some l \<longrightarrow> length l \<le> 1" by simp
  from log_size_bounded [OF r l] show ?thesis by simp
qed

section \<open>Run directories\<close>

lemma safe_segment:
  assumes "safe_run_segment i"
  shows "CHR ''/'' \<notin> set i" "i \<notin> {[], ''.'', ''..''}"
proof -
  have "\<not> is_ascii_alphanumeric (CHR ''/'')" by code_simp
  with assms show "CHR ''/'' \<notin> set i" "i \<notin> {[], ''.'', ''..''}"
    by (auto simp: safe_run_segment_def list_all_iff)
qed

text \<open>
  A run id never escapes the runs directory: when a run log has a directory, its path is exactly two components
  below the machine home, \<open>runs\<close> and the id; an id with a separator, \<open>.\<close>, \<open>..\<close>, nothing or more than 128 bytes has
  no directory, and its log reads as empty.\<close>

theorem run_dir_contained:
  assumes "home \<noteq> []"
  shows "(case run_dir home run_id of
       Some d \<Rightarrow> components d = components home @ [Normal ''runs'', Normal run_id] \<and> length run_id \<le> 128
     | None \<Rightarrow> read_run from_str home files run_id = [] \<and> create_run_log home made run_id = None) \<and>
    (CHR ''/'' \<in> set run_id \<or> run_id \<in> {[], ''.'', ''..''} \<or> 128 < length run_id \<longrightarrow> run_dir home run_id = None)"
proof (cases "safe_run_segment run_id")
  case True
  note seg = safe_segment [OF True]
  have "components (join_path home ''runs'') = components home @ [Normal ''runs'']"
    by (rule components_join) (simp_all add: assms)
  moreover have "join_path home ''runs'' \<noteq> []" using assms by (simp add: join_path_def starts_with_iff)
  ultimately have "components (join_path (join_path home ''runs'') run_id) = components home @ [Normal ''runs'', Normal run_id]"
    using components_join [OF seg, of "join_path home ''runs''"] by simp
  with True seg show ?thesis by (auto simp: run_dir_def) (auto simp: safe_run_segment_def)
next
  case False
  then show ?thesis by (simp add: run_dir_def read_run_def create_run_log_def)
qed

theorem run_dir_contained_witness:
  "run_dir ''/h'' ''../x'' = None \<and> run_dir ''/h'' ''r-1'' = Some ''/h/runs/r-1''"
proof -
  have h: "''/h'' \<noteq> []" by simp
  have "run_dir ''/h'' ''r-1'' = Some ''/h/runs/r-1''" by code_simp
  with run_dir_contained [OF h, where run_id = "''../x''"] show ?thesis by simp
qed

end
