(* ===== verification/Guard_Paths.thy ===== *)
theory Guard_Paths
  imports Paths Ruleset
begin

text \<open>
  The path checks of the destructive-command guard (crates/cli/src/guard.rs): lexical normalisation, the deny
  globs over every spelling of a path, the writable roots, and the machine home no write may enter.
  Resolving symbolic links is a parameter, \<open>canonicalize\<close>; paths from the outside are texts.
\<close>

section \<open>Decisions\<close>

datatype guard_decision = Allow | Deny (reason: string)

definition is_deny :: "guard_decision \<Rightarrow> bool" where
  "is_deny d \<longleftrightarrow> (case d of Deny _ \<Rightarrow> True | Allow \<Rightarrow> False)"

text \<open>A check, and if it allows, the next one; and a check of every element up to the first refusal.\<close>

definition then_check :: "guard_decision \<Rightarrow> guard_decision \<Rightarrow> guard_decision" where
  "then_check d d' = (case d of Deny r \<Rightarrow> Deny r | Allow \<Rightarrow> d')"

fun check_all :: "('a \<Rightarrow> guard_decision) \<Rightarrow> 'a list \<Rightarrow> guard_decision" where
  "check_all f [] = Allow"
| "check_all f (x # xs) = then_check (f x) (check_all f xs)"

lemma then_check_Allow [simp]: "then_check d d' = Allow \<longleftrightarrow> d = Allow \<and> d' = Allow"
  by (cases d) (simp_all add: then_check_def)

lemma check_all_Allow [simp]: "check_all f xs = Allow \<longleftrightarrow> (\<forall>x \<in> set xs. f x = Allow)"
  by (induction xs) simp_all

lemma is_deny_iff: "is_deny d \<longleftrightarrow> d \<noteq> Allow"
  by (cases d) (simp_all add: is_deny_def)

record guard_context =
  gx_workspace :: string
  gx_home :: string
  gx_tmp :: "string list"
  gx_allow_roots :: "string list"
  gx_agentstack_home :: string
  gx_ruleset :: compiled_ruleset

section \<open>Lexical normalisation\<close>

definition expand_guard_home :: "string \<Rightarrow> string \<Rightarrow> string" where
  "expand_guard_home path home =
     (if path \<in> {''~'', ''$HOME'', ''${HOME}''} then home
      else case strip_prefix ''~/'' path of
        Some rest \<Rightarrow> join_path home rest
      | None \<Rightarrow>
          (case strip_prefix ''$HOME/'' path of
             Some rest \<Rightarrow> join_path home rest
           | None \<Rightarrow>
               (case strip_prefix ''${HOME}/'' path of
                  Some rest \<Rightarrow> join_path home rest
                | None \<Rightarrow> path)))"

text \<open>\<open>..\<close> pops, and pops nothing at the root.\<close>

definition push_component :: "location \<Rightarrow> component \<Rightarrow> location" where
  "push_component out c =
     (case c of
        CurDir \<Rightarrow> out
      | ParentDir \<Rightarrow> (case parent out of Some up \<Rightarrow> up | None \<Rightarrow> out)
      | RootDir \<Rightarrow> [RootDir]
      | Normal n \<Rightarrow> out @ [Normal n])"

definition normalize :: "string \<Rightarrow> string \<Rightarrow> string \<Rightarrow> location" where
  "normalize path base home =
     (let expanded = expand_guard_home path home;
          joined = (if starts_with expanded ''/'' then expanded else join_path base expanded)
      in foldl push_component [] (components joined))"

text \<open>The resolved form of the longest part that exists, with the rest as it is.\<close>

function resolve_existing_prefix :: "(location \<Rightarrow> location option) \<Rightarrow> location \<Rightarrow> location option" where
  "resolve_existing_prefix canonicalize path =
     (case canonicalize path of
        Some real \<Rightarrow> Some real
      | None \<Rightarrow>
          (case (parent path, file_name path) of
             (Some up, Some name) \<Rightarrow>
               map_option (\<lambda>p. p @ [Normal name]) (resolve_existing_prefix canonicalize up)
           | _ \<Rightarrow> None))"
  by pat_completeness auto
termination
  by (relation "measure (\<lambda>(_, path). length path)") (auto simp: parent_def split: if_splits)

declare resolve_existing_prefix.simps [simp del]

definition within :: "location \<Rightarrow> location \<Rightarrow> bool" where
  "within path root \<longleftrightarrow> prefix root path"

section \<open>The deny globs\<close>

definition middle_dot :: string where "middle_dot = [CHR 0xC2, CHR 0xB7]"
definition arrow :: string where "arrow = [CHR 0xE2, CHR 0x86, CHR 0x92]"
definition newline :: string where "newline = [CHR 0x0A]"

definition has_whitespace :: "string \<Rightarrow> bool" where
  "has_whitespace s \<longleftrightarrow> list_ex (\<lambda>w. find_sub w s \<noteq> None) white_encodings"

datatype access = ReadAccess | WriteAccess | CommandAccess

fun phrasing :: "access \<Rightarrow> string \<times> string" where
  "phrasing ReadAccess = (''a read of'', ''nothing was read'')"
| "phrasing WriteAccess = (''a write to'', ''nothing was written'')"
| "phrasing CommandAccess = (''a command naming'', ''the command did not run'')"

text \<open>The spellings of a path, the last one only for a text without white space.\<close>

definition relative_spellings :: "location list \<Rightarrow> location list \<Rightarrow> string list" where
  "relative_spellings workspaces targets =
     concat (map (\<lambda>ws. List.map_filter (\<lambda>t. map_option show_location (strip_prefix ws t)) targets) workspaces)"

definition path_spellings :: "(location \<Rightarrow> location option) \<Rightarrow> guard_context \<Rightarrow> string \<Rightarrow> string list" where
  "path_spellings canonicalize ctx path =
     (let abs = normalize path (gx_workspace ctx) (gx_home ctx);
          workspace = components (gx_workspace ctx);
          workspaces = workspace # (case canonicalize workspace of Some w \<Rightarrow> [w] | None \<Rightarrow> []);
          targets = abs # (case resolve_existing_prefix canonicalize abs of Some t \<Rightarrow> [t] | None \<Rightarrow> []);
          spellings = fold (\<lambda>rel acc. if rel \<in> set acc then acc else acc @ [rel])
            (relative_spellings workspaces targets) [show_location abs]
      in spellings @ (if has_whitespace path then [] else case file_name abs of Some name \<Rightarrow> [name] | None \<Rightarrow> []))"

definition deny_glob_check ::
  "(location \<Rightarrow> location option) \<Rightarrow> guard_context \<Rightarrow> access \<Rightarrow> string \<Rightarrow> guard_decision" where
  "deny_glob_check canonicalize ctx access path =
     (case fs_deny_decision (gx_ruleset ctx) (path_spellings canonicalize ctx path) of
        Inr _ \<Rightarrow> Allow
      | Inl rule \<Rightarrow>
          (let (stopped, outcome) = phrasing access in
           Deny (''blocked: '' @ stopped @ '' '' @ path @ '' was refused '' @ em_dash @ '' '' @ denial_to_string rule @ newline @ ''  ''
             @ outcome @ '' '' @ middle_dot @ '' edit that [policy.filesystem] rule if this path should be allowed'')))"

section \<open>The writable roots\<close>

definition machine_manifest_path :: "guard_context \<Rightarrow> string" where
  "machine_manifest_path ctx = join_path (gx_agentstack_home ctx) ''agentstack.toml''"

definition write_scope_check :: "guard_context \<Rightarrow> string \<Rightarrow> guard_decision" where
  "write_scope_check ctx path =
     (let abs = normalize path (gx_workspace ctx) (gx_home ctx) in
      if within abs (components (gx_workspace ctx))
         \<or> list_ex (\<lambda>r. within abs (components r)) (gx_allow_roots ctx)
         \<or> list_ex (\<lambda>r. within abs (components r)) (gx_tmp ctx) then Allow
      else
        (let dir = (case parent abs of Some d \<Rightarrow> d | None \<Rightarrow> abs) in
         Deny (''blocked: a write to '' @ show_location abs @ '' was refused '' @ em_dash
           @ '' outside the workspace (allowed: the workspace, [guard] allow_roots, temp dirs)'' @ newline
           @ ''  nothing was written '' @ middle_dot @ '' to allow writes here, add to '' @ machine_manifest_path ctx @ '' ''
           @ arrow @ newline @ ''    [guard]'' @ newline @ ''    allow_roots = ['' @ dq @ show_location dir @ dq @ '']'')))"

definition agentstack_home_check :: "(location \<Rightarrow> location option) \<Rightarrow> guard_context \<Rightarrow> string \<Rightarrow> guard_decision" where
  "agentstack_home_check canonicalize ctx path =
     (let abs = normalize path (gx_workspace ctx) (gx_home ctx);
          home = components (gx_agentstack_home ctx);
          targets = abs # (case resolve_existing_prefix canonicalize abs of Some t \<Rightarrow> [t] | None \<Rightarrow> []);
          homes = home # (case resolve_existing_prefix canonicalize home of Some h \<Rightarrow> [h] | None \<Rightarrow> [])
      in if list_ex (\<lambda>t. list_ex (within t) homes) targets
         then Deny (show_location abs @ '' is inside '' @ gx_agentstack_home ctx @ '' '' @ em_dash
           @ '' the guard'' @ [CHR 0x27] @ ''s own config, the trust store, and the hook scripts; [guard] allow_roots ''
           @ ''cannot allowlist it (edit it directly, outside the agent)'')
         else Allow)"

definition write_target_check :: "(location \<Rightarrow> location option) \<Rightarrow> guard_context \<Rightarrow> string \<Rightarrow> guard_decision" where
  "write_target_check canonicalize ctx path =
     then_check (deny_glob_check canonicalize ctx WriteAccess path)
       (then_check (agentstack_home_check canonicalize ctx path) (write_scope_check ctx path))"

definition check_write_set :: "(location \<Rightarrow> location option) \<Rightarrow> guard_context \<Rightarrow> string list \<Rightarrow> guard_decision" where
  "check_write_set canonicalize ctx paths =
     (if paths = []
      then Deny (''blocked: a write was refused '' @ em_dash @ '' the call is write-shaped but names no target ''
        @ ''the guard could read (no file path, and no parseable '' @ [CHR 0x27] @ ''*** Begin Patch'' @ [CHR 0x27] @ '' envelope)''
        @ newline @ ''  nothing was written '' @ middle_dot @ '' a write whose target cannot be determined cannot be ''
        @ ''confined to the workspace '' @ middle_dot @ '' rules: '' @ machine_manifest_path ctx)
      else check_all (write_target_check canonicalize ctx) paths)"

definition cite_builtin :: "guard_context \<Rightarrow> guard_decision \<Rightarrow> guard_decision" where
  "cite_builtin ctx d =
     (case d of
        Deny r \<Rightarrow> Deny (r @ '' (built-in rule; deny/allow lists: '' @ machine_manifest_path ctx @ '')'')
      | Allow \<Rightarrow> Allow)"

text \<open>Whether the extra roots open the whole file system; \<open>trim_end_matches('/')\<close> on the trimmed text.\<close>

definition allow_roots_cover_everything :: "string list \<Rightarrow> bool" where
  "allow_roots_cover_everything allow_roots \<longleftrightarrow>
     list_ex (\<lambda>r. let t = trim r in
       t \<noteq> [] \<and> rev (dropWhile (\<lambda>c. c = CHR ''/'') (rev t)) \<in> {[], ''/**'', ''/*''}) allow_roots"

section \<open>What an allowed write may touch\<close>

lemma normalize_clean:
  "CurDir \<notin> set (normalize path base home) \<and> ParentDir \<notin> set (normalize path base home)"
proof -
  have "CurDir \<notin> set (foldl push_component out cs) \<and> ParentDir \<notin> set (foldl push_component out cs)"
    if "CurDir \<notin> set out" "ParentDir \<notin> set out" for out cs
    using that
  proof (induction cs arbitrary: out)
    case (Cons c cs)
    have "CurDir \<notin> set (push_component out c) \<and> ParentDir \<notin> set (push_component out c)"
      using Cons.prems by (auto simp: push_component_def parent_def split: component.splits dest: in_set_butlastD)
    with Cons.IH show ?case by simp
  qed simp
  then show ?thesis by (simp add: normalize_def Let_def)
qed

text \<open>
  The forms a target has: as written, and resolved through links as far as it exists; those of a root are the same.
  A target is spelled absolute, relative to the workspace in either form of both, and, unless the text has white
  space, by its bare name.\<close>

definition forms :: "(location \<Rightarrow> location option) \<Rightarrow> location \<Rightarrow> location set" where
  "forms canonicalize p = insert p {t. resolve_existing_prefix canonicalize p = Some t}"

definition spelled :: "(location \<Rightarrow> location option) \<Rightarrow> guard_context \<Rightarrow> string \<Rightarrow> string \<Rightarrow> bool" where
  "spelled canonicalize ctx path s \<longleftrightarrow>
     (let target = normalize path (gx_workspace ctx) (gx_home ctx); workspace = components (gx_workspace ctx) in
      s = show_location target \<or>
      (\<exists>ws rel. (ws = workspace \<or> canonicalize workspace = Some ws) \<and> ws @ rel \<in> forms canonicalize target \<and> s = show_location rel) \<or>
      (\<not> has_whitespace path \<and> file_name target = Some s))"

lemma fold_new: "set (fold (\<lambda>rel acc. if rel \<in> set acc then acc else acc @ [rel]) rels acc) = set acc \<union> set rels"
  by (induction rels arbitrary: acc) auto

lemma relative_spellings_set:
  "set (relative_spellings wss ts) = {s. \<exists>ws rel. ws \<in> set wss \<and> ws @ rel \<in> set ts \<and> s = show_location rel}"
  by (auto simp: relative_spellings_def set_map_filter strip_prefix_Some) blast+

lemma path_spellings_set: "set (path_spellings canonicalize ctx path) = {s. spelled canonicalize ctx path s}"
proof -
  have w: "set (w # (case canonicalize w of Some x \<Rightarrow> [x] | None \<Rightarrow> [])) = {ws. ws = w \<or> canonicalize w = Some ws}" for w
    by (cases "canonicalize w") auto
  have t: "set (a # (case resolve_existing_prefix canonicalize a of Some t \<Rightarrow> [t] | None \<Rightarrow> [])) = forms canonicalize a" for a
    by (cases "resolve_existing_prefix canonicalize a") (auto simp: forms_def)
  have n: "set (if b then [] else case m of Some name \<Rightarrow> [name] | None \<Rightarrow> []) = {s. \<not> b \<and> m = Some s}" for b and m :: "string option"
    by (cases m) auto
  show ?thesis
    unfolding path_spellings_def spelled_def Let_def set_append fold_new relative_spellings_set w t n
    by (simp only: set_eq_iff mem_Collect_eq Un_iff list.set empty_iff insert_iff) blast
qed

lemma write_target_Allow:
  "write_target_check canonicalize ctx path = Allow \<longleftrightarrow>
     fs_deny_decision (gx_ruleset ctx) (path_spellings canonicalize ctx path) = Inr () \<and>
     agentstack_home_check canonicalize ctx path = Allow \<and> write_scope_check ctx path = Allow"
  by (auto simp: write_target_check_def deny_glob_check_def Let_def split: sum.splits prod.splits)

text \<open>C19.
  A write the guard allows is confined: its normalised target has no dot components, lies in the workspace, an extra
  root or a temporary directory, no spelling of it matches a deny glob, absolute, relative to the workspace and bare
  name, through links and not, and, even when an extra root covers it, it lies outside the machine home, target and
  home both in their written and their resolved form.\<close>

theorem guard_write_confined:
  assumes "write_target_check canonicalize ctx path = Allow"
    and "target = normalize path (gx_workspace ctx) (gx_home ctx)"
  shows "CurDir \<notin> set target \<and> ParentDir \<notin> set target \<and>
    (\<exists>r \<in> {gx_workspace ctx} \<union> set (gx_allow_roots ctx) \<union> set (gx_tmp ctx). prefix (components r) target) \<and>
    (\<forall>s. spelled canonicalize ctx path s \<longrightarrow>
       \<not> (\<exists>l \<in> {g_machine (fr_deny (cr_filesystem (gx_ruleset ctx))), g_bundle (fr_deny (cr_filesystem (gx_ruleset ctx)))}.
            \<exists>pat \<in> set (lr_deny l). glob_match pat s)) \<and>
    (\<forall>t \<in> forms canonicalize target. \<forall>h \<in> forms canonicalize (components (gx_agentstack_home ctx)). \<not> prefix h t)"
proof -
  from assms(1) have d: "fs_deny_decision (gx_ruleset ctx) (path_spellings canonicalize ctx path) = Inr ()"
    and h: "agentstack_home_check canonicalize ctx path = Allow" and w: "write_scope_check ctx path = Allow"
    by (simp_all add: write_target_Allow)
  have "\<exists>r \<in> {gx_workspace ctx} \<union> set (gx_allow_roots ctx) \<union> set (gx_tmp ctx). prefix (components r) target"
    using w by (auto simp: write_scope_check_def Let_def within_def list_ex_iff assms(2) split: if_splits)
  moreover have "\<forall>t \<in> forms canonicalize target. \<forall>h \<in> forms canonicalize (components (gx_agentstack_home ctx)). \<not> prefix h t"
    using h by (auto simp: agentstack_home_check_def forms_def Let_def within_def assms(2) split: if_splits)
  moreover have "\<not> (\<exists>l \<in> {g_machine (fr_deny (cr_filesystem (gx_ruleset ctx))), g_bundle (fr_deny (cr_filesystem (gx_ruleset ctx)))}.
         \<exists>pat \<in> set (lr_deny l). glob_match pat s)" if "spelled canonicalize ctx path s" for s
  proof -
    from that have "s \<in> set (path_spellings canonicalize ctx path)" by (simp add: path_spellings_set)
    with d show ?thesis unfolding fs_deny_ok by blast
  qed
  ultimately show ?thesis using normalize_clean [of path "gx_workspace ctx" "gx_home ctx"] unfolding assms(2) by blast
qed

definition sample_guard :: guard_context where
  "sample_guard =
     \<lparr>gx_workspace = ''/w'', gx_home = ''/h'', gx_tmp = [''/tmp''], gx_allow_roots = [''/''], gx_agentstack_home = ''/h/.agentstack'',
      gx_ruleset = default_ruleset\<rparr>"

text \<open>A project whose policy keeps \<open>.env*\<close> from being written.\<close>

definition sample_env_guard :: guard_context where
  "sample_env_guard = sample_guard\<lparr>gx_ruleset := default_ruleset\<lparr>cr_filesystem := default_fs_rules
     \<lparr>fr_deny := default_guard\<lparr>g_machine := default_layer_rules\<lparr>lr_deny := [''.env*'']\<rparr>\<rparr>\<rparr>\<rparr>\<rparr>"

theorem guard_write_confined_witness:
  "write_target_check (\<lambda>_. None) sample_env_guard ''a/../b'' = Allow \<and> \<not> glob_match ''.env*'' ''b'' \<and>
   \<not> prefix (components ''/h/.agentstack'') (normalize ''a/../b'' ''/w'' ''/h'') \<and>
   is_deny (write_target_check (\<lambda>_. None) sample_env_guard ''x/.env.local'') \<and>
   is_deny (write_target_check (\<lambda>_. None) sample_env_guard ''~/.agentstack/trust.json'')"
proof -
  have a: "write_target_check (\<lambda>_. None) sample_env_guard ''a/../b'' = Allow" by code_simp
  have d: "is_deny (write_target_check (\<lambda>_. None) sample_env_guard ''~/.agentstack/trust.json'')"
    "is_deny (write_target_check (\<lambda>_. None) sample_env_guard ''x/.env.local'')" by code_simp+
  have "''b'' \<in> set (path_spellings (\<lambda>_. None) sample_env_guard ''a/../b'')" by code_simp
  then have "spelled (\<lambda>_. None) sample_env_guard ''a/../b'' ''b''" by (simp add: path_spellings_set)
  with guard_write_confined [OF a refl] d a show ?thesis
    by (simp add: sample_env_guard_def sample_guard_def forms_def)
qed

text \<open>
  What an access is called changes only the message: a path that is refused to a read is refused to a write and to a
  command, and the reverse.\<close>

theorem guard_access_uniform:
  "is_deny (deny_glob_check canonicalize ctx a path) = is_deny (deny_glob_check canonicalize ctx b path)"
  by (auto simp: deny_glob_check_def is_deny_def Let_def split: sum.splits prod.splits)

end
