(* ===== verification/Guard_Shell.thy ===== *)
theory Guard_Shell
  imports Guard_Paths Utf8
begin

text \<open>
  The shell analysis of the guard (crates/cli/src/guard.rs): splitting a command line into segments and tokens,
  redirections, wrappers, and the checks of every program the guard knows, nested shells included.
\<close>

section \<open>Segments and tokens\<close>

text \<open>Outside quotes a segment ends at an operator, a substitution boundary or a newline.\<close>

function split_from :: "char option \<Rightarrow> string \<Rightarrow> string \<Rightarrow> string list" where
  "split_from quote current [] = [current]"
| "split_from quote current (c # cs) =
     (case quote of
        Some q \<Rightarrow> split_from (if c = q then None else Some q) (current @ [c]) cs
      | None \<Rightarrow>
          if c = CHR 0x27 \<or> c = CHR 0x22 then split_from (Some c) (current @ [c]) cs
          else if c \<in> {CHR '';'', CHR 0x0A, CHR ''|'', CHR ''&'', CHR 0x60}
          then current # split_from None [] (if (c = CHR ''&'' \<or> c = CHR ''|'') \<and> starts_with cs [c] then tl cs else cs)
          else if c = CHR ''$'' \<and> starts_with cs ''('' then current # split_from None [] (tl cs)
          else if c = CHR '')'' then current # split_from None [] cs
          else split_from None (current @ [c]) cs)"
  by pat_completeness auto
termination
  by (relation "measure (\<lambda>(_, _, s). length s)") auto

definition split_segments :: "string \<Rightarrow> string list" where
  "split_segments command = filter (\<lambda>s. trim s \<noteq> []) (split_from None [] command)"

text \<open>The tokenizer, over characters.\<close>

fun tokenize_from :: "string option \<Rightarrow> string \<Rightarrow> string list \<Rightarrow> string list" where
  "tokenize_from quote current [] = (if current = [] then [] else [current])"
| "tokenize_from (Some q) current (c # cs) =
     (if c = q then tokenize_from None current cs else tokenize_from (Some q) (current @ c) cs)"
| "tokenize_from None current (c # cs) =
     (if c = [CHR 0x27] \<or> c = [CHR 0x22] then tokenize_from (Some c) current cs
      else if c \<in> set white_encodings
      then (if current = [] then tokenize_from None [] cs else current # tokenize_from None [] cs)
      else tokenize_from None (current @ c) cs)"

definition tokenize :: "string \<Rightarrow> string list" where
  "tokenize segment = tokenize_from None [] (utf8_chars segment)"

section \<open>Programs, redirections and operands\<close>

definition WRAPPERS :: "string list" where
  "WRAPPERS = [''sudo'', ''env'', ''nohup'', ''time'', ''nice'', ''ionice'', ''command'', ''builtin'', ''exec'', ''stdbuf'']"

definition INTERPRETERS :: "string list" where
  "INTERPRETERS = [''node'', ''nodejs'', ''ruby'', ''deno'', ''bun'', ''php'']"

definition SHELLS :: "string list" where
  "SHELLS = [''sh'', ''bash'', ''zsh'', ''dash'', ''ksh'', ''ash'']"

definition MAX_SHELL_DEPTH :: nat where
  "MAX_SHELL_DEPTH = 3"

definition is_flag :: "string \<Rightarrow> bool" where
  "is_flag t \<longleftrightarrow> starts_with t ''-''"

definition is_short_flag :: "string \<Rightarrow> bool" where
  "is_short_flag t \<longleftrightarrow> starts_with t ''-'' \<and> \<not> starts_with t ''--''"

definition base_name :: "string \<Rightarrow> string" where
  "base_name t = (case file_name (components t) of Some n \<Rightarrow> n | None \<Rightarrow> t)"

text \<open>The program, its arguments, and whether it runs under \<open>xargs\<close>; \<open>first\<close> holds at the first token only.\<close>

function strip_from :: "bool \<Rightarrow> bool \<Rightarrow> string list \<Rightarrow> string option \<times> string list \<times> bool" where
  "strip_from first via_xargs [] = (None, [], via_xargs)"
| "strip_from first via_xargs (t # ts) =
     (if CHR ''='' \<in> set t \<and> \<not> is_flag t \<and> \<not> starts_with t ''/'' \<and> first then strip_from False via_xargs ts
      else if base_name t \<in> set WRAPPERS
      then strip_from False via_xargs (dropWhile (\<lambda>x. CHR ''='' \<in> set x \<or> is_flag x) ts)
      else if base_name t = ''xargs'' then strip_from False True (dropWhile is_flag ts)
      else (Some (base_name t), ts, via_xargs))"
  by pat_completeness auto
termination
  by (relation "measure (\<lambda>(_, _, ts). length ts)") (auto simp: less_Suc_eq_le length_dropWhile_le)

definition strip_wrappers :: "string list \<Rightarrow> string option \<times> string list \<times> bool" where
  "strip_wrappers = strip_from True False"

fun redirects_from :: "bool \<Rightarrow> string list \<Rightarrow> string list" where
  "redirects_from expect_target [] = []"
| "redirects_from True (t # ts) = t # redirects_from False ts"
| "redirects_from False (t # ts) =
     (let stripped = dropWhile is_ascii_digit t in
      if stripped = ''>'' \<or> stripped = ''>>'' then redirects_from True ts
      else case strip_prefix ''>>'' stripped of
        Some rest \<Rightarrow> (if rest \<noteq> [] \<and> \<not> starts_with rest ''&'' then [rest] else []) @ redirects_from False ts
      | None \<Rightarrow>
          (case strip_prefix ''>'' stripped of
             Some rest \<Rightarrow>
               (if rest \<noteq> [] \<and> \<not> starts_with rest ''&'' \<and> \<not> starts_with rest ''('' then [rest] else []) @ redirects_from False ts
           | None \<Rightarrow> redirects_from False ts))"

definition redirect_targets :: "string list \<Rightarrow> string list" where
  "redirect_targets = redirects_from False"

fun targets_from :: "bool \<Rightarrow> string list \<Rightarrow> string list" where
  "targets_from after_dashdash [] = []"
| "targets_from after_dashdash (a # as) =
     (if a = ''--'' then targets_from True as
      else if after_dashdash \<or> \<not> is_flag a then a # targets_from after_dashdash as
      else targets_from after_dashdash as)"

definition targets_of :: "string list \<Rightarrow> string list" where
  "targets_of = targets_from False"

definition combined_flags :: "string list \<Rightarrow> string" where
  "combined_flags args = concat (map tl (filter is_short_flag (takeWhile (\<lambda>a. a \<noteq> ''--'') args)))"

section \<open>The programs\<close>

definition root_location :: location where
  "root_location = [RootDir]"

definition check_rm :: "(location \<Rightarrow> location option) \<Rightarrow> guard_context \<Rightarrow> string list \<Rightarrow> bool \<Rightarrow> guard_decision" where
  "check_rm canonicalize ctx args via_xargs =
     (let flags = combined_flags args;
          recursive = CHR ''r'' \<in> set flags \<or> CHR ''R'' \<in> set flags \<or> ''--recursive'' \<in> set args
      in if recursive \<and> via_xargs
         then cite_builtin ctx (Deny (''recursive rm via xargs '' @ em_dash @ '' targets come from stdin and cannot be checked''))
         else check_all (\<lambda>t.
           let abs = normalize t (gx_workspace ctx) (gx_home ctx) in
           if abs \<in> {root_location, components (gx_home ctx), components (gx_workspace ctx)}
           then cite_builtin ctx (Deny (''rm of '' @ show_location abs @ '' '' @ em_dash @ '' refusing to delete a root''))
           else write_target_check canonicalize ctx t) (targets_of args))"

fun shell_script_arg :: "string list \<Rightarrow> string option" where
  "shell_script_arg [] = None"
| "shell_script_arg (a # as) =
     (if a = ''--'' then None
      else if is_short_flag a \<and> CHR ''c'' \<in> set a then (case as of s # _ \<Rightarrow> Some s | [] \<Rightarrow> None)
      else shell_script_arg as)"

definition is_interpreter :: "string \<Rightarrow> string list \<Rightarrow> bool" where
  "is_interpreter program args \<longleftrightarrow>
     starts_with program ''python'' \<or>
     (if program = ''perl'' then list_ex (\<lambda>a. is_short_flag a \<and> CHR ''e'' \<in> set a) args
      else program \<in> set INTERPRETERS)"

definition check_interpreter_consent_store :: "guard_context \<Rightarrow> string \<Rightarrow> string list \<Rightarrow> guard_decision" where
  "check_interpreter_consent_store ctx program args =
     (let txt = join_with '' '' args; home = gx_agentstack_home ctx;
          names_store = find_sub ''.agentstack'' txt \<noteq> None \<or> find_sub ''AGENTSTACK_HOME'' txt \<noteq> None
            \<or> (home \<noteq> [] \<and> find_sub home txt \<noteq> None)
      in if is_interpreter program args \<and> names_store
         then Deny (''blocked: a '' @ program @ '' program naming '' @ home @ '' was refused '' @ em_dash
           @ '' that directory holds the trust store (what a human consented to) and the guard'' @ [CHR 0x27] @ ''s own config''
           @ newline @ ''  nothing ran '' @ middle_dot @ '' an interpreter'' @ [CHR 0x27] @ ''s inline program is opaque to this check, so it is ''
           @ ''refused here rather than judged '' @ middle_dot @ '' edit those files directly, outside the agent'')
         else Allow)"

text \<open>The first operand, past flags and past both spellings of the namespace.\<close>

fun agentstack_verb :: "string list \<Rightarrow> string option" where
  "agentstack_verb [] = None"
| "agentstack_verb (a # as) =
     (if a = ''--manifest-dir'' then (case as of [] \<Rightarrow> None | _ # rest \<Rightarrow> agentstack_verb rest)
      else if is_flag a \<or> a = ''x'' \<or> a = ''more'' then agentstack_verb as
      else Some a)"

definition refuse_consent :: "string \<Rightarrow> guard_decision" where
  "refuse_consent what =
     Deny (''blocked: '' @ [CHR 0x60] @ ''agentstack '' @ what @ [CHR 0x60] @ '' grants consent '' @ em_dash @ '' it was refused''
       @ newline @ ''  nothing was granted '' @ middle_dot @ '' consent is granted at your terminal, not from an agent shell ''
       @ middle_dot @ '' the agent may prepare the review with '' @ [CHR 0x60] @ ''agentstack trust --preview'' @ [CHR 0x60])"

definition check_agentstack :: "string list \<Rightarrow> guard_decision" where
  "check_agentstack args =
     (case agentstack_verb args of
        None \<Rightarrow> Allow
      | Some verb \<Rightarrow>
          if verb = ''trust'' \<and> ''--preview'' \<notin> set args \<and> ''--list'' \<notin> set args then refuse_consent ''trust''
          else if verb = ''yes'' then refuse_consent ''yes''
          else if verb = ''init'' \<and> ''--yes'' \<in> set args then refuse_consent ''init --yes''
          else if verb = ''apply'' \<and> ''--yes'' \<in> set args then refuse_consent ''apply --yes''
          else Allow)"

fun git_subcommand :: "string list \<Rightarrow> string list" where
  "git_subcommand [] = []"
| "git_subcommand (a # as) =
     (if a = ''-C'' \<or> a = ''-c'' then (case as of [] \<Rightarrow> [] | _ # rest \<Rightarrow> git_subcommand rest)
      else if is_flag a then git_subcommand as
      else a # as)"

definition check_git :: "string list \<Rightarrow> guard_decision" where
  "check_git args =
     (case git_subcommand args of
        [] \<Rightarrow> Allow
      | sub # rest \<Rightarrow>
          (let flags = combined_flags rest in
           if sub = ''reset'' \<and> ''--hard'' \<in> set rest
           then Deny (''git reset --hard discards uncommitted work irrecoverably '' @ em_dash @ '' stash or commit first'')
           else if sub = ''clean'' \<and> (CHR ''f'' \<in> set flags \<or> ''--force'' \<in> set rest)
           then Deny ''git clean -f deletes untracked files irrecoverably''
           else if sub = ''checkout'' \<and> ''.'' \<in> set rest
           then Deny (''git checkout . discards all working-tree changes '' @ em_dash @ '' stash first'')
           else if sub = ''restore'' \<and> ''.'' \<in> set rest \<and> ''--staged'' \<notin> set rest
           then Deny (''git restore . discards all working-tree changes '' @ em_dash @ '' stash first'')
           else if sub = ''push'' \<and> (CHR ''f'' \<in> set flags \<or> ''--force'' \<in> set rest)
                   \<and> \<not> list_ex (\<lambda>a. starts_with a ''--force-with-lease'') rest
           then Deny ''git push --force without --force-with-lease can destroy remote history''
           else if sub = ''stash'' \<and> starts_with rest [''clear'']
           then Deny ''git stash clear drops every stash irrecoverably''
           else Allow))"

definition check_find :: "(location \<Rightarrow> location option) \<Rightarrow> guard_context \<Rightarrow> string list \<Rightarrow> guard_decision" where
  "check_find canonicalize ctx args =
     (if ''-delete'' \<notin> set args then Allow
      else check_all (\<lambda>r.
        then_check (write_target_check canonicalize ctx r)
          (let abs = normalize r (gx_workspace ctx) (gx_home ctx) in
           if abs = root_location \<or> abs = components (gx_home ctx)
           then cite_builtin ctx (Deny (''find '' @ show_location abs @ '' -delete '' @ em_dash @ '' refusing a root''))
           else Allow)) (takeWhile (\<lambda>a. \<not> is_flag a \<and> a \<noteq> ''('') args))"

definition check_dd :: "string list \<Rightarrow> guard_decision" where
  "check_dd =
     check_all (\<lambda>a. case strip_prefix ''of='' a of
        Some out \<Rightarrow> if starts_with out ''/dev/'' \<and> out \<noteq> ''/dev/null'' then Deny (''dd writing to a device: '' @ a) else Allow
      | None \<Rightarrow> Allow)"

definition check_diskutil :: "string list \<Rightarrow> guard_decision" where
  "check_diskutil args =
     (case args of
        a # _ \<Rightarrow> if a \<in> {''eraseDisk'', ''eraseVolume'', ''partitionDisk'', ''zeroDisk''}
                 then Deny ''diskutil erase/partition destroys a volume'' else Allow
      | [] \<Rightarrow> Allow)"

definition check_chmod_chown ::
  "(location \<Rightarrow> location option) \<Rightarrow> guard_context \<Rightarrow> string \<Rightarrow> string list \<Rightarrow> guard_decision" where
  "check_chmod_chown canonicalize ctx program args =
     (if CHR ''R'' \<in> set (combined_flags args) \<or> ''--recursive'' \<in> set args
      then check_all (\<lambda>t.
        let abs = normalize t (gx_workspace ctx) (gx_home ctx) in
        if abs = root_location \<or> abs = components (gx_home ctx)
        then cite_builtin ctx (Deny (program @ '' -R on '' @ show_location abs))
        else write_target_check canonicalize ctx t) (drop 1 (targets_of args))
      else Allow)"

definition prefix_reason :: "string \<Rightarrow> guard_decision \<Rightarrow> guard_decision" where
  "prefix_reason p d = (case d of Deny r \<Rightarrow> Deny (p @ r) | Allow \<Rightarrow> Allow)"

definition check_write_targets ::
  "(location \<Rightarrow> location option) \<Rightarrow> guard_context \<Rightarrow> string \<Rightarrow> string list \<Rightarrow> guard_decision" where
  "check_write_targets canonicalize ctx program args =
     check_all (\<lambda>t. if t \<in> {''/dev/null'', ''/dev/stdout'', ''/dev/stderr''} then Allow
       else prefix_reason (program @ '': '') (write_target_check canonicalize ctx t)) (targets_of args)"

definition check_mv_cp ::
  "(location \<Rightarrow> location option) \<Rightarrow> guard_context \<Rightarrow> string \<Rightarrow> string list \<Rightarrow> guard_decision" where
  "check_mv_cp canonicalize ctx program args =
     (let targets = targets_of args in
      if length targets < 2 then Allow
      else then_check (prefix_reason (program @ '' destination: '') (write_target_check canonicalize ctx (last targets)))
        (check_all (\<lambda>s.
           then_check (deny_glob_check canonicalize ctx CommandAccess s)
             (if program = ''mv'' then prefix_reason ''mv source (a deletion): '' (write_target_check canonicalize ctx s) else Allow))
           (butlast targets)))"

section \<open>Editing in place\<close>

text \<open>Whether the letters of one cluster reach an \<open>i\<close> before one that takes a value or is not known.\<close>

fun cluster_in_place :: "string \<Rightarrow> string \<Rightarrow> string \<Rightarrow> bool" where
  "cluster_in_place transparent terminators [] = False"
| "cluster_in_place transparent terminators (c # cs) =
     (if c = CHR ''i'' then True
      else if c \<in> set terminators \<or> c \<notin> set transparent then False
      else cluster_in_place transparent terminators cs)"

definition has_in_place_flag :: "string \<Rightarrow> string list \<Rightarrow> bool" where
  "has_in_place_flag program args \<longleftrightarrow>
     (let (transparent, terminators) =
            (if program = ''sed'' then (''nErsuzgpal'', ''ef'') else (''pnlawcstuUWX'', ''eE''))
      in list_ex (\<lambda>a. a = ''--in-place'' \<or> starts_with a ''--in-place='' \<or>
           (is_short_flag a \<and> cluster_in_place transparent terminators (tl a)))
         (takeWhile (\<lambda>a. a \<noteq> ''--'') args))"

definition is_explicit_path :: "string \<Rightarrow> bool" where
  "is_explicit_path arg \<longleftrightarrow>
     starts_with arg ''/'' \<or> arg = ''~'' \<or> starts_with arg ''~/'' \<or> arg = ''$HOME'' \<or> arg = ''${HOME}'' \<or>
     starts_with arg ''$HOME/'' \<or> starts_with arg ''${HOME}/''"

text \<open>The operands, and whether a flag carried the script. The flags say what is pending: a value to skip, or only operands.\<close>

fun edit_operands :: "string list \<Rightarrow> string list \<Rightarrow> bool \<Rightarrow> bool \<Rightarrow> string list \<Rightarrow> string list \<times> bool" where
  "edit_operands value_flags script_flags skip_value after_dashdash [] = ([], False)"
| "edit_operands value_flags script_flags skip_value after_dashdash (a # as) =
     (if skip_value then edit_operands value_flags script_flags False after_dashdash as
      else if after_dashdash
      then (let (ops, scr) = edit_operands value_flags script_flags False True as in (a # ops, scr))
      else if a = ''--'' then edit_operands value_flags script_flags False True as
      else if is_flag a \<and> 1 < length a then
        (if a \<in> set value_flags
         then (let (ops, scr) = edit_operands value_flags script_flags True False as in (ops, scr \<or> a \<in> set script_flags))
         else edit_operands value_flags script_flags False False as)
      else (let (ops, scr) = edit_operands value_flags script_flags False False as in (a # ops, scr)))"

definition check_in_place_edit ::
  "(location \<Rightarrow> location option) \<Rightarrow> guard_context \<Rightarrow> string \<Rightarrow> string list \<Rightarrow> guard_decision" where
  "check_in_place_edit canonicalize ctx program args =
     (if \<not> has_in_place_flag program args then Allow
      else
        (let (value_flags, script_flags) =
               (if program = ''sed''
                then ([''-e'', ''-f'', ''--expression'', ''--file''], [''-e'', ''-f'', ''--expression'', ''--file''])
                else ([''-e'', ''-E'', ''-I''], [''-e'', ''-E'']));
             (operands, script_via_flag) = edit_operands value_flags script_flags False False args;
             files = (if script_via_flag then operands else drop 1 operands)
         in check_all (\<lambda>f. if is_explicit_path f
              then prefix_reason (program @ '' -i rewrites '' @ f @ '' in place: '') (write_target_check canonicalize ctx f)
              else Allow) files))"

section \<open>A command line\<close>

definition check_redirect :: "(location \<Rightarrow> location option) \<Rightarrow> guard_context \<Rightarrow> string \<Rightarrow> guard_decision" where
  "check_redirect canonicalize ctx target =
     (if starts_with target ''/dev/''
      then (if target \<in> {''/dev/null'', ''/dev/stdout'', ''/dev/stderr''} then Allow
            else Deny (''redirect into a device: > '' @ target))
      else write_target_check canonicalize ctx target)"

definition check_program ::
  "(location \<Rightarrow> location option) \<Rightarrow> guard_context \<Rightarrow> string \<Rightarrow> string list \<Rightarrow> bool \<Rightarrow> guard_decision" where
  "check_program canonicalize ctx program rest via_xargs =
     (if program = ''agentstack'' then check_agentstack rest
      else if program = ''rm'' then check_rm canonicalize ctx rest via_xargs
      else if program = ''git'' then cite_builtin ctx (check_git rest)
      else if program = ''find'' then check_find canonicalize ctx rest
      else if program = ''shred'' then cite_builtin ctx (Deny ''shred irrecoverably destroys file contents'')
      else if program = ''dd'' then cite_builtin ctx (check_dd rest)
      else if program = ''diskutil'' then cite_builtin ctx (check_diskutil rest)
      else if program \<in> {''chmod'', ''chown''} then check_chmod_chown canonicalize ctx program rest
      else if program \<in> {''truncate'', ''tee''} then check_write_targets canonicalize ctx program rest
      else if program \<in> {''sed'', ''perl''} then check_in_place_edit canonicalize ctx program rest
      else if program \<in> {''mv'', ''cp''} then check_mv_cp canonicalize ctx program rest
      else if program = ''install'' then
        (if CHR ''d'' \<in> set (combined_flags rest) then check_write_targets canonicalize ctx program rest
         else check_mv_cp canonicalize ctx program rest)
      else if starts_with program ''mkfs''
      then cite_builtin ctx (Deny (program @ '' formats a filesystem '' @ em_dash @ '' never allowed via a hook''))
      else Allow)"

text \<open>One segment; \<open>inner\<close> judges the command line of a nested shell, where the depth allows one.\<close>

definition check_tokens ::
  "(location \<Rightarrow> location option) \<Rightarrow> guard_context \<Rightarrow> (string \<Rightarrow> guard_decision) option \<Rightarrow> string list \<Rightarrow> guard_decision" where
  "check_tokens canonicalize ctx inner tokens =
     then_check (check_all (\<lambda>tok. if is_flag tok then Allow else deny_glob_check canonicalize ctx CommandAccess tok) tokens)
       (then_check (check_all (check_redirect canonicalize ctx) (redirect_targets tokens))
         (case strip_wrappers tokens of
            (None, _, _) \<Rightarrow> Allow
          | (Some program, rest, via_xargs) \<Rightarrow>
              then_check (check_interpreter_consent_store ctx program rest)
                (then_check
                  (case (inner, if program \<in> set SHELLS then shell_script_arg rest else None) of
                     (Some judge, Some script) \<Rightarrow> judge script
                   | _ \<Rightarrow> Allow)
                  (check_program canonicalize ctx program rest via_xargs))))"

text \<open>\<open>left\<close> is how many nested shells are still followed.\<close>

primrec check_bash_depth :: "nat \<Rightarrow> (location \<Rightarrow> location option) \<Rightarrow> guard_context \<Rightarrow> string \<Rightarrow> guard_decision" where
  "check_bash_depth 0 canonicalize ctx command =
     check_all (\<lambda>segment. check_tokens canonicalize ctx None (tokenize segment)) (split_segments command)"
| "check_bash_depth (Suc left) canonicalize ctx command =
     check_all (\<lambda>segment. check_tokens canonicalize ctx (Some (check_bash_depth left canonicalize ctx)) (tokenize segment))
       (split_segments command)"

definition check_bash :: "(location \<Rightarrow> location option) \<Rightarrow> guard_context \<Rightarrow> string \<Rightarrow> guard_decision" where
  "check_bash = check_bash_depth MAX_SHELL_DEPTH"

section \<open>Argument vectors\<close>

text \<open>The quoting of one word.\<close>

definition is_bare :: "char \<Rightarrow> bool" where
  "is_bare c \<longleftrightarrow> is_ascii_alphanumeric c \<or> c \<in> set ''_-./=:@+,%~''"

definition quote_char :: "char \<Rightarrow> string" where
  "quote_char c = (if c = CHR 0x27 then [CHR 0x27, CHR 0x22, CHR 0x27, CHR 0x22, CHR 0x27] else [c])"

definition shell_quote :: "string \<Rightarrow> string" where
  "shell_quote word =
     (if word \<noteq> [] \<and> list_all is_bare word then word
      else [CHR 0x27] @ concat (map quote_char word) @ [CHR 0x27])"

section \<open>Argument vectors survive the analysis\<close>

lemma bare_char:
  assumes "is_bare c"
  shows "is_ascii c \<and> c \<notin> {CHR 0x27, CHR 0x22, CHR '';'', CHR 0x0A, CHR ''|'', CHR ''&'', CHR 0x60, CHR ''$'', CHR '')''} \<and>
    [c] \<notin> set white_encodings"
proof -
  have "\<not> is_bare (CHR 0x27)" "\<not> is_bare (CHR 0x22)" "\<not> is_bare (CHR '';'')" "\<not> is_bare (CHR 0x0A)" "\<not> is_bare (CHR ''|'')"
    "\<not> is_bare (CHR ''&'')" "\<not> is_bare (CHR 0x60)" "\<not> is_bare (CHR ''$'')" "\<not> is_bare (CHR '')'')" by code_simp+
  moreover have "list_all (\<lambda>e. \<not> (length e = 1 \<and> is_bare (hd e))) white_encodings" by code_simp
  then have "[c] \<notin> set white_encodings" using assms by (auto simp: list_all_iff)
  moreover have "is_ascii c" using assms by (auto simp: is_bare_def ascii_defs byte_def)
  ultimately show ?thesis using assms by auto
qed

lemma split_bare: "list_all is_bare w \<Longrightarrow> split_from None cur (w @ rest) = split_from None (cur @ w) rest"
proof (induction w arbitrary: cur)
  case (Cons c w)
  then show ?case using bare_char [of c] by simp
qed simp

lemma split_escaped:
  "split_from (Some (CHR 0x27)) cur (concat (map quote_char w) @ rest) =
   split_from (Some (CHR 0x27)) (cur @ concat (map quote_char w)) rest"
  by (induction w arbitrary: cur) (simp_all add: quote_char_def)

lemma split_quoted: "split_from None cur (shell_quote w @ rest) = split_from None (cur @ shell_quote w) rest"
  using split_escaped [of "cur @ [CHR 0x27]" w "CHR 0x27 # rest"]
  by (simp add: shell_quote_def split_bare)

lemma join_quoted:
  "join_with '' '' (map shell_quote (w # ws)) = shell_quote w @ concat (map (\<lambda>q. CHR '' '' # shell_quote q) ws)"
proof -
  have "concat (map (\<lambda>q. '' '' @ q) (map shell_quote ws)) = concat (map (\<lambda>q. CHR '' '' # shell_quote q) ws)"
    by (induction ws) simp_all
  then show ?thesis by (simp only: join_with_def list.map list.case)
qed

lemma split_joined: "split_from None [] (join_with '' '' (map shell_quote (w # ws))) = [join_with '' '' (map shell_quote (w # ws))]"
proof -
  have "split_from None cur (concat (map (\<lambda>q. CHR '' '' # shell_quote q) ws)) =
    [cur @ concat (map (\<lambda>q. CHR '' '' # shell_quote q) ws)]" for cur ws
    by (induction ws arbitrary: cur) (simp_all add: split_quoted)
  then show ?thesis by (simp add: join_quoted split_quoted del: list.map)
qed

lemma tokens_bare:
  "list_all is_bare w \<Longrightarrow> tokenize_from None cur (utf8_chars (w @ rest)) = tokenize_from None (cur @ w) (utf8_chars rest)"
proof (induction w arbitrary: cur)
  case (Cons c w)
  then show ?case using bare_char [of c] by (simp add: utf8_chars_Cons_ascii)
qed simp

lemma quote_char_id: "CHR 0x27 \<notin> set c \<Longrightarrow> concat (map quote_char c) = c"
  by (induction c) (auto simp: quote_char_def)

lemma ascii_quotes: "is_ascii (CHR 0x27)" "is_ascii (CHR 0x22)" "is_ascii (CHR '' '')"
  by code_simp+

lemma tokens_escaped:
  "list_all utf8_char cs \<Longrightarrow>
   tokenize_from (Some [CHR 0x27]) cur (utf8_chars (concat (map quote_char (concat cs)) @ rest)) =
   tokenize_from (Some [CHR 0x27]) (cur @ concat cs) (utf8_chars rest)"
proof (induction cs arbitrary: cur)
  case (Cons c cs)
  show ?case
  proof (cases "CHR 0x27 \<in> set c")
    case True
    then have "c = [CHR 0x27]" using utf8_char_high [of c] Cons.prems ascii_quotes by simp
    with Cons show ?thesis by (simp add: quote_char_def utf8_chars_Cons_ascii ascii_quotes)
  next
    case False
    moreover from this have "c \<noteq> [CHR 0x27]" by auto
    ultimately show ?thesis using Cons by (simp add: quote_char_id utf8_chars_append)
  qed
qed simp

lemma tokens_quoted:
  assumes "utf8_valid w"
  shows "tokenize_from None cur (utf8_chars (shell_quote w @ rest)) = tokenize_from None (cur @ w) (utf8_chars rest)"
proof -
  have "list_all utf8_char (utf8_chars w)" "concat (utf8_chars w) = w" using utf8_valid_chars [OF assms] by simp_all
  then have "tokenize_from (Some [CHR 0x27]) cur (utf8_chars (concat (map quote_char w) @ CHR 0x27 # rest)) =
      tokenize_from (Some [CHR 0x27]) (cur @ w) (utf8_chars (CHR 0x27 # rest))"
    using tokens_escaped [of "utf8_chars w" cur "CHR 0x27 # rest"] by simp
  then show ?thesis by (simp add: shell_quote_def tokens_bare utf8_chars_Cons_ascii ascii_quotes)
qed

lemma space_white: "'' '' \<in> set white_encodings"
  by code_simp

lemma tokens_joined:
  assumes "\<forall>w \<in> set (w # ws). utf8_valid w"
  shows "tokenize (join_with '' '' (map shell_quote (w # ws))) = filter (\<lambda>w. w \<noteq> []) (w # ws)"
proof -
  have "tokenize_from None w (utf8_chars (concat (map (\<lambda>q. CHR '' '' # shell_quote q) ws))) = filter (\<lambda>w. w \<noteq> []) (w # ws)"
    using assms
  proof (induction ws arbitrary: w)
    case (Cons v ws)
    then show ?case by (simp add: utf8_chars_Cons_ascii ascii_quotes space_white tokens_quoted)
  qed simp
  then show ?thesis using assms by (simp add: tokenize_def join_quoted tokens_quoted del: list.map)
qed

lemma strip_first_hd: "\<forall>e \<in> set es. e = [] \<or> hd e \<noteq> c \<Longrightarrow> strip_first es (c # s) = None"
proof (induction es)
  case (Cons e es)
  then show ?case by (cases e) auto
qed simp

definition plain_byte :: "char \<Rightarrow> bool" where
  "plain_byte c \<longleftrightarrow> (\<forall>e \<in> set white_encodings. hd e \<noteq> c \<and> last e \<noteq> c)"

lemma trim_plain:
  assumes "plain_byte (hd s)" "plain_byte (last s)"
  shows "trim s = s"
proof (cases "s = []")
  case True
  have "trim [] = []" by code_simp
  with True show ?thesis by simp
next
  case False
  have "\<forall>e \<in> set white_encodings. e \<noteq> []" by code_simp
  then have "strip_first white_encodings (hd s # tl s) = None"
    "strip_first (map rev white_encodings) (last s # rev (butlast s)) = None"
    using assms by (auto intro!: strip_first_hd simp: plain_byte_def hd_rev)
  moreover have "last s # rev (butlast s) = rev s" using False by (metis append_butlast_last_id rev.simps(2) rev_rev_ident)
  ultimately show ?thesis using False by (simp add: trim_def trim_with_fixed)
qed

lemma plain_bytes: "is_bare c \<or> c = CHR 0x27 \<Longrightarrow> plain_byte c"
proof -
  have "list_all (\<lambda>e. \<not> is_bare (hd e) \<and> \<not> is_bare (last e) \<and> hd e \<noteq> CHR 0x27 \<and> last e \<noteq> CHR 0x27) white_encodings"
    by code_simp
  then show "is_bare c \<or> c = CHR 0x27 \<Longrightarrow> plain_byte c" by (auto simp: list_all_iff plain_byte_def)
qed

lemma shell_quote_ends: "shell_quote w \<noteq> [] \<and> plain_byte (hd (shell_quote w)) \<and> plain_byte (last (shell_quote w))"
  by (auto simp: shell_quote_def plain_bytes list_all_iff)

lemma trim_joined: "trim (join_with '' '' (map shell_quote (w # ws))) = join_with '' '' (map shell_quote (w # ws))"
proof (rule trim_plain)
  show "plain_byte (hd (join_with '' '' (map shell_quote (w # ws))))"
    using shell_quote_ends [of w] by (simp add: join_quoted del: list.map)
  have "plain_byte (last (shell_quote w @ concat (map (\<lambda>q. CHR '' '' # shell_quote q) ws)))"
    by (induction ws rule: rev_induct) (simp_all add: shell_quote_ends)
  then show "plain_byte (last (join_with '' '' (map shell_quote (w # ws))))" by (simp add: join_quoted del: list.map)
qed

lemma joined_analysis:
  assumes "ws \<noteq> []" "\<forall>w \<in> set ws. utf8_valid w"
  shows "split_segments (join_with '' '' (map shell_quote ws)) = [join_with '' '' (map shell_quote ws)] \<and>
    tokenize (join_with '' '' (map shell_quote ws)) = filter (\<lambda>w. w \<noteq> []) ws"
proof -
  obtain w vs where ws: "ws = w # vs" using assms(1) by (cases ws) auto
  have "join_with '' '' (map shell_quote ws) \<noteq> []" using shell_quote_ends [of w] unfolding ws join_quoted by simp
  then show ?thesis using tokens_joined [of w vs] assms(2) unfolding ws by (simp add: split_segments_def split_joined trim_joined del: list.map)
qed

section \<open>Consent from a shell\<close>

lemma check_bash_segments:
  assumes "check_bash_depth n canonicalize ctx command = Allow" "segment \<in> set (split_segments command)"
    and "strip_wrappers (tokenize segment) = (Some program, rest, x)"
  shows "check_program canonicalize ctx program rest x = Allow"
    and "program \<in> set SHELLS \<Longrightarrow> shell_script_arg rest = Some script \<Longrightarrow> 0 < n \<Longrightarrow>
      check_bash_depth (n - 1) canonicalize ctx script = Allow"
proof -
  obtain inner where i: "check_tokens canonicalize ctx inner (tokenize segment) = Allow"
    "0 < n \<Longrightarrow> inner = Some (check_bash_depth (n - 1) canonicalize ctx)"
    using assms(1,2) by (cases n) auto
  then show "check_program canonicalize ctx program rest x = Allow"
    "program \<in> set SHELLS \<Longrightarrow> shell_script_arg rest = Some script \<Longrightarrow> 0 < n \<Longrightarrow>
      check_bash_depth (n - 1) canonicalize ctx script = Allow"
    by (auto simp: check_tokens_def assms(3))
qed

text \<open>A command line runs a program when some segment does, behind wrappers or inside nested shells.\<close>

inductive runs :: "nat \<Rightarrow> string \<Rightarrow> string \<Rightarrow> string list \<Rightarrow> bool" where
  runs_segment: "segment \<in> set (split_segments command) \<Longrightarrow>
    strip_wrappers (tokenize segment) = (Some program, rest, x) \<Longrightarrow> runs n command program rest"
| runs_nested: "segment \<in> set (split_segments command) \<Longrightarrow>
    strip_wrappers (tokenize segment) = (Some shell, args, x) \<Longrightarrow> shell \<in> set SHELLS \<Longrightarrow>
    shell_script_arg args = Some script \<Longrightarrow> runs n script program rest \<Longrightarrow> runs (Suc n) command program rest"

lemma runs_checked:
  "runs n command program rest \<Longrightarrow> check_bash_depth n canonicalize ctx command = Allow \<Longrightarrow>
   \<exists>x. check_program canonicalize ctx program rest x = Allow"
proof (induction rule: runs.induct)
  case (runs_segment segment command program rest x n)
  then show ?case using check_bash_segments(1) by blast
next
  case (runs_nested segment command shell args x script n program rest)
  have "check_bash_depth (Suc n - 1) canonicalize ctx script = Allow"
    by (rule check_bash_segments(2) [OF runs_nested.prems runs_nested.hyps(1-4)]) simp
  then show ?case using runs_nested.IH by simp
qed

end
