(* ===== verification/Guard_Consent.thy ===== *)
theory Guard_Consent
  imports Guard_Shell
begin

text \<open>
  What it is for a command line to run agentstack, said without the guard's own parser: the shell grammar of simple
  commands, quoting, operators, wrappers and nested shells, and the words that make agentstack grant consent. The
  shell analysis of Guard_Shell (crates/cli/src/guard.rs) is judged against it. Out of this grammar, and in fact not
  seen by the guard, are backslash escapes, subshells in plain parentheses, a second leading assignment, and an option
  of a wrapper whose value is a word of its own.
\<close>

section \<open>Simple commands\<close>

text \<open>A word as it is, or in single quotes with the escapes of \<open>shell_quote\<close>, or in double quotes.\<close>

definition spells :: "string \<Rightarrow> string \<Rightarrow> bool" where
  "spells w t \<longleftrightarrow> utf8_valid w \<and> w \<noteq> [] \<and>
     (t = shell_quote w \<or> (CHR 0x22 \<notin> set w \<and> t = CHR 0x22 # w @ [CHR 0x22]))"

definition blanks :: "string \<Rightarrow> bool" where
  "blanks b \<longleftrightarrow> set b \<subseteq> {CHR '' '', CHR 0x09}"

text \<open>The words with blanks between them, before the first and after the last.\<close>

inductive command_text :: "string list \<Rightarrow> string \<Rightarrow> bool" where
  last_word: "blanks a \<Longrightarrow> spells w t \<Longrightarrow> blanks b \<Longrightarrow> command_text [w] (a @ t @ b)"
| next_word: "blanks a \<Longrightarrow> spells w t \<Longrightarrow> blanks b \<Longrightarrow> b \<noteq> [] \<Longrightarrow> command_text ws s \<Longrightarrow> command_text (w # ws) (a @ t @ b @ s)"

section \<open>Command lines\<close>

definition operators :: "string list" where
  "operators = ['';'', ''&&'', ''||'', ''|'', ''&'', [CHR 0x0A], [CHR 0x60], ''$('']"

text \<open>Text whose quotes are closed and that has no backslash.\<close>

inductive balanced :: "string \<Rightarrow> bool" where
  bal_Nil: "balanced []"
| bal_char: "c \<notin> {CHR 0x27, CHR 0x22, CHR 0x5C} \<Longrightarrow> balanced p \<Longrightarrow> balanced (c # p)"
| bal_quoted: "q \<in> {CHR 0x27, CHR 0x22} \<Longrightarrow> q \<notin> set w \<Longrightarrow> CHR 0x5C \<notin> set w \<Longrightarrow> balanced p \<Longrightarrow> balanced (q # w @ q # p)"

text \<open>A command stands in a line alone, after a command, before anything, or between.\<close>

definition stands_in :: "string \<Rightarrow> string \<Rightarrow> bool" where
  "stands_in s line \<longleftrightarrow>
     (\<exists>before after. line = before @ s @ after \<and>
        (before = [] \<or> (\<exists>p op. before = p @ op \<and> balanced p \<and> op \<in> set operators)) \<and>
        (after = [] \<or> (\<exists>op q. after = op @ q \<and> op \<in> set ('')'' # operators))))"

section \<open>Who runs what\<close>

text \<open>A program is called by its name, or by a path that ends in it.\<close>

definition called :: "string \<Rightarrow> string \<Rightarrow> bool" where
  "called p name \<longleftrightarrow> (p = name \<or> (\<exists>dir. p = dir @ ''/'' @ name)) \<and> CHR ''='' \<notin> set p \<and> \<not> starts_with p ''-''"

definition wrapper_names :: "string set" where
  "wrapper_names = {''sudo'', ''env'', ''nohup'', ''time'', ''nice'', ''ionice'', ''command'', ''builtin'', ''exec'', ''stdbuf''}"

definition shell_names :: "string set" where
  "shell_names = {''sh'', ''bash'', ''zsh'', ''dash'', ''ksh'', ''ash''}"

inductive invokes :: "string list \<Rightarrow> string \<Rightarrow> string list \<Rightarrow> bool" where
  itself: "called p program \<Longrightarrow> invokes (p # args) program args"
| wrapped: "called w name \<Longrightarrow> name \<in> wrapper_names \<Longrightarrow> \<forall>x \<in> set opts. CHR ''='' \<in> set x \<or> starts_with x ''-'' \<Longrightarrow>
    invokes ws program args \<Longrightarrow> invokes (w # opts @ ws) program args"
| from_xargs: "called w ''xargs'' \<Longrightarrow> \<forall>x \<in> set opts. starts_with x ''-'' \<Longrightarrow>
    invokes ws program args \<Longrightarrow> invokes (w # opts @ ws) program args"

text \<open>With one assignment in front, whose text is not taken for a flag or a path.\<close>

definition invoked :: "string list \<Rightarrow> string \<Rightarrow> string list \<Rightarrow> bool" where
  "invoked ws program args \<longleftrightarrow> invokes ws program args \<or>
     (\<exists>var val rest. ws = (var @ ''='' @ val) # rest \<and> var \<noteq> [] \<and> \<not> starts_with var ''-'' \<and> \<not> starts_with var ''/'' \<and>
        invokes rest program args)"

text \<open>A line runs agentstack, at most so many shells deep.\<close>

inductive line_runs :: "nat \<Rightarrow> string \<Rightarrow> string list \<Rightarrow> bool" where
  here: "stands_in s line \<Longrightarrow> command_text ws s \<Longrightarrow> invoked ws ''agentstack'' args \<Longrightarrow> line_runs n line args"
| in_shell: "stands_in s line \<Longrightarrow> command_text ws s \<Longrightarrow> invoked ws shell (opts @ (''-'' @ letters) # script # rest) \<Longrightarrow>
    shell \<in> shell_names \<Longrightarrow> CHR ''c'' \<in> set letters \<Longrightarrow> \<not> starts_with letters ''-'' \<Longrightarrow>
    \<forall>x \<in> set opts. x \<noteq> ''--'' \<and> CHR ''c'' \<notin> set x \<Longrightarrow> line_runs n script args \<Longrightarrow> line_runs (Suc n) line args"

text \<open>The verb of the arguments, past flags, the manifest directory and the two namespaces.\<close>

inductive verb_of :: "string list \<Rightarrow> string \<Rightarrow> bool" where
  verb: "verb \<in> {''trust'', ''yes'', ''init'', ''apply''} \<Longrightarrow> verb_of (verb # args) verb"
| directory: "verb_of args verb \<Longrightarrow> verb_of (''--manifest-dir'' # dir # args) verb"
| flag: "starts_with f ''-'' \<Longrightarrow> f \<noteq> ''--manifest-dir'' \<Longrightarrow> verb_of args verb \<Longrightarrow> verb_of (f # args) verb"
| namespace: "ns \<in> {''x'', ''more''} \<Longrightarrow> verb_of args verb \<Longrightarrow> verb_of (ns # args) verb"

definition consents :: "string list \<Rightarrow> bool" where
  "consents args \<longleftrightarrow>
     verb_of args ''yes'' \<or> (verb_of args ''trust'' \<and> ''--preview'' \<notin> set args \<and> ''--list'' \<notin> set args) \<or>
     ((verb_of args ''init'' \<or> verb_of args ''apply'') \<and> ''--yes'' \<in> set args)"

section \<open>The guard reads this grammar\<close>

lemma verb_of_found: "verb_of args verb \<Longrightarrow> agentstack_verb args = Some verb"
  by (induction rule: verb_of.induct) (auto simp: is_flag_def starts_with_iff)

lemma split_inside: "q \<notin> set w \<Longrightarrow> split_from (Some q) cur (w @ q # rest) = split_from None (cur @ w @ [q]) rest"
  by (induction w arbitrary: cur) auto

lemma split_spelled: "spells w t \<Longrightarrow> split_from None cur (t @ rest) = split_from None (cur @ t) rest"
  using split_inside [of "CHR 0x22" w "cur @ [CHR 0x22]" rest] by (auto simp: spells_def split_quoted)

lemma split_blanks: "blanks b \<Longrightarrow> split_from None cur (b @ rest) = split_from None (cur @ b) rest"
  by (induction b arbitrary: cur) (auto simp: blanks_def)

lemma split_command: "command_text ws s \<Longrightarrow> split_from None cur (s @ rest) = split_from None (cur @ s) rest"
  by (induction arbitrary: cur rule: command_text.induct) (simp_all add: split_blanks split_spelled)

lemma split_operator:
  "op \<in> set operators \<Longrightarrow> \<not> starts_with x ''&'' \<Longrightarrow> \<not> starts_with x ''|'' \<Longrightarrow>
   \<exists>segs. split_from None cur (op @ x) = segs @ split_from None [] x"
  by (auto simp: operators_def starts_with_iff)

lemma split_before:
  assumes "op \<in> set operators" "\<not> starts_with x ''&''" "\<not> starts_with x ''|''"
  shows "balanced p \<Longrightarrow> (\<forall>cur. \<exists>segs. split_from None cur (p @ op @ x) = segs @ split_from None [] x) \<and>
    (\<forall>c p'. p = c # p' \<longrightarrow> c \<in> {CHR ''&'', CHR ''|'', CHR ''(''} \<longrightarrow>
       (\<forall>cur. \<exists>segs. split_from None cur (p' @ op @ x) = segs @ split_from None [] x))"
proof (induction rule: balanced.induct)
  case bal_Nil
  then show ?case using split_operator [OF assms] by simp
next
  case (bal_char c p)
  have "\<exists>segs. split_from None cur ((c # p) @ op @ x) = segs @ split_from None [] x" for cur
  proof -
    have glue: "\<exists>segs. a # split_from None [] (tl (p @ op @ x)) = segs @ split_from None [] x"
      if "starts_with (p @ op @ x) [d]" "d \<in> {CHR ''&'', CHR ''|'', CHR ''(''}" for a d
    proof (cases p)
      case Nil
      with that assms show ?thesis by (auto simp: operators_def starts_with_iff)
    next
      case (Cons d' p')
      with that have "d' = d" by (auto simp: starts_with_iff)
      with bal_char.IH that(2) Cons obtain segs where "split_from None [] (p' @ op @ x) = segs @ split_from None [] x" by blast
      with Cons show ?thesis by (intro exI [of _ "a # segs"]) simp
    qed
    have step: "\<exists>segs. a # split_from None [] (p @ op @ x) = segs @ split_from None [] x" for a
      using bal_char.IH by (metis append_Cons)
    have more: "\<exists>segs. split_from None cur' (p @ op @ x) = segs @ split_from None [] x" for cur'
      using bal_char.IH by blast
    show ?thesis
      using bal_char.hyps(1) glue [of "CHR ''&''"] glue [of "CHR ''|''"] glue [of "CHR ''(''"] step more by (auto simp del: append_assoc split: if_splits)
  qed
  with bal_char.IH show ?case by simp
next
  case (bal_quoted q w p)
  have "split_from None cur ((q # w @ q # p) @ op @ x) = split_from None (cur @ q # w @ [q]) (p @ op @ x)" for cur
    using split_inside [OF bal_quoted.hyps(2), of "cur @ [q]" "p @ op @ x"] bal_quoted.hyps(1) by auto
  with bal_quoted show ?case by auto
qed

lemma spelled_head: "spells w t \<Longrightarrow> t \<noteq> [] \<and> hd t \<noteq> CHR ''&'' \<and> hd t \<noteq> CHR ''|''"
proof -
  assume s: "spells w t"
  have "hd w \<noteq> CHR ''&'' \<and> hd w \<noteq> CHR ''|''" if "w \<noteq> []" "list_all is_bare w"
    using that bare_char [of "hd w"] by (cases w) auto
  with s show ?thesis by (auto simp: spells_def shell_quote_def split: if_splits)
qed

lemma command_head: "command_text ws s \<Longrightarrow> s \<noteq> [] \<and> hd s \<noteq> CHR ''&'' \<and> hd s \<noteq> CHR ''|''"
proof (induction rule: command_text.induct)
  case (last_word a w t b)
  have "t \<noteq> [] \<and> hd t \<noteq> CHR ''&'' \<and> hd t \<noteq> CHR ''|''"
    by (rule spelled_head [OF last_word(2)])
  with last_word(1) show ?case by (cases a) (auto simp: blanks_def)
next
  case (next_word a w t b ws s)
  have "t \<noteq> [] \<and> hd t \<noteq> CHR ''&'' \<and> hd t \<noteq> CHR ''|''"
    by (rule spelled_head [OF next_word(2)])
  with next_word(1) show ?case by (cases a) (auto simp: blanks_def)
qed

lemma split_after: "after = [] \<or> (\<exists>op q. after = op @ q \<and> op \<in> set ('')'' # operators)) \<Longrightarrow>
  \<exists>segs. split_from None cur after = cur # segs"
  by (auto simp: operators_def starts_with_iff)

lemma stands_segment:
  assumes "stands_in s line" "command_text ws s"
  shows "s \<in> set (split_from None [] line)"
proof -
  from assms(1) obtain before after where line: "line = before @ s @ after"
    and b: "before = [] \<or> (\<exists>p op. before = p @ op \<and> balanced p \<and> op \<in> set operators)"
    and a: "after = [] \<or> (\<exists>op q. after = op @ q \<and> op \<in> set ('')'' # operators))"
    unfolding stands_in_def by blast
  have "\<exists>segs. split_from None [] (s @ after) = s # segs" using split_command [OF assms(2)] split_after [OF a] by simp
  moreover have "\<exists>segs. split_from None [] line = segs @ split_from None [] (s @ after)"
  proof (cases "before = []")
    case False
    with b obtain p op where p: "before = p @ op" "balanced p" "op \<in> set operators" by blast
    have "\<not> starts_with (s @ after) ''&''" "\<not> starts_with (s @ after) ''|''"
      using command_head [OF assms(2)] by (cases s; auto simp: starts_with_iff)+
    from split_before [OF p(3) this p(2)] show ?thesis by (simp add: line p(1))
  qed (simp add: line)
  ultimately show ?thesis by (metis in_set_conv_decomp)
qed

lemma tokens_inside:
  "list_all utf8_char cs \<Longrightarrow> CHR 0x22 \<notin> set (concat cs) \<Longrightarrow>
   tokenize_from (Some [CHR 0x22]) cur (utf8_chars (concat cs @ rest)) = tokenize_from (Some [CHR 0x22]) (cur @ concat cs) (utf8_chars rest)"
proof (induction cs arbitrary: cur)
  case (Cons c cs)
  then have "c \<noteq> [CHR 0x22]" by auto
  with Cons show ?case by (simp add: utf8_chars_append)
qed simp

lemma tokens_spelled:
  assumes "spells w t"
  shows "tokenize_from None cur (utf8_chars (t @ rest)) = tokenize_from None (cur @ w) (utf8_chars rest)"
proof (cases "t = shell_quote w")
  case True
  with assms show ?thesis by (simp add: spells_def tokens_quoted)
next
  case False
  with assms have w: "utf8_valid w" "CHR 0x22 \<notin> set w" "t = CHR 0x22 # w @ [CHR 0x22]" by (auto simp: spells_def)
  from utf8_valid_chars [OF w(1)] have "list_all utf8_char (utf8_chars w)" "concat (utf8_chars w) = w" by simp_all
  with tokens_inside [of "utf8_chars w" cur "CHR 0x22 # rest"] w(2,3) show ?thesis
    by (simp add: utf8_chars_Cons_ascii ascii_quotes)
qed

lemma tokens_blanks: "blanks b \<Longrightarrow> tokenize_from None cur (utf8_chars (b @ rest)) =
    (if cur = [] \<or> b = [] then tokenize_from None cur (utf8_chars rest) else cur # tokenize_from None [] (utf8_chars rest))"
proof (induction b arbitrary: cur)
  case (Cons c b)
  have "[c] \<in> set white_encodings \<and> is_ascii c \<and> [c] \<noteq> [CHR 0x27] \<and> [c] \<noteq> [CHR 0x22]" if "c \<in> {CHR '' '', CHR 0x09}"
  proof -
    have "list_all (\<lambda>c. [c] \<in> set white_encodings \<and> is_ascii c \<and> [c] \<noteq> [CHR 0x27] \<and> [c] \<noteq> [CHR 0x22]) [CHR '' '', CHR 0x09]"
      by code_simp
    with that show ?thesis by (auto simp: list_all_iff)
  qed
  with Cons show ?case by (auto simp: blanks_def utf8_chars_Cons_ascii)
qed simp

lemma tokens_command: "command_text ws s \<Longrightarrow> tokenize s = ws"
proof -
  assume "command_text ws s"
  then have "tokenize_from None [] (utf8_chars (s @ [])) = ws"
  proof (induction rule: command_text.induct)
    case (last_word a w t b)
    then have "w \<noteq> []" by (simp add: spells_def)
    with last_word tokens_blanks [of b w "[]"] show ?case
      by (cases "b = []") (simp_all add: tokens_blanks [OF last_word(1)] tokens_spelled [OF last_word(2)] del: append_Nil2)
  next
    case (next_word a w t b ws s)
    then have "w \<noteq> []" by (simp add: spells_def)
    with next_word show ?case
      by (simp add: tokens_blanks [OF next_word(1)] tokens_spelled [OF next_word(2)] tokens_blanks [OF next_word(3)])
  qed
  then show ?thesis by (simp add: tokenize_def)
qed

section \<open>What is trimmed is white\<close>

lemma strip_first_white: "strip_first es s = Some r \<Longrightarrow> \<exists>p. s = p @ r \<and> set p \<subseteq> \<Union>(set ` set es)"
  by (induction es s rule: strip_first.induct) (auto simp: strip_prefix_Some split: if_splits option.splits)

lemma trim_with_white: "\<exists>p. s = p @ trim_with es s \<and> set p \<subseteq> \<Union>(set ` set es)"
proof (induction es s rule: trim_with.induct)
  case (1 es s)
  show ?case
  proof (cases "strip_first es s")
    case None
    then show ?thesis by (simp add: trim_with_fixed)
  next
    case (Some r)
    from "1.IH" [OF Some] obtain p where p: "r = p @ trim_with es r" "set p \<subseteq> \<Union>(set ` set es)" by blast
    from strip_first_white [OF Some] obtain q where q: "s = q @ r" "set q \<subseteq> \<Union>(set ` set es)" by blast
    have "trim_with es s = trim_with es r" by (subst trim_with.simps) (simp add: Some)
    with p(1) q(1) have "s = (q @ p) @ trim_with es s" by (metis append.assoc)
    moreover have "set (q @ p) \<subseteq> \<Union>(set ` set es)" using p(2) q(2) by simp
    ultimately show ?thesis by blast
  qed
qed

lemma trim_keeps:
  assumes "c \<in> set s" "\<forall>e \<in> set white_encodings. c \<notin> set e"
  shows "trim s \<noteq> []"
proof -
  define t where "t = trim_with white_encodings s"
  obtain p where p: "s = p @ t" "set p \<subseteq> \<Union>(set ` set white_encodings)" unfolding t_def using trim_with_white [of s white_encodings] by metis
  define u where "u = trim_with (map rev white_encodings) (rev t)"
  obtain q where q: "rev t = q @ u" "set q \<subseteq> \<Union>(set ` set (map rev white_encodings))" unfolding u_def using trim_with_white [of "rev t" "map rev white_encodings"] by metis
  have "c \<notin> set p" "c \<notin> set q" using p(2) q(2) assms(2) by auto
  then have "c \<in> set t" using assms(1) p(1) by simp
  then have "c \<in> set (rev t)" by simp
  with q(1) \<open>c \<notin> set q\<close> have "c \<in> set u" by simp
  moreover have "trim s = rev u" by (simp add: trim_def u_def t_def)
  ultimately show ?thesis by auto
qed

lemma word_kept: "spells w t \<Longrightarrow> set w \<subseteq> set t"
  by (auto simp: spells_def shell_quote_def quote_char_def split: if_splits)

lemma command_kept: "command_text ws s \<Longrightarrow> w \<in> set ws \<Longrightarrow> set w \<subseteq> set s"
  by (induction rule: command_text.induct) (auto dest!: word_kept)

section \<open>The guard finds the program\<close>

lemma called_base:
  assumes "called p name" "name \<noteq> []" "CHR ''/'' \<notin> set name" "name \<notin> {''.'', ''..''}"
  shows "base_name p = name"
proof -
  have f: "file_name (cs @ [Normal name]) = Some name" for cs by (simp add: file_name_def)
  from assms(1) consider "p = name" | dir where "p = dir @ CHR ''/'' # name" by (auto simp: called_def)
  then have "\<exists>cs. components p = cs @ [Normal name]"
  proof cases
    case 1
    with assms show ?thesis by (auto simp: components_def Let_def starts_with_iff)
  next
    case 2
    with assms show ?thesis by (simp add: components_def Let_def split_on_append)
  qed
  then show ?thesis using f by (auto simp: base_name_def)
qed

definition known_names :: "string set" where
  "known_names = insert ''agentstack'' (insert ''xargs'' (wrapper_names \<union> shell_names))"

lemma called_known: "called p name \<Longrightarrow> name \<in> known_names \<Longrightarrow> base_name p = name"
  by (rule called_base) (auto simp: known_names_def wrapper_names_def shell_names_def)

lemma wrapper_names_eq: "wrapper_names = set WRAPPERS" "shell_names = set SHELLS"
  by (auto simp: wrapper_names_def WRAPPERS_def shell_names_def SHELLS_def)

lemma program_not_wrapper: "program \<in> insert ''agentstack'' shell_names \<Longrightarrow> program \<notin> set WRAPPERS \<and> program \<noteq> ''xargs''"
  by (auto simp: shell_names_def WRAPPERS_def)

text \<open>What follows the options of a wrapper is neither an option nor an assignment.\<close>

lemma invokes_head: "invokes ws program args \<Longrightarrow> ws \<noteq> [] \<and> CHR ''='' \<notin> set (hd ws) \<and> \<not> is_flag (hd ws)"
  by (cases rule: invokes.cases) (auto simp: called_def is_flag_def)

lemma dropWhile_options: "\<forall>x \<in> set opts. P x \<Longrightarrow> ws \<noteq> [] \<Longrightarrow> \<not> P (hd ws) \<Longrightarrow> dropWhile P (opts @ ws) = ws"
  by (cases ws) (auto simp: dropWhile_append2)

lemma strip_from_invokes:
  "invokes ws program args \<Longrightarrow> program \<in> insert ''agentstack'' shell_names \<Longrightarrow> \<exists>y. strip_from first x ws = (Some program, args, y)"
proof (induction arbitrary: first x rule: invokes.induct)
  case (itself p program args)
  then have "base_name p = program" by (intro called_known) (auto simp: known_names_def)
  moreover have "CHR ''='' \<notin> set p" using itself by (simp add: called_def)
  ultimately show ?case using program_not_wrapper [OF itself(2)] by simp
next
  case (wrapped w name opts ws program args)
  have b: "base_name w = name" using wrapped by (intro called_known) (auto simp: known_names_def)
  have "dropWhile (\<lambda>x. CHR ''='' \<in> set x \<or> is_flag x) (opts @ ws) = ws"
    using wrapped.hyps(3) invokes_head [OF wrapped.hyps(4)] by (intro dropWhile_options) (auto simp: is_flag_def)
  moreover have "CHR ''='' \<notin> set w" using wrapped by (simp add: called_def)
  ultimately show ?case using b wrapped by (simp add: wrapper_names_eq)
next
  case (from_xargs w opts ws program args)
  have b: "base_name w = ''xargs''" using from_xargs by (intro called_known) (auto simp: known_names_def)
  have "dropWhile is_flag (opts @ ws) = ws"
    using from_xargs.hyps(2) invokes_head [OF from_xargs.hyps(3)] by (intro dropWhile_options) (auto simp: is_flag_def)
  moreover have "CHR ''='' \<notin> set w" using from_xargs by (simp add: called_def)
  moreover have "''xargs'' \<notin> set WRAPPERS" by (simp add: WRAPPERS_def)
  ultimately show ?case using b from_xargs by simp
qed

lemma strip_invoked:
  assumes "invoked ws program args" "program \<in> insert ''agentstack'' shell_names"
  shows "\<exists>y. strip_wrappers ws = (Some program, args, y)"
  using assms(1) unfolding invoked_def
proof (elim disjE exE conjE)
  assume "invokes ws program args"
  from strip_from_invokes [OF this assms(2)] show ?thesis by (simp add: strip_wrappers_def)
next
  fix var val rest assume w: "ws = (var @ ''='' @ val) # rest" "var \<noteq> []" "\<not> starts_with var ''-''" "\<not> starts_with var ''/''"
    and i: "invokes rest program args"
  have "\<not> is_flag (var @ ''='' @ val)" "\<not> starts_with (var @ ''='' @ val) ''/''"
    using w(2-4) by (cases var; auto simp: is_flag_def starts_with_iff)+
  with strip_from_invokes [OF i assms(2)] show ?thesis by (simp add: strip_wrappers_def w(1))
qed

lemma invokes_word: "invokes ws program args \<Longrightarrow> \<exists>p \<in> set ws. set program \<subseteq> set p"
  by (induction rule: invokes.induct) (auto simp: called_def)

lemma command_segment:
  assumes "stands_in s line" "command_text ws s" "invoked ws program args" "program \<in> insert ''agentstack'' shell_names"
  shows "s \<in> set (split_segments line) \<and> (\<exists>y. strip_wrappers (tokenize s) = (Some program, args, y))"
proof -
  have "\<exists>p \<in> set ws. set program \<subseteq> set p"
    using assms(3) unfolding invoked_def by (elim disjE exE conjE) (auto dest!: invokes_word)
  then have "CHR ''s'' \<in> set s"
    using command_kept [OF assms(2)] assms(4) by (fastforce simp: shell_names_def)
  moreover have "list_all (\<lambda>e. CHR ''s'' \<notin> set e) white_encodings" by code_simp
  ultimately have "trim s \<noteq> []" by (intro trim_keeps) (auto simp: list_all_iff)
  then show ?thesis
    using stands_segment [OF assms(1,2)] strip_invoked [OF assms(3,4)] by (simp add: split_segments_def tokens_command [OF assms(2)])
qed

lemma script_found:
  assumes "CHR ''c'' \<in> set letters" "\<not> starts_with letters ''-''" "\<forall>x \<in> set opts. x \<noteq> ''--'' \<and> CHR ''c'' \<notin> set x"
  shows "shell_script_arg (opts @ (''-'' @ letters) # script # rest) = Some script"
  using assms(3)
proof (induction opts)
  case Nil
  have "is_short_flag (''-'' @ letters)" "''-'' @ letters \<noteq> ''--''"
    using assms(1,2) by (auto simp: is_short_flag_def starts_with_iff)
  with assms(1) show ?case by simp
qed simp

lemma line_runs_found: "line_runs n line args \<Longrightarrow> runs n line ''agentstack'' args"
proof (induction rule: line_runs.induct)
  case (here s line ws args n)
  then show ?case using command_segment [OF here(1-3)] by (blast intro: runs_segment)
next
  case (in_shell s line ws shell opts letters script rest n args)
  have sh: "shell \<in> insert ''agentstack'' shell_names" using in_shell.hyps(4) by simp
  obtain y where "s \<in> set (split_segments line)"
    "strip_wrappers (tokenize s) = (Some shell, opts @ (''-'' @ letters) # script # rest, y)"
    using command_segment [OF in_shell.hyps(1-3) sh] by blast
  then show ?case
    using script_found [OF in_shell.hyps(5-7)] in_shell.hyps(4) in_shell.IH by (intro runs_nested) (simp_all add: wrapper_names_eq)
qed

text \<open>C20.
  An agent's shell grants no consent: a command line of the grammar above that runs agentstack, by name or path, in any
  of its commands, each word bare or wholly in single or double quotes, behind one assignment and any wrappers with
  their flags, and up to three nested shells deep, with \<open>trust\<close> (without \<open>--preview\<close> or \<open>--list\<close>), \<open>yes\<close>, or \<open>init\<close> or
  \<open>apply\<close> with \<open>--yes\<close>, past any flags and in both namespaces, is refused. Lines outside the grammar (backslashes,
  subshells in plain parentheses, a second assignment, a wrapper option with its value in a word of its own) are not
  covered, and the guard lets some of them pass.\<close>

theorem guard_no_consent:
  assumes "line_runs 3 command args" "consents args"
  shows "is_deny (check_bash canonicalize ctx command)"
proof (rule ccontr)
  assume "\<not> is_deny (check_bash canonicalize ctx command)"
  then have "check_bash_depth 3 canonicalize ctx command = Allow"
    by (simp add: is_deny_iff check_bash_def MAX_SHELL_DEPTH_def)
  from runs_checked [OF line_runs_found [OF assms(1)] this] have "check_agentstack args = Allow" by (auto simp: check_program_def)
  with assms(2) show False
    by (auto simp: check_agentstack_def refuse_consent_def consents_def dest!: verb_of_found split: if_splits)
qed

lemma stands_between:
  "balanced p \<Longrightarrow> op \<in> set operators \<Longrightarrow> op' \<in> set operators \<Longrightarrow> stands_in s (p @ op @ s @ op' @ q)"
proof -
  assume "balanced p" "op \<in> set operators" "op' \<in> set operators"
  then have "\<exists>p' op'. p @ op = p' @ op' \<and> balanced p' \<and> op' \<in> set operators"
    "\<exists>o' q'. op' @ q = o' @ q' \<and> o' \<in> set ('')'' # operators)" by auto
  then show ?thesis unfolding stands_in_def by (intro exI [of _ "p @ op"] exI [of _ "op' @ q"]) simp
qed

lemma spells_bare: "w \<noteq> [] \<Longrightarrow> list_all is_bare w \<Longrightarrow> spells w w"
  using bare_char by (auto simp: spells_def shell_quote_def list_all_iff intro: utf8_valid_ascii)

lemma one_space: "blanks []" "blanks '' ''"
  by (simp_all add: blanks_def)

lemma command_bare:
  "list_all (\<lambda>w. w \<noteq> [] \<and> list_all is_bare w) (w # ws) \<Longrightarrow> command_text (w # ws) (join_with '' '' (w # ws))"
proof (induction ws arbitrary: w)
  case Nil
  with last_word [OF one_space(1) spells_bare one_space(1), of w] show ?case by (simp add: join_with_def)
next
  case (Cons v ws)
  from Cons have "command_text (v # ws) (join_with '' '' (v # ws))" by simp
  from next_word [OF one_space(1) spells_bare one_space(2) _ this, of w] Cons.prems show ?case by (simp add: join_with_def)
qed

theorem guard_no_consent_witness:
  "is_deny (check_bash (\<lambda>_. None) sample_guard
     (''ls; A=1 sudo -E bash -lc '' @ dq @ ''agentstack more --manifest-dir d yes'' @ dq @ ''&& ls''))"
proof -
  let ?args = "[''more'', ''--manifest-dir'', ''d'', ''yes'']"
  let ?script = "''agentstack more --manifest-dir d yes''"
  let ?s = "'' A=1 sudo -E bash -lc '' @ dq @ ?script @ dq"
  have a: "consents ?args" unfolding consents_def
    by (intro disjI1 namespace directory verb) simp_all
  have "list_all (\<lambda>w. w \<noteq> [] \<and> list_all is_bare w) (''agentstack'' # ?args)" by code_simp
  from command_bare [OF this] have "command_text (''agentstack'' # ?args) ?script" by (simp add: join_with_def)
  moreover have "stands_in ?script ?script" unfolding stands_in_def by (intro exI [of _ "[]"]) simp
  moreover have "invoked (''agentstack'' # ?args) ''agentstack'' ?args"
    unfolding invoked_def by (intro disjI1 itself) (simp add: called_def starts_with_iff)
  ultimately have inner: "line_runs 2 ?script ?args" by (intro here)
  have b: "spells w w" if "w \<in> {''A=1'', ''sudo'', ''-E'', ''bash'', ''-lc''}" for w
  proof -
    have "list_all (\<lambda>w. w \<noteq> [] \<and> list_all is_bare w) [''A=1'', ''sudo'', ''-E'', ''bash'', ''-lc'']" by code_simp
    with that show ?thesis by (auto simp: list_all_iff intro!: spells_bare)
  qed
  have v: "utf8_valid ?script" by code_simp
  then have q: "spells ?script (dq @ ?script @ dq)" by (simp add: spells_def dq_def)
  have "command_text [''A=1'', ''sudo'', ''-E'', ''bash'', ''-lc'', ?script]
      ('' '' @ ''A=1'' @ '' '' @ [] @ ''sudo'' @ '' '' @ [] @ ''-E'' @ '' '' @ [] @ ''bash'' @ '' '' @ [] @ ''-lc'' @ '' '' @ [] @ (dq @ ?script @ dq) @ [])"
    by (intro next_word last_word b q one_space) simp_all
  then have c: "command_text [''A=1'', ''sudo'', ''-E'', ''bash'', ''-lc'', ?script] ?s" by simp
  have i: "invoked [''A=1'', ''sudo'', ''-E'', ''bash'', ''-lc'', ?script] ''bash'' ([] @ (''-'' @ ''lc'') # ?script # [])"
  proof -
    have "invokes [''bash'', ''-lc'', ?script] ''bash'' [''-lc'', ?script]" by (rule itself) (simp add: called_def starts_with_iff)
    from wrapped [of "''sudo''" "''sudo''" "[''-E'']", OF _ _ _ this]
    have "invokes [''sudo'', ''-E'', ''bash'', ''-lc'', ?script] ''bash'' [''-lc'', ?script]"
      by (simp add: called_def starts_with_iff wrapper_names_def)
    then show ?thesis unfolding invoked_def
      by (intro disjI2 exI [of _ "''A''"] exI [of _ "''1''"]) (simp add: starts_with_iff)
  qed
  have "balanced ''ls''" by (intro bal_char bal_Nil) simp_all
  then have st: "stands_in ?s (''ls'' @ '';'' @ ?s @ ''&&'' @ '' ls'')"
    by (rule stands_between) (simp_all add: operators_def)
  have "line_runs (Suc 2) (''ls'' @ '';'' @ ?s @ ''&&'' @ '' ls'') ?args"
    by (rule in_shell [OF st c i _ _ _ _ inner]) (simp_all add: shell_names_def starts_with_iff)
  then have "line_runs 3 (''ls; A=1 sudo -E bash -lc '' @ dq @ ?script @ dq @ ''&& ls'') ?args" by (simp add: numeral_eq_Suc)
  from guard_no_consent [OF this a] show ?thesis .
qed

end
