(* ===== verification/Guard_Protocol.thy ===== *)
theory Guard_Protocol
  imports Guard_Shell Manifest
begin

text \<open>
  The protocols of the guard (crates/cli/src/guard.rs): from the payload of each agent CLI's hook to an event,
  the decision of an event, and the answer in the dialect of the CLI. The JSON text of a value is a parameter.
\<close>

section \<open>Payload fields\<close>

fun json_get :: "json \<Rightarrow> string \<Rightarrow> json option" where
  "json_get (JObject m) k = map_of m k"
| "json_get _ k = None"

fun as_str :: "json \<Rightarrow> string option" where
  "as_str (JString s) = Some s"
| "as_str _ = None"

definition str_at :: "json \<Rightarrow> string \<Rightarrow> string option" where
  "str_at v k = Option.bind (json_get v k) as_str"

text \<open>
  \<open>char::to_lowercase\<close> as far as a comparison with ASCII text can tell: besides the ASCII letters only the Kelvin
  sign (U+212A) and the dotted capital I (U+0130) lower to text with an ASCII letter.
\<close>

definition lower_char :: "string \<Rightarrow> string" where
  "lower_char c =
     (if c = [CHR 0xE2, CHR 0x84, CHR 0xAA] then ''k''
      else if c = [CHR 0xC4, CHR 0xB0] then [CHR ''i'', CHR 0xCC, CHR 0x87]
      else map ascii_lower c)"

definition normalize_key :: "string \<Rightarrow> string" where
  "normalize_key key = concat (map lower_char (filter (\<lambda>c. c \<noteq> ''_'' \<and> c \<noteq> ''-'') (utf8_chars key)))"

text \<open>A command line, or argv joined into one; nested arrays are flattened to a depth.\<close>

function collect_argv_words :: "nat \<Rightarrow> json list \<Rightarrow> string list" where
  "collect_argv_words depth [] = []"
| "collect_argv_words depth (item # rest) =
     (if 4 < depth then []
      else (case item of
              JString s \<Rightarrow> [shell_quote s]
            | JArray nested \<Rightarrow> collect_argv_words (depth + 1) nested
            | _ \<Rightarrow> []) @ collect_argv_words depth rest)"
  by pat_completeness auto
termination
  by (relation "measure (\<lambda>(_, items). size_list size items)") auto

definition argv_line :: "json list \<Rightarrow> string option" where
  "argv_line argv =
     (let ws = collect_argv_words 0 argv in if ws = [] then None else Some (join_with '' '' ws))"

definition command_line_at :: "json \<Rightarrow> string \<Rightarrow> string option" where
  "command_line_at v key =
     (case json_get v key of
        Some (JString s) \<Rightarrow> Some s
      | Some (JArray argv) \<Rightarrow> argv_line argv
      | _ \<Rightarrow> None)"

definition path_from_input :: "json \<Rightarrow> string option" where
  "path_from_input input =
     (case input of
        JObject obj \<Rightarrow>
          (case List.map_filter (\<lambda>want. List.find (\<lambda>(k, v). normalize_key k = want \<and> as_str v \<noteq> None) obj)
                  [''filepath'', ''path'', ''notebookpath'', ''targetfile''] of
             (_, v) # _ \<Rightarrow> as_str v
           | [] \<Rightarrow> None)
      | _ \<Rightarrow> None)"

section \<open>Patch envelopes\<close>

definition PATCH_BEGIN :: string where "PATCH_BEGIN = ''*** Begin Patch''"
definition PATCH_END :: string where "PATCH_END = ''*** End Patch''"

definition PATCH_TARGET_MARKERS :: "string list" where
  "PATCH_TARGET_MARKERS = [''*** Add File: '', ''*** Update File: '', ''*** Delete File: '', ''*** Move to: '']"

definition MAX_PATCH_LINES :: nat where "MAX_PATCH_LINES = 20000"
definition MAX_PATCH_TARGETS :: nat where "MAX_PATCH_TARGETS = 500"

definition is_patch_envelope :: "string \<Rightarrow> bool" where
  "is_patch_envelope txt \<longleftrightarrow>
     (case filter (\<lambda>l. l \<noteq> []) (map trim_end (str_lines txt)) of
        [] \<Rightarrow> False
      | first # others \<Rightarrow> first = PATCH_BEGIN \<and> last (first # others) = PATCH_END)"

definition patch_envelope :: "json \<Rightarrow> string option" where
  "patch_envelope input =
     (let envelope = (\<lambda>v. case as_str v of Some s \<Rightarrow> if is_patch_envelope s then Some s else None | None \<Rightarrow> None)
      in case input of
           JString _ \<Rightarrow> envelope input
         | JObject obj \<Rightarrow> (case List.map_filter envelope (map snd obj) of s # _ \<Rightarrow> Some s | [] \<Rightarrow> None)
         | _ \<Rightarrow> None)"

text \<open>The path a line names: the first marker that is a prefix, with a path that is not blank.\<close>

definition patch_target :: "string \<Rightarrow> string option" where
  "patch_target line =
     (case List.map_filter (\<lambda>m. strip_prefix m (trim_end line)) PATCH_TARGET_MARKERS of
        p # _ \<Rightarrow> if trim p = [] then None else Some (trim p)
      | [] \<Rightarrow> None)"

text \<open>\<open>n\<close> lines have been read and \<open>out\<close> found; too many lines give nothing, and enough targets end the search.\<close>

fun patch_from :: "nat \<Rightarrow> string list \<Rightarrow> string list \<Rightarrow> string list" where
  "patch_from n out [] = out"
| "patch_from n out (line # lines) =
     (if MAX_PATCH_LINES \<le> n then []
      else case patch_target line of
        None \<Rightarrow> patch_from (n + 1) out lines
      | Some p \<Rightarrow>
          (let out = (if p \<in> set out then out else out @ [p]) in
           if MAX_PATCH_TARGETS \<le> length out then out else patch_from (n + 1) out lines))"

definition patch_targets :: "string \<Rightarrow> string list" where
  "patch_targets txt = patch_from 0 [] (str_lines txt)"

section \<open>Events\<close>

datatype guard_event =
    Bash string
  | FileRead string
  | FileWrite string
  | FileWrites "string list"
  | Other

definition WRITERS :: "string list" where
  "WRITERS = [''Write'', ''Edit'', ''MultiEdit'', ''NotebookEdit'', ''write_file'', ''replace'', ''edit_file'', ''fs_write'',
     ''create_file'', ''str_replace_editor'', ''replace_string_in_file'', ''multi_replace_string_in_file'', ''apply_patch'']"

definition is_known_writer :: "string \<Rightarrow> bool" where
  "is_known_writer tool \<longleftrightarrow> list_ex (eq_ignore_ascii_case tool) WRITERS"

definition EDIT_SHAPE :: "string list" where
  "EDIT_SHAPE = [''oldstring'', ''oldstr'', ''oldtext'', ''newstring'', ''newstr'', ''newtext'', ''newcontent'', ''replacement'',
     ''replacements'', ''patch'', ''diff'', ''edits'', ''insertline'']"

definition WRITE_VERBS :: "string list" where
  "WRITE_VERBS = [''write'', ''append'', ''overwrite'', ''create'', ''edit'', ''insert'', ''strreplace'', ''modify'', ''patch'']"

definition SEARCH_MARKERS :: "string list" where
  "SEARCH_MARKERS = [''pattern'', ''query'', ''regex'', ''search'', ''outputmode'']"

definition BODY_KEYS :: "string list" where
  "BODY_KEYS = [''text'', ''filetext'', ''sourcetext'', ''filecontent'']"

definition write_mode :: "string \<times> json \<Rightarrow> bool" where
  "write_mode kv =
     (let key = normalize_key (fst kv) in
      if key \<in> {''mode'', ''operation'', ''action'', ''editmode''}
      then (case as_str (snd kv) of Some v \<Rightarrow> normalize_key v \<in> set WRITE_VERBS | None \<Rightarrow> False)
      else key \<in> {''append'', ''overwrite'', ''create'', ''truncate''} \<and> snd kv = JBool True)"

definition body_field :: "string \<times> json \<Rightarrow> bool" where
  "body_field kv =
     (let key = normalize_key (fst kv) in
      as_str (snd kv) \<noteq> None \<and> (ends_with key ''content'' \<or> ends_with key ''contents'' \<or> key \<in> set BODY_KEYS))"

definition payload_is_write :: "json \<Rightarrow> bool" where
  "payload_is_write input =
     (case input of
        JObject obj \<Rightarrow>
          (let keys = map (\<lambda>kv. normalize_key (fst kv)) obj in
           if list_ex (\<lambda>k. k \<in> set keys) EDIT_SHAPE then True
           else if list_ex (\<lambda>k. starts_with k ''replacement'') keys then True
           else if list_ex write_mode obj then True
           else if list_ex (\<lambda>k. k \<in> set keys) SEARCH_MARKERS then False
           else list_ex body_field obj)
      | _ \<Rightarrow> False)"

definition classify_tool :: "string \<Rightarrow> json \<Rightarrow> guard_event" where
  "classify_tool tool input =
     (let path = path_from_input input;
          verb = map_option normalize_key (str_at input ''command'')
      in case path of
           Some p \<Rightarrow>
             (if verb \<in> Some ` {''create'', ''strreplace'', ''insert'', ''undoedit'', ''append'', ''write''} then FileWrite p
              else if verb \<in> Some ` {''view'', ''read''} then FileRead p
              else case command_line_at input ''command'' of
                Some command \<Rightarrow> Bash command
              | None \<Rightarrow> if is_known_writer tool \<or> payload_is_write input then FileWrite p else FileRead p)
         | None \<Rightarrow>
             (case patch_envelope input of
                Some txt \<Rightarrow> FileWrites (patch_targets txt)
              | None \<Rightarrow>
                  if is_known_writer tool then FileWrites []
                  else case command_line_at input ''command'' of Some command \<Rightarrow> Bash command | None \<Rightarrow> Other))"

definition check_event :: "(location \<Rightarrow> location option) \<Rightarrow> guard_context \<Rightarrow> guard_event \<Rightarrow> guard_decision" where
  "check_event canonicalize ctx event =
     (case event of
        Other \<Rightarrow> Allow
      | FileRead path \<Rightarrow> deny_glob_check canonicalize ctx ReadAccess path
      | FileWrite path \<Rightarrow> write_target_check canonicalize ctx path
      | FileWrites paths \<Rightarrow> check_write_set canonicalize ctx paths
      | Bash command \<Rightarrow> check_bash canonicalize ctx command)"

section \<open>The dialects\<close>

datatype protocol = Claude | Codex | Gemini | Cursor | Copilot | Antigravity | Windsurf

definition protocol_parse :: "string \<Rightarrow> protocol option" where
  "protocol_parse name =
     map_of [(''claude'', Claude), (''codex'', Codex), (''gemini'', Gemini), (''cursor'', Cursor),
       (''copilot'', Copilot), (''antigravity'', Antigravity), (''windsurf'', Windsurf)] name"

definition protocol_detect :: "json \<Rightarrow> protocol" where
  "protocol_detect payload =
     (if json_get payload ''toolCall'' \<noteq> None then Antigravity
      else if json_get payload ''tool_info'' \<noteq> None \<or> json_get payload ''agent_action_name'' \<noteq> None then Windsurf
      else if json_get payload ''toolArgs'' \<noteq> None then Copilot
      else if json_get payload ''command'' \<noteq> None \<and> json_get payload ''tool_name'' = None then Cursor
      else case str_at payload ''turn_id'' of
        Some t \<Rightarrow> if t \<noteq> [] then Codex else Claude
      | None \<Rightarrow> Claude)"

definition unwrap_or :: "'a \<Rightarrow> 'a option \<Rightarrow> 'a" where
  "unwrap_or d x = (case x of Some y \<Rightarrow> y | None \<Rightarrow> d)"

fun parse_event :: "protocol \<Rightarrow> json \<Rightarrow> (guard_event \<times> string option) option" where
  "parse_event Copilot payload =
     Some (classify_tool (unwrap_or [] (str_at payload ''toolName'')) (unwrap_or JNull (json_get payload ''toolArgs'')),
           str_at payload ''cwd'')"
| "parse_event Cursor payload =
     (let cwd = str_at payload ''cwd'' in
      case command_line_at payload ''command'' of
        Some command \<Rightarrow> Some (Bash command, cwd)
      | None \<Rightarrow> (case path_from_input payload of
            Some path \<Rightarrow> Some (FileRead path, cwd)
          | None \<Rightarrow> Some (Other, cwd)))"
| "parse_event Antigravity payload =
     (case json_get payload ''toolCall'' of
        None \<Rightarrow> None
      | Some call \<Rightarrow>
          (let args = unwrap_or JNull (json_get call ''args''); cwd = str_at args ''Cwd'' in
           case command_line_at args ''CommandLine'' of
             Some command \<Rightarrow> Some (Bash command, cwd)
           | None \<Rightarrow> Some (classify_tool (unwrap_or [] (str_at call ''name'')) args, cwd)))"
| "parse_event Windsurf payload =
     (let info = unwrap_or JNull (json_get payload ''tool_info''); cwd = str_at info ''cwd'' in
      case command_line_at info ''command_line'' of
        Some command \<Rightarrow> Some (Bash command, cwd)
      | None \<Rightarrow>
          (case path_from_input info of
             Some path \<Rightarrow>
               (if find_sub ''write'' (unwrap_or [] (str_at payload ''agent_action_name'')) \<noteq> None \<or> payload_is_write info
                then Some (FileWrite path, cwd) else Some (FileRead path, cwd))
           | None \<Rightarrow> Some (Other, cwd)))"
| "parse_event _ payload =
     Some (classify_tool (unwrap_or [] (or_else (str_at payload ''tool_name'') (str_at payload ''toolName'')))
             (unwrap_or JNull (or_else (json_get payload ''tool_input'') (json_get payload ''toolInput''))),
           str_at payload ''cwd'')"

text \<open>What the hook prints on each stream, and its exit code.\<close>

definition decision_reason :: "guard_decision \<Rightarrow> string option" where
  "decision_reason d = (case d of Allow \<Rightarrow> None | Deny r \<Rightarrow> Some (''agentstack guard blocked this: '' @ r))"

definition protocol_respond ::
  "(json \<Rightarrow> string) \<Rightarrow> protocol \<Rightarrow> guard_decision \<Rightarrow> string option \<times> string option \<times> int" where
  "protocol_respond to_text p d =
     (case decision_reason d of
        None \<Rightarrow>
          (if p = Cursor then (Some (to_text (JObject [(''permission'', JString ''allow'')])), None, 0)
           else if p = Copilot then (Some (to_text (JObject [(''permissionDecision'', JString ''allow'')])), None, 0)
           else (None, None, 0))
      | Some r \<Rightarrow>
          (case p of
             Windsurf \<Rightarrow> (None, Some r, 2)
           | Gemini \<Rightarrow>
               (Some (to_text (JObject [(''decision'', JString ''deny''), (''reason'', JString r), (''systemMessage'', JString r)])), None, 0)
           | Cursor \<Rightarrow>
               (Some (to_text (JObject [(''permission'', JString ''deny''), (''user_message'', JString r), (''agent_message'', JString r)])), None, 0)
           | Copilot \<Rightarrow>
               (Some (to_text (JObject [(''permissionDecision'', JString ''deny''), (''permissionDecisionReason'', JString r)])), None, 0)
           | Antigravity \<Rightarrow>
               (Some (to_text (JObject [(''decision'', JString ''block''), (''reason'', JString r)])), None, 0)
           | _ \<Rightarrow>
               (Some (to_text (JObject [(''hookSpecificOutput'', JObject [(''hookEventName'', JString ''PreToolUse''),
                  (''permissionDecision'', JString ''deny''), (''permissionDecisionReason'', JString r)])])), None, 0)))"

section \<open>What the analysis sees of an argument vector\<close>

lemma collect_strings: "collect_argv_words 0 (map JString ws) = map shell_quote ws"
  by (induction ws) simp_all

text \<open>C21.
  Joining an argument vector into a command line invents nothing and loses only empty words: valid words give one
  line of one segment, whose tokens are the non-empty words again, whatever operators, quotes or white space they
  hold. An empty word is lost, so a program after one is read in its place.\<close>

theorem argv_round_trip:
  assumes "ws \<noteq> []" "\<forall>w \<in> set ws. utf8_valid w"
  shows "\<exists>line. argv_line (map JString ws) = Some line \<and> split_segments line = [line] \<and>
    tokenize line = filter (\<lambda>w. w \<noteq> []) ws"
  using joined_analysis [OF assms] assms(1) by (simp add: argv_line_def collect_strings Let_def)

definition sample_argv :: "string list" where
  "sample_argv = [''bash'', [], ''rm -rf /; echo $(x) '' @ [CHR 0x27], [CHR 0xC3, CHR 0xA9, CHR 0x0A]]"

theorem argv_round_trip_witness:
  "\<exists>line. argv_line (map JString sample_argv) = Some line \<and> split_segments line = [line] \<and>
     tokenize line = filter (\<lambda>w. w \<noteq> []) sample_argv"
proof (rule argv_round_trip)
  show "\<forall>w \<in> set sample_argv. utf8_valid w" by code_simp
qed (simp add: sample_argv_def)

text \<open>Quoting keeps a word one token, but the redirections are read off the tokens: a literal word that starts with
  \<open>>\<close> is still taken for one.\<close>

theorem argv_redirect_invented:
  "\<exists>line. argv_line [JString ''echo'', JString ''>/etc/x''] = Some line \<and> redirect_targets (tokenize line) = [''/etc/x'']"
proof -
  obtain line where "argv_line (map JString [''echo'', ''>/etc/x'']) = Some line" "tokenize line = [''echo'', ''>/etc/x'']"
  proof -
    have "\<forall>w \<in> set [''echo'', ''>/etc/x'']. utf8_valid w" by code_simp
    from joined_analysis [OF _ this] that show thesis by (simp add: argv_line_def Let_def)
  qed
  moreover have "redirect_targets [''echo'', ''>/etc/x''] = [''/etc/x'']" by code_simp
  ultimately show ?thesis by simp
qed

section \<open>Every target of a patch is judged, up to a bound\<close>

lemma str_lines_append:
  "str_lines (u @ newline @ v) = map strip_cr (split_on (CHR 0x0A) u) @ str_lines v"
  by (simp add: str_lines_def newline_def split_on_append butlast_append Let_def)

lemma patch_from_append:
  "length (patch_from n out us) = MAX_PATCH_TARGETS \<Longrightarrow> length out < MAX_PATCH_TARGETS \<Longrightarrow>
   patch_from n out (us @ vs) = patch_from n out us"
proof (induction us arbitrary: n out)
  case (Cons line us)
  show ?case
  proof (cases "patch_target line")
    case (Some p)
    define out' where "out' = (if p \<in> set out then out else out @ [p])"
    show ?thesis
      using Cons.prems Cons.IH [of "n + 1" out'] Some
      by (cases "MAX_PATCH_LINES \<le> n"; cases "MAX_PATCH_TARGETS \<le> length out'") (simp_all add: Let_def flip: out'_def)
  qed (use Cons in auto)
qed simp

lemma patch_from_exact:
  assumes "n + length ls \<le> MAX_PATCH_LINES" "distinct out"
    and "card (set out \<union> set (List.map_filter patch_target ls)) < MAX_PATCH_TARGETS"
  shows "set (patch_from n out ls) = set out \<union> set (List.map_filter patch_target ls) \<and> distinct (patch_from n out ls)"
  using assms
proof (induction ls arbitrary: n out)
  case (Cons line ls)
  show ?case
  proof (cases "patch_target line")
    case None
    with Cons show ?thesis by (simp add: map_filter_simps)
  next
    case (Some p)
    define out' where "out' = (if p \<in> set out then out else out @ [p])"
    have u: "set out' \<union> set (List.map_filter patch_target ls) = set out \<union> set (List.map_filter patch_target (line # ls))"
      using Some by (auto simp: map_filter_simps out'_def)
    have d: "distinct out'" using Cons.prems(2) by (simp add: out'_def)
    have "length out' \<le> card (set out' \<union> set (List.map_filter patch_target ls))"
      unfolding distinct_card [OF d, symmetric] by (rule card_mono) auto
    then have "\<not> MAX_PATCH_TARGETS \<le> length out'" using Cons.prems(3) unfolding u by simp
    moreover have "\<not> MAX_PATCH_LINES \<le> n" using Cons.prems(1) by simp
    ultimately have "patch_from n out (line # ls) = patch_from (n + 1) out' ls"
      using Some by (simp add: Let_def flip: out'_def)
    moreover have "set (patch_from (n + 1) out' ls) = set out' \<union> set (List.map_filter patch_target ls) \<and>
        distinct (patch_from (n + 1) out' ls)"
      using Cons.prems(1,3) unfolding u [symmetric] by (intro Cons.IH d) simp_all
    ultimately show ?thesis unfolding u by simp
  qed
qed (simp add: map_filter_simps)

text \<open>C22.
  A patch that is allowed has had every file it names checked: within the two bounds, whatever line of the envelope
  names a target, to add, update, delete or move, a write to that target is itself allowed.\<close>

theorem patch_targets_judged:
  assumes "path_from_input input = None" "patch_envelope input = Some txt"
    and "check_event canonicalize ctx (classify_tool tool input) = Allow"
    and "length (str_lines txt) \<le> MAX_PATCH_LINES"
    and "card (set (List.map_filter patch_target (str_lines txt))) < MAX_PATCH_TARGETS"
    and "line \<in> set (str_lines txt)" "patch_target line = Some p"
  shows "write_target_check canonicalize ctx p = Allow"
proof -
  have "set (patch_targets txt) = set (List.map_filter patch_target (str_lines txt))"
    using patch_from_exact [of 0 "str_lines txt" "[]"] assms(4,5) by (simp add: patch_targets_def)
  moreover have "p \<in> set (List.map_filter patch_target (str_lines txt))"
    using assms(6,7) by (force simp: List.map_filter_def)
  ultimately have p: "p \<in> set (patch_targets txt)" by simp
  have "classify_tool tool input = FileWrites (patch_targets txt)" using assms(1,2) by (simp add: classify_tool_def)
  then have "check_write_set canonicalize ctx (patch_targets txt) = Allow"
    using assms(3) by (simp only: check_event_def guard_event.case)
  moreover have "patch_targets txt \<noteq> []" using p by auto
  ultimately show ?thesis using p by (simp only: check_write_set_def if_False check_all_Allow)
qed

definition sample_patch :: string where
  "sample_patch = join_with newline
     [''*** Begin Patch'', ''*** Update File: a.txt'', ''+*** Add File: /etc/x'', ''*** Move to: b.txt  '', ''*** End Patch'']"

definition sample_patch_input :: json where
  "sample_patch_input = JObject [(''input'', JString sample_patch)]"

lemma sample_patch_lines:
  "str_lines sample_patch =
     [''*** Begin Patch'', ''*** Update File: a.txt'', ''+*** Add File: /etc/x'', ''*** Move to: b.txt  '', ''*** End Patch'']"
  by code_simp

lemma sample_patch_found: "map patch_target (str_lines sample_patch) = [None, Some ''a.txt'', None, Some ''b.txt'', None]"
  unfolding sample_patch_lines by code_simp

theorem patch_targets_judged_witness:
  "write_target_check (\<lambda>_. None) sample_guard ''b.txt'' = Allow"
proof (rule patch_targets_judged)
  have f: "map patch_target (str_lines sample_patch) = [None, Some ''a.txt'', None, Some ''b.txt'', None]"
    by (rule sample_patch_found)
  show n: "path_from_input sample_patch_input = None" by code_simp
  show e: "patch_envelope sample_patch_input = Some sample_patch" by code_simp
  have "patch_targets sample_patch = [''a.txt'', ''b.txt'']"
    using f by (simp add: patch_targets_def sample_patch_lines MAX_PATCH_LINES_def MAX_PATCH_TARGETS_def)
  with n e have "classify_tool ''apply_patch'' sample_patch_input = FileWrites [''a.txt'', ''b.txt'']" by (simp add: classify_tool_def)
  moreover have "check_write_set (\<lambda>_. None) sample_guard [''a.txt'', ''b.txt''] = Allow" by code_simp
  ultimately show "check_event (\<lambda>_. None) sample_guard (classify_tool ''apply_patch'' sample_patch_input) = Allow"
    by (simp only: check_event_def guard_event.case)
  show "length (str_lines sample_patch) \<le> MAX_PATCH_LINES" by (simp add: sample_patch_lines MAX_PATCH_LINES_def)
  have "List.map_filter patch_target (str_lines sample_patch) = [''a.txt'', ''b.txt'']"
    using f by (simp add: sample_patch_lines map_filter_simps)
  then show "card (set (List.map_filter patch_target (str_lines sample_patch))) < MAX_PATCH_TARGETS"
    by (simp add: MAX_PATCH_TARGETS_def)
  show "''*** Move to: b.txt  '' \<in> set (str_lines sample_patch)" by (simp add: sample_patch_lines)
  show "patch_target ''*** Move to: b.txt  '' = Some ''b.txt''" using f by (simp add: sample_patch_lines)
qed

text \<open>C23.
  Past the bound nothing is judged: once a patch has named five hundred files, whatever more it names, the decision
  is the one for the first five hundred.\<close>

theorem patch_tail_unjudged:
  assumes "length (patch_targets (first @ newline)) = MAX_PATCH_TARGETS"
  shows "check_event canonicalize ctx (FileWrites (patch_targets (first @ newline @ others))) =
    check_event canonicalize ctx (FileWrites (patch_targets (first @ newline)))"
proof -
  have "str_lines (first @ newline) = map strip_cr (split_on (CHR 0x0A) first)"
    using str_lines_append [of first "[]"] by (simp add: str_lines_def)
  then have "patch_targets (first @ newline @ others) = patch_targets (first @ newline)"
    using assms patch_from_append [of 0 "[]"] by (simp add: patch_targets_def str_lines_append MAX_PATCH_TARGETS_def)
  then show ?thesis by simp
qed

lemma patch_from_distinct:
  assumes "n + length ls \<le> MAX_PATCH_LINES" "map patch_target ls = map Some ps" "distinct (out @ ps)"
    and "length out < MAX_PATCH_TARGETS" "length out + length ps \<le> MAX_PATCH_TARGETS"
  shows "patch_from n out ls = out @ ps"
  using assms
proof (induction ls arbitrary: n out ps)
  case (Cons line ls)
  then obtain p qs where ps: "ps = p # qs" "patch_target line = Some p" "map patch_target ls = map Some qs"
    by (cases ps) auto
  have o: "patch_from n out (line # ls) =
      (if MAX_PATCH_TARGETS \<le> length (out @ [p]) then out @ [p] else patch_from (n + 1) (out @ [p]) ls)"
    using Cons.prems(1,3) ps(1,2) by (simp add: Let_def)
  show ?case
  proof (cases "MAX_PATCH_TARGETS \<le> length (out @ [p])")
    case True
    then have "qs = []" using Cons.prems(5) ps(1) by (cases qs) simp_all
    with True o ps(1) show ?thesis by simp
  next
    case False
    then have "patch_from (n + 1) (out @ [p]) ls = (out @ [p]) @ qs"
      using Cons.prems ps by (intro Cons.IH) auto
    with False o ps(1) show ?thesis by simp
  qed
qed simp

lemma strip_cr_id: "last l \<noteq> CHR 0x0D \<Longrightarrow> strip_cr l = l"
  by (auto simp: strip_cr_def strip_suffix_Some split: option.splits)

lemma split_on_join:
  "\<forall>l \<in> set (l # ls). c \<notin> set l \<Longrightarrow> split_on c (join_with [c] (l # ls)) = l # ls"
proof (induction ls arbitrary: l)
  case (Cons k ks)
  have "join_with [c] (l # k # ks) = l @ c # join_with [c] (k # ks)" by (simp add: join_with_def)
  then show ?case using Cons by simp
qed (simp add: join_with_def)

definition sample_name :: "nat \<Rightarrow> string" where
  "sample_name i = replicate (Suc i) (CHR ''a'')"

definition sample_tail_patch :: string where
  "sample_tail_patch = join_with newline (map (\<lambda>i. ''*** Add File: '' @ sample_name i) [0..<500])"

lemma trim_end_plain: "plain_byte (last s) \<Longrightarrow> trim_end s = s"
proof (cases "s = []")
  case False
  assume p: "plain_byte (last s)"
  have "\<forall>e \<in> set white_encodings. e \<noteq> []" by code_simp
  then have "strip_first (map rev white_encodings) (last s # rev (butlast s)) = None"
    using p by (auto intro!: strip_first_hd simp: plain_byte_def hd_rev)
  moreover have "last s # rev (butlast s) = rev s" using False by (metis append_butlast_last_id rev.simps(2) rev_rev_ident)
  ultimately show ?thesis using False by (simp add: trim_end_def trim_with_fixed)
qed (simp add: trim_end_def, code_simp)

lemma sample_name_ends: "sample_name i \<noteq> [] \<and> hd (sample_name i) = CHR ''a'' \<and> last (sample_name i) = CHR ''a''"
  by (simp add: sample_name_def)

lemma sample_line_target: "patch_target (''*** Add File: '' @ sample_name i) = Some (sample_name i)"
proof -
  have a: "plain_byte (CHR ''a'')" by (rule plain_bytes) code_simp
  then have "trim_end (''*** Add File: '' @ sample_name i) = ''*** Add File: '' @ sample_name i" "trim (sample_name i) = sample_name i"
    using sample_name_ends [of i] by (simp_all add: trim_end_plain trim_plain)
  then show ?thesis using sample_name_ends [of i]
    by (simp add: patch_target_def PATCH_TARGET_MARKERS_def map_filter_simps)
qed

lemma sample_tail_targets: "patch_targets (sample_tail_patch @ newline) = map sample_name [0..<500]"
proof -
  let ?ls = "map (\<lambda>i. ''*** Add File: '' @ sample_name i) [0..<500]"
  have c: "\<forall>l \<in> set ?ls. CHR 0x0A \<notin> set l \<and> strip_cr l = l"
    by (auto simp: sample_name_def strip_cr_id)
  have "[0..<500::nat] \<noteq> []" by simp
  then have "?ls \<noteq> []" by blast
  then have "?ls = hd ?ls # tl ?ls" by (rule list.collapse [symmetric])
  then have "split_on (CHR 0x0A) sample_tail_patch = ?ls"
    using c split_on_join [of "hd ?ls" "tl ?ls" "CHR 0x0A"] unfolding sample_tail_patch_def newline_def by metis
  then have l: "str_lines (sample_tail_patch @ newline) = ?ls"
    using str_lines_append [of sample_tail_patch "[]"] c by (simp add: str_lines_def map_idI)
  have "inj sample_name" by (auto simp: inj_def sample_name_def dest: arg_cong [where f = length])
  then have "patch_from 0 [] ?ls = [] @ map sample_name [0..<500]"
    by (intro patch_from_distinct)
      (auto simp: MAX_PATCH_LINES_def MAX_PATCH_TARGETS_def sample_line_target [simplified] distinct_map intro: inj_on_subset)
  then show ?thesis by (simp add: patch_targets_def l)
qed

lemma sample_name_allowed: "write_target_check (\<lambda>_. None) sample_guard (sample_name i) = Allow"
proof -
  have n: "normalize (sample_name i) ''/w'' ''/h'' = components ''/w'' @ [Normal (sample_name i)]"
  proof -
    have "sample_name i \<notin> {[], ''.'', ''..''}" "CHR ''/'' \<notin> set (sample_name i)" by (auto simp: sample_name_def)
    from components_join [OF this(2,1), of "''/w''"]
    have j: "components (join_path ''/w'' (sample_name i)) = components ''/w'' @ [Normal (sample_name i)]" by simp
    have "expand_guard_home (sample_name i) ''/h'' = sample_name i" "\<not> starts_with (sample_name i) ''/''"
      by (simp_all add: expand_guard_home_def sample_name_def starts_with_iff)
    moreover have "foldl push_component [] (components ''/w'') = components ''/w''" by code_simp
    ultimately show ?thesis by (simp add: normalize_def j push_component_def)
  qed
  have "fs_deny_decision (gx_ruleset sample_guard) ps = Inr ()" for ps
    by (simp add: fs_deny_ok sample_guard_def) code_simp
  moreover have "resolve_existing_prefix (\<lambda>_. None) p = None" for p
    by (induction "\<lambda>_ :: location. None :: location option" p rule: resolve_existing_prefix.induct)
      (subst resolve_existing_prefix.simps, auto split: option.splits)
  moreover have "components ''/h/.agentstack'' = [RootDir, Normal ''h'', Normal ''.agentstack'']"
    "components ''/w'' = [RootDir, Normal ''w'']" by code_simp+
  ultimately show ?thesis
    by (simp add: write_target_Allow agentstack_home_check_def write_scope_check_def within_def n Let_def sample_guard_def)
qed

theorem patch_tail_unjudged_witness:
  "check_event (\<lambda>_. None) sample_guard
     (FileWrites (patch_targets (sample_tail_patch @ newline @ ''*** Delete File: ~/.agentstack/trust.json''))) = Allow \<and>
   is_deny (check_event (\<lambda>_. None) sample_guard (FileWrites (patch_targets ''*** Delete File: ~/.agentstack/trust.json'')))"
proof -
  have "length (patch_targets (sample_tail_patch @ newline)) = MAX_PATCH_TARGETS"
    by (simp add: sample_tail_targets MAX_PATCH_TARGETS_def)
  from patch_tail_unjudged [OF this] have "check_event (\<lambda>_. None) sample_guard
      (FileWrites (patch_targets (sample_tail_patch @ newline @ ''*** Delete File: ~/.agentstack/trust.json''))) =
    check_write_set (\<lambda>_. None) sample_guard (map sample_name [0..<500])"
    by (simp add: sample_tail_targets check_event_def)
  moreover have "check_write_set (\<lambda>_. None) sample_guard (map sample_name [0..<500]) = Allow"
    by (simp add: check_write_set_def sample_name_allowed)
  moreover have "patch_targets ''*** Delete File: ~/.agentstack/trust.json'' = [''~/.agentstack/trust.json'']"
  proof -
    have "str_lines ''*** Delete File: ~/.agentstack/trust.json'' = [''*** Delete File: ~/.agentstack/trust.json'']"
      "patch_target ''*** Delete File: ~/.agentstack/trust.json'' = Some ''~/.agentstack/trust.json''" by code_simp+
    then show ?thesis by (simp add: patch_targets_def MAX_PATCH_LINES_def MAX_PATCH_TARGETS_def)
  qed
  moreover have "is_deny (check_write_set (\<lambda>_. None) sample_guard [''~/.agentstack/trust.json''])" by code_simp
  ultimately show ?thesis by (simp add: check_event_def)
qed

section \<open>Assignments before a program\<close>

lemma redirects_none: "\<forall>w \<in> set ws. CHR ''>'' \<notin> set w \<Longrightarrow> redirects_from False ws = []"
proof (induction ws)
  case (Cons w ws)
  have n: "\<not> prefix (CHR ''>'' # q) (dropWhile is_ascii_digit w)" for q
    using Cons.prems by (auto simp: prefix_def dest!: arg_cong [where f = set] dest: set_dropWhileD)
  show ?case
    using Cons n [of "[]"] n [of "''>''"] by (auto simp: Let_def simp flip: strip_prefix_None)
qed simp

text \<open>
  Only one assignment before a program is skipped: after a second one the program is never looked at, so where no
  deny glob matches, any plain words behind it are allowed, though the same words behind one assignment are judged.\<close>

theorem second_assignment_unguarded:
  assumes "\<And>spellings. fs_deny_decision (gx_ruleset ctx) spellings = Inr ()"
    and "\<forall>w \<in> set ws. list_all is_bare w \<and> w \<noteq> []"
  shows "check_bash canonicalize ctx (join_with '' '' (''A=1'' # ''B=2'' # ws)) = Allow"
proof -
  let ?ws = "''A=1'' # ''B=2'' # ws"
  have b: "\<forall>w \<in> set ?ws. list_all is_bare w \<and> w \<noteq> []"
    using assms(2) by simp code_simp
  then have bare: "list_all is_bare w" "w \<noteq> []" if "w \<in> set ?ws" for w
    using that by blast+
  have "map shell_quote ?ws = ?ws" by (rule map_idI) (simp only: shell_quote_def bare simp_thms if_True not_False_eq_True)
  moreover have "\<forall>w \<in> set ?ws. utf8_valid w"
    using bare(1) bare_char by (fastforce simp: list_all_iff intro!: utf8_valid_ascii)
  moreover have "filter (\<lambda>w. w \<noteq> []) ?ws = ?ws" using bare(2) unfolding filter_id_conv by blast
  ultimately have a: "split_segments (join_with '' '' ?ws) = [join_with '' '' ?ws]" "tokenize (join_with '' '' ?ws) = ?ws"
    using joined_analysis [of ?ws] by simp_all
  have "CHR ''>'' \<notin> set w" if "w \<in> set ?ws" for w
  proof -
    have "\<not> is_bare (CHR ''>'')" by code_simp
    with bare(1) [OF that] show ?thesis by (auto simp: list_all_iff)
  qed
  then have r: "redirect_targets ?ws = []" unfolding redirect_targets_def by (intro redirects_none) blast
  have base: "base_name ''B=2'' = ''B=2''" "strip_wrappers ?ws = (Some ''B=2'', ws, False)"
  proof -
    show b: "base_name ''B=2'' = ''B=2''" by code_simp
    show "strip_wrappers ?ws = (Some ''B=2'', ws, False)"
      by (simp add: strip_wrappers_def b is_flag_def starts_with_iff WRAPPERS_def)
  qed
  have g: "deny_glob_check canonicalize ctx CommandAccess tok = Allow" for tok
    by (simp add: deny_glob_check_def assms(1))
  have "check_program canonicalize ctx ''B=2'' ws False = Allow" "check_interpreter_consent_store ctx ''B=2'' ws = Allow"
    "''B=2'' \<notin> set SHELLS"
    by (simp_all add: check_program_def check_interpreter_consent_store_def is_interpreter_def starts_with_iff
        INTERPRETERS_def SHELLS_def Let_def)
  then have "check_tokens canonicalize ctx inner ?ws = Allow" for inner
    by (simp only: check_tokens_def r base(2) g) (simp split: option.splits)
  then show ?thesis by (simp add: check_bash_def MAX_SHELL_DEPTH_def numeral_3_eq_3 a del: join_with_simps)
qed

theorem second_assignment_unguarded_witness:
  "check_bash (\<lambda>_. None) sample_guard ''A=1 B=2 rm -rf ~'' = Allow \<and> is_deny (check_bash (\<lambda>_. None) sample_guard ''A=1 rm -rf ~'')"
proof
  have "\<forall>w \<in> set [''rm'', ''-rf'', ''~'']. list_all is_bare w \<and> w \<noteq> []" by code_simp
  moreover have "fs_deny_decision (gx_ruleset sample_guard) spellings = Inr ()" for spellings
    by (simp add: fs_deny_ok sample_guard_def) code_simp
  ultimately have "check_bash (\<lambda>_. None) sample_guard (join_with '' '' [''A=1'', ''B=2'', ''rm'', ''-rf'', ''~'']) = Allow"
    by (intro second_assignment_unguarded) simp_all
  then show "check_bash (\<lambda>_. None) sample_guard ''A=1 B=2 rm -rf ~'' = Allow" by (simp add: join_with_def)
  show "is_deny (check_bash (\<lambda>_. None) sample_guard ''A=1 rm -rf ~'')" by code_simp
qed

end
