(* ===== verification/Text_Safe.thy ===== *)
theory Text_Safe
  imports Utf8 Digest Manifest
begin

text \<open>
  Hostile strings (crates/cli/src/text.rs): the name contract, and the sanitizers of what is shown to a human or to
  an agent. A text is read by characters, each the string of its UTF-8 bytes.
\<close>

section \<open>Code points\<close>

definition code_point :: "string \<Rightarrow> nat" where
  "code_point c =
     (if length c = 1 then at c 0
      else if length c = 2 then (at c 0 - 192) * 64 + (at c 1 - 128)
      else if length c = 3 then ((at c 0 - 224) * 64 + (at c 1 - 128)) * 64 + (at c 2 - 128)
      else (((at c 0 - 240) * 64 + (at c 1 - 128)) * 64 + (at c 2 - 128)) * 64 + (at c 3 - 128))"

text \<open>\<open>char::is_control\<close>, \<open>char::is_whitespace\<close>.\<close>

definition is_control_char :: "string \<Rightarrow> bool" where
  "is_control_char c \<longleftrightarrow> code_point c < 32 \<or> (127 \<le> code_point c \<and> code_point c \<le> 159)"

definition is_white_char :: "string \<Rightarrow> bool" where
  "is_white_char c \<longleftrightarrow> c \<in> set white_encodings"

section \<open>Names\<close>

definition NAME_MAX :: nat where
  "NAME_MAX = 64"

datatype name_error = InvalidName string

definition name_byte :: "char \<Rightarrow> bool" where
  "name_byte b \<longleftrightarrow> is_ascii_lower b \<or> is_ascii_digit b \<or> b \<in> {CHR ''.'', CHR ''_'', CHR ''-''}"

definition validate_name :: "string \<Rightarrow> (unit, name_error) result" where
  "validate_name name =
     (let starts_ok = (case name of [] \<Rightarrow> False | b # _ \<Rightarrow> is_ascii_lower b \<or> is_ascii_digit b);
          chars_ok = list_all name_byte name
      in if starts_ok \<and> chars_ok \<and> length name \<le> NAME_MAX then Inr () else Inl (InvalidName name))"

section \<open>Stripping\<close>

definition is_invisible :: "string \<Rightarrow> bool" where
  "is_invisible c \<longleftrightarrow>
     (let n = code_point c in
      n \<in> {0x200B, 0x200C, 0x200D, 0x2060, 0xFEFF, 0x00AD, 0x180E} \<or>
      (0x202A \<le> n \<and> n \<le> 0x202E) \<or> (0x2066 \<le> n \<and> n \<le> 0x2069) \<or> (0xE0000 \<le> n \<and> n \<le> 0xE007F))"

definition esc :: string where
  "esc = [CHR 0x1B]"

definition in_range :: "nat \<Rightarrow> nat \<Rightarrow> string \<Rightarrow> bool" where
  "in_range lo hi c \<longleftrightarrow> lo \<le> code_point c \<and> code_point c \<le> hi"

text \<open>Past the parameters, the intermediates and the final character of a control sequence.\<close>

definition skip_csi :: "string list \<Rightarrow> string list" where
  "skip_csi cs =
     (case dropWhile (in_range 0x20 0x2F) (dropWhile (in_range 0x30 0x3F) cs) of
        [] \<Rightarrow> []
      | c # rest \<Rightarrow> if in_range 0x40 0x7E c then rest else c # rest)"

text \<open>Past the end of an operating system command; one that does not end swallows everything.\<close>

fun skip_osc :: "string list \<Rightarrow> string list" where
  "skip_osc [] = []"
| "skip_osc (t # ts) =
     (if t = [CHR 0x07] then ts
      else if t = esc then (case ts of u # us \<Rightarrow> if u = [CHR 0x5C] then us else ts | [] \<Rightarrow> [])
      else skip_osc ts)"

lemma skip_csi_length: "length (skip_csi cs) \<le> length cs"
proof -
  let ?r = "dropWhile (in_range 0x20 0x2F) (dropWhile (in_range 0x30 0x3F) cs)"
  have "length ?r \<le> length cs" by (rule order_trans [OF length_dropWhile_le length_dropWhile_le])
  then show ?thesis by (cases ?r) (simp_all only: skip_csi_def list.case list.size if_split, simp_all)
qed

lemma skip_osc_length: "length (skip_osc cs) \<le> length cs"
proof (induction cs rule: skip_osc.induct)
  case (2 t ts)
  then show ?case by (cases ts) auto
qed simp

function strip_chars :: "bool \<Rightarrow> string list \<Rightarrow> string list" where
  "strip_chars keep_newlines [] = []"
| "strip_chars keep_newlines (c # cs) =
     (if c = esc then
        (case cs of
           [] \<Rightarrow> []
         | d # ds \<Rightarrow>
             if d = ''['' then strip_chars keep_newlines (skip_csi ds)
             else if d \<in> {'']'', ''P'', [CHR 0x5E], ''_''} then strip_chars keep_newlines (skip_osc ds)
             else strip_chars keep_newlines ds)
      else if in_range 0x80 0x9F c then strip_chars keep_newlines cs
      else if c = [CHR 0x0A] then (if keep_newlines then c else '' '') # strip_chars keep_newlines cs
      else if c = [CHR 0x0D] then (if keep_newlines then [] else ['' '']) @ strip_chars keep_newlines cs
      else if c = [CHR 0x09] then c # strip_chars keep_newlines cs
      else if is_control_char c then strip_chars keep_newlines cs
      else if is_invisible c then strip_chars keep_newlines cs
      else c # strip_chars keep_newlines cs)"
  by pat_completeness auto
termination
  by (relation "measure (\<lambda>(_, cs). length cs)") (auto intro: le_imp_less_Suc order_trans [OF skip_csi_length] order_trans [OF skip_osc_length] le_SucI)

definition strip_hostile :: "string \<Rightarrow> bool \<Rightarrow> string list" where
  "strip_hostile s keep_newlines = strip_chars keep_newlines (utf8_chars s)"

text \<open>Runs of spaces become one; \<open>prev_space\<close> says whether one was just written.\<close>

fun collapse_spaces :: "bool \<Rightarrow> string list \<Rightarrow> string list" where
  "collapse_spaces prev_space [] = []"
| "collapse_spaces prev_space (c # cs) =
     (if c = '' '' then (if prev_space then [] else [c]) @ collapse_spaces True cs
      else c # collapse_spaces False cs)"

text \<open>\<open>str::trim\<close> on characters.\<close>

definition trim_chars :: "string list \<Rightarrow> string list" where
  "trim_chars cs = rev (dropWhile is_white_char (rev (dropWhile is_white_char cs)))"

definition sanitize_line :: "string \<Rightarrow> string" where
  "sanitize_line s = concat (trim_chars (collapse_spaces False (strip_hostile s False)))"

definition sanitize_block :: "string \<Rightarrow> string" where
  "sanitize_block s = concat (strip_hostile s True)"

definition ellipsis :: string where
  "ellipsis = [CHR 0xE2, CHR 0x80, CHR 0xA6]"

definition truncate_text :: "string \<Rightarrow> nat \<Rightarrow> string" where
  "truncate_text s cap =
     (let cs = utf8_chars s in if length cs \<le> cap then s else concat (take cap cs) @ ellipsis)"

definition one_line :: "string \<Rightarrow> nat \<Rightarrow> string" where
  "one_line s cap = truncate_text (trim (case str_lines s of l # _ \<Rightarrow> l | [] \<Rightarrow> [])) cap"

definition is_doc_key :: "string \<Rightarrow> bool" where
  "is_doc_key k \<longleftrightarrow> k = ''description'' \<or> k = ''title''"

fun sanitize_schema_docs :: "json \<Rightarrow> json" where
  "sanitize_schema_docs (JObject m) =
     JObject (map (\<lambda>(k, v).
       (k, case v of
             JString t \<Rightarrow> if is_doc_key k then JString (sanitize_line t) else v
           | _ \<Rightarrow> sanitize_schema_docs v)) m)"
| "sanitize_schema_docs (JArray items) = JArray (map sanitize_schema_docs items)"
| "sanitize_schema_docs v = v"

section \<open>What passes\<close>

definition shown :: "bool \<Rightarrow> string \<Rightarrow> bool" where
  "shown keep_newlines c \<longleftrightarrow>
     c = [CHR 0x09] \<or> (keep_newlines \<and> c = [CHR 0x0A]) \<or> (\<not> is_control_char c \<and> \<not> is_invisible c)"

lemma code_point_single: "code_point [c] = byte c"
  by (simp add: code_point_def at_def)

lemma byte_values: "byte (CHR '' '') = 32" "byte (CHR 0x1B) = 27" "byte (CHR 0x0D) = 13" "byte (CHR 0x0A) = 10" "byte (CHR 0x09) = 9"
  by code_simp+

lemma space_shown: "shown keep '' ''"
  by (simp add: shown_def is_control_char_def is_invisible_def code_point_single byte_values)

lemma special_shown: "\<not> shown keep esc" "\<not> shown keep [CHR 0x0D]" "shown keep [CHR 0x0A] \<longleftrightarrow> keep"
  by (simp_all add: shown_def esc_def is_control_char_def code_point_single byte_values)

lemma c1_not_shown: "in_range 0x80 0x9F c \<Longrightarrow> \<not> shown keep c"
  by (auto simp: shown_def in_range_def is_control_char_def code_point_single byte_values)

lemma set_skip_csi: "set (skip_csi cs) \<subseteq> set cs"
proof -
  let ?r = "dropWhile (in_range 0x20 0x2F) (dropWhile (in_range 0x30 0x3F) cs)"
  have "set ?r \<subseteq> set cs" by (meson set_dropWhileD subsetI)
  then show ?thesis by (cases ?r) (auto simp only: skip_csi_def list.case list.set split: if_splits)
qed

lemma set_skip_osc: "set (skip_osc cs) \<subseteq> set cs"
proof (induction cs rule: skip_osc.induct)
  case (2 t ts)
  then show ?case by (cases ts) auto
qed simp

lemma strip_shown: "c \<in> set (strip_chars keep cs) \<Longrightarrow> shown keep c \<and> (c = '' '' \<or> c \<in> set cs)"
proof (induction keep cs rule: strip_chars.induct)
  case (2 keep d ds)
  show ?case
  proof (cases "d = esc")
    case True
    show ?thesis
    proof (cases ds)
      case Nil
      with 2 True show ?thesis by simp
    next
      case (Cons e es)
      then show ?thesis
        using 2 True set_skip_csi [of es] set_skip_osc [of es] by (auto split: if_splits)
    qed
  next
    case False
    with 2 show ?thesis using space_shown by (auto simp: shown_def split: if_splits)
  qed
qed simp

lemma strip_id: "\<forall>c \<in> set cs. shown keep c \<Longrightarrow> strip_chars keep cs = cs"
proof (induction cs)
  case (Cons c cs)
  then have c: "shown keep c" "strip_chars keep cs = cs" by simp_all
  then have "c \<noteq> esc" "\<not> in_range 0x80 0x9F c" "c \<noteq> [CHR 0x0D]" "c = [CHR 0x0A] \<longrightarrow> keep"
    using special_shown c1_not_shown by metis+
  with c show ?case by (auto simp: shown_def)
qed simp

text \<open>A text in which no two spaces meet is left alone by the collapse, and trimming makes no two meet.\<close>

fun tight :: "bool \<Rightarrow> string list \<Rightarrow> bool" where
  "tight prev_space [] = True"
| "tight prev_space (c # cs) = (if c = '' '' then \<not> prev_space \<and> tight True cs else tight False cs)"

lemma collapse_tight: "tight prev (collapse_spaces prev cs)"
  by (induction prev cs rule: collapse_spaces.induct) auto

lemma tight_collapse: "tight prev cs \<Longrightarrow> collapse_spaces prev cs = cs"
  by (induction prev cs rule: tight.induct) (auto split: if_splits)

lemma tight_mono: "tight prev cs \<Longrightarrow> tight False cs"
  by (cases cs) (auto split: if_splits)

lemma tight_append: "tight prev (a @ b) \<Longrightarrow> tight prev a \<and> tight False b"
  by (induction prev a rule: tight.induct) (auto intro: tight_mono split: if_splits)

lemma set_collapse: "set (collapse_spaces prev cs) \<subseteq> set cs"
  by (induction prev cs rule: collapse_spaces.induct) auto

lemma trim_chars_part: "\<exists>a b. cs = a @ trim_chars cs @ b"
proof -
  let ?d = "dropWhile is_white_char cs"
  have "cs = takeWhile is_white_char cs @ ?d" by simp
  moreover have "rev ?d = takeWhile is_white_char (rev ?d) @ dropWhile is_white_char (rev ?d)" by simp
  then have "?d = trim_chars cs @ rev (takeWhile is_white_char (rev ?d))"
    unfolding trim_chars_def by (metis rev_append rev_rev_ident)
  ultimately show ?thesis by metis
qed

lemma trim_chars_ends: "trim_chars cs = [] \<or> \<not> is_white_char (hd (trim_chars cs)) \<and> \<not> is_white_char (last (trim_chars cs))"
proof (cases "trim_chars cs = []")
  case False
  let ?d = "dropWhile is_white_char cs"
  have t: "dropWhile is_white_char (rev ?d) \<noteq> []" using False by (simp add: trim_chars_def)
  then have "\<not> is_white_char (last (trim_chars cs))"
    unfolding trim_chars_def by (simp add: last_rev hd_dropWhile)
  moreover have "?d \<noteq> []" using t by (metis dropWhile.simps(1) rev.simps(1))
  then have "\<not> is_white_char (hd ?d)" by (rule hd_dropWhile)
  moreover have "hd (trim_chars cs) = hd ?d"
  proof -
    have "rev ?d = takeWhile is_white_char (rev ?d) @ dropWhile is_white_char (rev ?d)" by simp
    then have "?d = trim_chars cs @ rev (takeWhile is_white_char (rev ?d))"
      unfolding trim_chars_def by (metis rev_append rev_rev_ident)
    with False show ?thesis by (metis hd_append2)
  qed
  ultimately show ?thesis by simp
qed simp

lemma trim_chars_id:
  assumes "cs = [] \<or> \<not> is_white_char (hd cs) \<and> \<not> is_white_char (last cs)"
  shows "trim_chars cs = cs"
proof (cases "cs = []")
  case False
  then have "dropWhile is_white_char cs = cs" using assms by (cases cs) auto
  moreover have "dropWhile is_white_char (rev cs) = rev cs"
    using False assms by (cases cs rule: rev_cases) auto
  ultimately show ?thesis by (simp add: trim_chars_def)
qed (simp add: trim_chars_def)

lemma sanitized_chars:
  assumes "utf8_valid s" and cs: "cs = trim_chars (collapse_spaces False (strip_hostile s False))"
  shows "utf8_chars (sanitize_line s) = cs \<and> utf8_valid (sanitize_line s) \<and> (\<forall>c \<in> set cs. shown False c)"
proof -
  have u: "c \<in> set cs \<Longrightarrow> shown False c \<and> (c = '' '' \<or> c \<in> set (utf8_chars s))" for c
  proof -
    assume "c \<in> set cs"
    moreover have "set cs \<subseteq> set (collapse_spaces False (strip_hostile s False))"
      unfolding cs using trim_chars_part by (metis Un_upper1 Un_upper2 set_append subset_trans)
    ultimately have "c \<in> set (strip_hostile s False)" using set_collapse by blast
    then show ?thesis unfolding strip_hostile_def by (rule strip_shown)
  qed
  have "utf8_char '' ''" by (rule utf8_char_ascii) code_simp
  then have "list_all utf8_char cs" using u utf8_valid_chars [OF assms(1)] by (auto simp: list_all_iff)
  then show ?thesis using u utf8_chars_concat [of cs] by (simp add: sanitize_line_def cs)
qed

text \<open>C33.
  What is shown to a human or an agent is harmless: of any valid UTF-8 text the sanitised line is valid text without line breaks,
  control characters other than tabs, escape sequences or invisible characters, and sanitising it again changes
  nothing.\<close>

theorem sanitize_line_safe:
  assumes "utf8_valid s"
  shows "utf8_valid (sanitize_line s) \<and>
    (\<forall>c \<in> set (utf8_chars (sanitize_line s)). c = [CHR 0x09] \<or> \<not> is_control_char c \<and> \<not> is_invisible c) \<and>
    sanitize_line (sanitize_line s) = sanitize_line s"
proof -
  define cs where "cs = trim_chars (collapse_spaces False (strip_hostile s False))"
  note c = sanitized_chars [OF assms cs_def]
  have "strip_hostile (sanitize_line s) False = cs" using c by (simp add: strip_hostile_def strip_id)
  moreover have "collapse_spaces False cs = cs"
    using trim_chars_part collapse_tight tight_append tight_collapse unfolding cs_def by metis
  moreover have "trim_chars cs = cs" using trim_chars_ends trim_chars_id unfolding cs_def by metis
  ultimately have "sanitize_line (sanitize_line s) = concat cs" by (simp add: sanitize_line_def)
  then show ?thesis using c by (auto simp: shown_def sanitize_line_def cs_def)
qed

definition sample_hostile :: string where
  "sample_hostile = ''a'' @ esc @ ''[31m  '' @ esc @ '']0;title'' @ [CHR 0x07] @ ''b'' @ [CHR 0x0A, CHR 0xE2, CHR 0x80, CHR 0x8B]"

theorem sanitize_line_safe_witness:
  "sanitize_line (sanitize_line sample_hostile) = sanitize_line sample_hostile \<and>
   [CHR 0xE2, CHR 0x80, CHR 0x8B] \<in> set (utf8_chars sample_hostile) \<and>
   [CHR 0xE2, CHR 0x80, CHR 0x8B] \<notin> set (utf8_chars (sanitize_line sample_hostile))"
proof -
  have "utf8_valid sample_hostile" by code_simp
  note s = sanitize_line_safe [OF this]
  have "is_invisible [CHR 0xE2, CHR 0x80, CHR 0x8B]"
    by (simp add: is_invisible_def code_point_def at_def byte_def)
  moreover have "[CHR 0xE2, CHR 0x80, CHR 0x8B] \<in> set (utf8_chars sample_hostile)" by code_simp
  ultimately show ?thesis using s by auto
qed

section \<open>The name contract\<close>

text \<open>
  A name that passes is one path component: not empty, no dot directory, no separator, not hidden and no flag, at
  most 64 bytes; and two names that differ only in case cannot both pass.\<close>

theorem name_contract:
  assumes "validate_name name = Inr ()"
  shows "components name = [Normal name] \<and> \<not> starts_with name ''.'' \<and> \<not> starts_with name ''-'' \<and> length name \<le> 64 \<and>
    (\<forall>other. validate_name other = Inr () \<and> eq_ignore_ascii_case other name \<longrightarrow> other = name)"
proof -
  have ok: "list_all name_byte n \<and> n \<noteq> [] \<and> (is_ascii_lower (hd n) \<or> is_ascii_digit (hd n)) \<and> length n \<le> 64"
    if "validate_name n = Inr ()" for n
    using that by (cases n) (auto simp: validate_name_def NAME_MAX_def split: if_splits)
  have b: "c \<noteq> CHR ''/'' \<and> \<not> is_ascii_upper c" if "name_byte c" for c
    using that by (auto simp: name_byte_def ascii_defs byte_def)
  have "CHR ''/'' \<notin> set name" using ok [OF assms] b by (auto simp: list_all_iff)
  moreover have h: "hd name \<noteq> CHR ''.'' \<and> hd name \<noteq> CHR ''-''"
    using ok [OF assms] by (auto simp: ascii_defs byte_def)
  ultimately have "components name = [Normal name]"
    using ok [OF assms] by (cases name) (auto simp: components_def starts_with_iff Let_def)
  moreover have "\<not> starts_with name ''.''" "\<not> starts_with name ''-''" using h by (auto simp: starts_with_iff)
  moreover have "to_ascii_lowercase n = n" if "validate_name n = Inr ()" for n
    using ok [OF that] b by (auto simp: list_all_iff intro!: to_ascii_lowercase_id)
  ultimately show ?thesis using ok [OF assms] assms by (auto simp: eq_ignore_ascii_case_def)
qed

theorem name_contract_witness: "components ''my-skill.v2'' = [Normal ''my-skill.v2''] \<and> validate_name ''..'' \<noteq> Inr ()"
proof -
  have "validate_name ''my-skill.v2'' = Inr ()" "validate_name ''..'' \<noteq> Inr ()" by code_simp+
  with name_contract [of "''my-skill.v2''"] show ?thesis by blast
qed

end
