(* ===== verification/Scan.thy ===== *)
theory Scan
  imports Text_Safe "HOL-Library.Product_Lexorder" "HOL-Library.Multiset"
begin

text \<open>
  The content scan of what is installed (crates/cli/src/scan.rs): hidden characters block an install, phrasing only
  warns. The regular expression engine is a parameter that gives the matches of a pattern with their offsets; a tree
  is a value of the digest model.
\<close>

section \<open>Findings\<close>



definition bs :: string where
  "bs = [CHR 0x5C]"

text \<open>The patterns, with their backslashes written out.\<close>

definition INJECTION_PATTERNS :: "(string \<times> string) list" where
  "INJECTION_PATTERNS =
     (let s = bs @ ''s+''; b = bs @ ''b''; ap = [CHR 0x27];
          secret = ''(?:~/'' @ bs @ ''.ssh|id_rsa|'' @ bs @ ''.env'' @ b @ ''|'' @ b @ ''secrets?'' @ b @ '')''
      in [(''(?i)ignore'' @ s @ ''(?:all'' @ s @ '')?(?:previous|prior|above)'' @ s @ ''(?:instructions|context)'', ''instruction override''),
          (''(?i)disregard'' @ s @ ''(?:the|all)'' @ s @ ''(?:above|previous)'', ''instruction override''),
          (''(?i)do'' @ s @ ''not'' @ s @ ''(?:tell|inform|reveal'' @ s @ ''to)'' @ s @ ''the'' @ s @ ''user'', ''concealment from the user''),
          (''(?i)exfiltrat'', ''exfiltration language''),
          (''(?i)without'' @ s @ ''the'' @ s @ ''user(?:'' @ ap @ ''s)?'' @ s @ ''(?:knowledge|consent)'', ''acting without user consent''),
          (''(?i)(?:read|cat|open|copy|upload|send|post|curl)'' @ b @ ''.{0,120}'' @ secret,
           ''touches sensitive files (~/.ssh, .env, id_rsa, secrets)''),
          (''(?i)'' @ secret @ ''.{0,120}https?://'', ''sensitive data directed at a URL'')])"

datatype severity = High | Warn


record finding =
  fd_severity :: severity
  fd_file :: string
  fd_line :: nat
  fd_col :: nat
  fd_message :: string
  fd_snippet :: string


section \<open>Characters\<close>

definition invisible_label :: "string \<Rightarrow> string option" where
  "invisible_label c =
     (let n = code_point c in
      if n = 0x200B then Some ''zero-width space''
      else if n = 0x200C then Some ''zero-width non-joiner''
      else if n = 0x200D then Some ''zero-width joiner''
      else if n = 0x2060 then Some ''word joiner''
      else if n = 0xFEFF then Some ''zero-width no-break space (BOM)''
      else if n = 0x00AD then Some ''soft hyphen''
      else if n = 0x180E then Some ''mongolian vowel separator''
      else if 0x202A \<le> n \<and> n \<le> 0x202E then Some ''bidi control''
      else if 0x2066 \<le> n \<and> n \<le> 0x2069 then Some ''bidi isolate''
      else if 0xE0000 \<le> n \<and> n \<le> 0xE007F then Some ''unicode tag character''
      else None)"

text \<open>\<open>{:04X}\<close>.\<close>

definition hex_upper :: "nat \<Rightarrow> string" where
  "hex_upper n = (let h = map (\<lambda>c. if is_ascii_lower c then char_of (byte c - 32) else c) (show_hex n)
     in replicate (4 - length h) (CHR ''0'') @ h)"

definition escape_invisible :: "string \<Rightarrow> string" where
  "escape_invisible s =
     concat (map (\<lambda>c.
       if invisible_label c \<noteq> None \<or> (is_control_char c \<and> c \<noteq> [CHR 0x09])
       then bs @ ''u{'' @ hex_upper (code_point c) @ ''}'' else c) (utf8_chars s))"

definition snippet_around :: "string \<Rightarrow> nat \<Rightarrow> string" where
  "snippet_around line col =
     (let chars = utf8_chars line; start = col - 30; stop = min (col + 30) (length chars);
          window = concat (take (stop - start) (drop start chars))
      in (if 0 < start then ellipsis else []) @ escape_invisible window @ (if stop < length chars then ellipsis else []))"

definition BOM :: string where
  "BOM = [CHR 0xEF, CHR 0xBB, CHR 0xBF]"

definition hidden_in_line :: "string \<Rightarrow> nat \<Rightarrow> string \<Rightarrow> finding list" where
  "hidden_in_line path_label lineno line =
     List.map_filter (\<lambda>(colno, c).
       case invisible_label c of
         None \<Rightarrow> None
       | Some label \<Rightarrow>
           if lineno = 0 \<and> colno = 0 \<and> c = BOM then None
           else Some \<lparr>fd_severity = High, fd_file = path_label, fd_line = lineno + 1, fd_col = colno + 1,
             fd_message = ''hidden unicode U+'' @ hex_upper (code_point c) @ '' ('' @ label @ '')'',
             fd_snippet = snippet_around line colno\<rparr>) (List.enumerate 0 (utf8_chars line))"

definition scan_hidden_unicode :: "string \<Rightarrow> string \<Rightarrow> finding list" where
  "scan_hidden_unicode path_label content =
     concat (map (\<lambda>(lineno, line). hidden_in_line path_label lineno line) (List.enumerate 0 (str_lines content)))"

section \<open>Phrasing\<close>

text \<open>What follows the last line feed before the offset gives the column.\<close>

definition line_col :: "string \<Rightarrow> nat \<Rightarrow> nat \<times> nat" where
  "line_col content offset =
     (let before = take offset content in
      (length (filter (\<lambda>c. c = CHR 0x0A) before) + 1,
       length (utf8_chars (last (split_on (CHR 0x0A) before))) + 1))"

type_synonym regex_engine = "string \<Rightarrow> string \<Rightarrow> (nat \<times> string) list"

definition scan_injection :: "regex_engine \<Rightarrow> string \<Rightarrow> string \<Rightarrow> finding list" where
  "scan_injection find_iter path_label content =
     concat (map (\<lambda>(pat, label).
       map (\<lambda>(start, m).
         let (line, col) = line_col content start in
         \<lparr>fd_severity = Warn, fd_file = path_label, fd_line = line, fd_col = col,
          fd_message = ''prompt-injection heuristic: '' @ label, fd_snippet = truncate_text (escape_invisible m) 80\<rparr>)
         (find_iter pat content)) INJECTION_PATTERNS)"


section \<open>Trees\<close>












section \<open>What the gate lets through\<close>

lemma invisible_labelled: "invisible_label c \<noteq> None \<longleftrightarrow> is_invisible c"
  by (auto simp: invisible_label_def is_invisible_def Let_def)

text \<open>Text without a hidden character, but for a mark at its very start.\<close>

definition hidden_free :: "string \<Rightarrow> bool" where
  "hidden_free content \<longleftrightarrow>
     (\<forall>(i, line) \<in> set (List.enumerate 0 (str_lines content)). \<forall>(j, c) \<in> set (List.enumerate 0 (utf8_chars line)).
        is_invisible c \<longrightarrow> i = 0 \<and> j = 0 \<and> c = BOM)"

lemma map_filter_empty: "List.map_filter f xs = [] \<longleftrightarrow> (\<forall>x \<in> set xs. f x = None)"
  by (induction xs) (auto simp: map_filter_simps split: option.splits)

lemma hidden_scan: "scan_hidden_unicode lbl content = [] \<longleftrightarrow> hidden_free content"
proof -
  have "hidden_in_line lbl i line = [] \<longleftrightarrow>
      (\<forall>(j, c) \<in> set (List.enumerate 0 (utf8_chars line)). is_invisible c \<longrightarrow> i = 0 \<and> j = 0 \<and> c = BOM)" for i line
    unfolding hidden_in_line_def map_filter_empty invisible_labelled [symmetric]
    by (auto split: option.splits if_splits)
  then show ?thesis by (simp add: scan_hidden_unicode_def hidden_free_def split_beta)
qed


lemma injection_warn: "f \<in> set (scan_injection find_iter lbl content) \<Longrightarrow> fd_severity f = Warn"
  by (auto simp: scan_injection_def Let_def split: prod.splits)










text \<open>What the sanitizer of one line lets through, the scan finds nothing hidden in.\<close>

lemma sanitized_scans_clean:
  assumes "utf8_valid s"
  shows "scan_hidden_unicode lbl (sanitize_line s) = []"
proof -
  define cs where "cs = trim_chars (collapse_spaces False (strip_hostile s False))"
  note c = sanitized_chars [OF assms cs_def]
  have v: "list_all utf8_char cs" "concat cs = sanitize_line s" using c utf8_valid_chars by metis+
  have "a \<noteq> CHR 0x0A \<and> a \<noteq> CHR 0x0D" if a: "a \<in> set (sanitize_line s)" for a
  proof
    obtain x where x: "x \<in> set cs" "a \<in> set x" using a unfolding v(2) [symmetric] by auto
    then have "x = [a]" if "is_ascii a" using utf8_char_high [of x a] v(1) that by (simp add: list_all_iff)
    moreover have "shown False x" using c x(1) by blast
    ultimately show "a \<noteq> CHR 0x0A" "a \<noteq> CHR 0x0D" using special_shown by (auto simp: is_ascii_def byte_values)
  qed
  then have "split_on (CHR 0x0A) (sanitize_line s) = [sanitize_line s]" by (intro split_on_clean) blast
  then have "str_lines (sanitize_line s) = (if sanitize_line s = [] then [] else [sanitize_line s])"
    by (simp add: str_lines_def)
  moreover have "\<not> is_invisible x" if "x \<in> set (utf8_chars (sanitize_line s))" for x
    using c that by (auto simp: shown_def is_invisible_def code_point_single byte_values)
  ultimately show ?thesis unfolding hidden_scan hidden_free_def by (auto simp: in_set_enumerate_eq)
qed

end
