(* ===== verification/Merge_Json.thy ===== *)
theory Merge_Json
  imports Manifest "HOL-Library.AList"
begin

text \<open>
  The surgical merge into a JSON file (crates/cli/src/render/merge_json.rs): one section's value is located in the
  text and replaced, every other byte stays. An index into the bytes is modelled by the bytes that follow it; parsing
  and printing of JSON (serde_json) are parameters.
\<close>

section \<open>The scanner\<close>

definition lf :: char where "lf = CHR 0x0A"

definition is_json_ws :: "char \<Rightarrow> bool" where
  "is_json_ws c \<longleftrightarrow> c = CHR '' '' \<or> c = CHR 0x09 \<or> c = lf \<or> c = CHR 0x0D"

definition skip_ws :: "string \<Rightarrow> string" where
  "skip_ws s = dropWhile is_json_ws s"

text \<open>Past the closing quote, from just behind the opening one.\<close>

fun close_string :: "string \<Rightarrow> string" where
  "close_string [] = []"
| "close_string [c] = []"
| "close_string (c # d # cs) =
     (if c = CHR 0x5C then close_string cs
      else if c = CHR 0x22 then d # cs
      else close_string (d # cs))"

definition skip_string :: "string \<Rightarrow> string" where
  "skip_string s = close_string (drop 1 s)"

lemma close_string_length: "length (close_string s) \<le> length s"
  by (induction s rule: close_string.induct) auto

function skip_container :: "char \<Rightarrow> char \<Rightarrow> nat \<Rightarrow> string \<Rightarrow> string" where
  "skip_container open_c close_c depth [] = []"
| "skip_container open_c close_c depth (x # xs) =
     (if x = CHR 0x22 then skip_container open_c close_c depth (skip_string (x # xs))
      else if x = open_c then skip_container open_c close_c (depth + 1) xs
      else if x = close_c then (if depth - 1 = 0 then xs else skip_container open_c close_c (depth - 1) xs)
      else skip_container open_c close_c depth xs)"
  by pat_completeness auto
termination
  by (relation "measure (\<lambda>(_, _, _, s). length s)") (auto simp: skip_string_def less_Suc_eq_le close_string_length)

definition skip_value :: "string \<Rightarrow> string" where
  "skip_value s =
     (case s of
        [] \<Rightarrow> []
      | c # _ \<Rightarrow>
          if c = CHR 0x22 then skip_string s
          else if c = CHR ''{'' then skip_container (CHR ''{'') (CHR ''}'') 0 s
          else if c = CHR ''['' then skip_container (CHR ''['') (CHR '']'') 0 s
          else dropWhile (\<lambda>x. \<not> (x \<in> {CHR '','', CHR ''}'', CHR '']''} \<or> is_json_ws x)) s)"

lemma skip_container_length: "length (skip_container op cl d s) \<le> length s"
proof (induction op cl d s rule: skip_container.induct)
  case (2 op cl d x xs)
  have "length (skip_string (x # xs)) \<le> length xs" by (simp add: skip_string_def close_string_length)
  with 2 show ?case by (auto intro: le_SucI dest: le_trans)
qed simp

lemma skip_value_length: "length (skip_value s) \<le> length s"
  by (cases s)
    (auto simp: skip_value_def skip_string_def skip_container_length length_dropWhile_le
      intro!: le_SucI close_string_length)

lemma skip_ws_length: "length (skip_ws s) \<le> length s"
  by (simp add: skip_ws_def length_dropWhile_le)

text \<open>The rest at the value of a member and the rest behind that value.\<close>

function top_member :: "string \<Rightarrow> string \<Rightarrow> (string \<times> string) option" where
  "top_member key s =
     (let s = skip_ws s in
      case s of
        [] \<Rightarrow> None
      | c # cs \<Rightarrow>
          if c = CHR ''}'' then None
          else if c = CHR '','' then top_member key cs
          else if c = CHR 0x22 then
            (let r = skip_string s; this_key = take (length s - length r - 2) cs in
             case skip_ws r of
               [] \<Rightarrow> None
             | x # v \<Rightarrow>
                 if x \<noteq> CHR '':'' then None
                 else (let val_start = skip_ws v; val_end = skip_value val_start in
                       if this_key = key then Some (val_start, val_end) else top_member key val_end))
          else None)"
  by pat_completeness auto
termination
proof (relation "measure (\<lambda>(_, s). length s)", goal_cases)
  case (2 key s x xa xs)
  have "length x \<le> length s" using 2(1) skip_ws_length by simp
  with 2(2) show ?case by simp
next
  case (3 key s x xa xs r tk xb v vs ve)
  have "length x \<le> length s" using 3(1) skip_ws_length by simp
  moreover have "length r \<le> length xs" using 3(2,6) by (simp add: skip_string_def close_string_length)
  moreover have "length v < length r" using 3(8) skip_ws_length [of r] by simp
  moreover have "length ve \<le> length v"
    using 3(10,11) skip_ws_length [of v] skip_value_length [of vs] by simp
  ultimately show ?case using 3(2) by simp
qed simp

declare top_member.simps [simp del]

definition find_top_level_value_span :: "string \<Rightarrow> string \<Rightarrow> (nat \<times> nat) option" where
  "find_top_level_value_span txt key =
     (case skip_ws txt of
        [] \<Rightarrow> None
      | c # cs \<Rightarrow>
          if c \<noteq> CHR ''{'' then None
          else map_option (\<lambda>(v, e). (length txt - length v, length txt - length e)) (top_member key cs))"

section \<open>The merge\<close>

definition reindent :: "string \<Rightarrow> string \<Rightarrow> string" where
  "reindent pretty indent = join_with (lf # indent) (str_lines pretty)"

definition line_indent :: "string \<Rightarrow> nat \<Rightarrow> string" where
  "line_indent txt pos =
     (let line_start = pos - length (last (split_on lf (take pos txt)))
      in takeWhile (\<lambda>c. c = CHR '' '' \<or> c = CHR 0x09) (drop line_start txt))"

datatype merge_error = InvalidJson | NotAnObject | NoTopLevelObject

record json_codec =
  jc_parse :: "string \<Rightarrow> json option"
  jc_pretty :: "json \<Rightarrow> string"
  jc_quote :: "string \<Rightarrow> string"

type_synonym members = "(string \<times> json) list"

definition merged_section :: "members \<Rightarrow> string \<Rightarrow> members \<Rightarrow> string list \<Rightarrow> json" where
  "merged_section root_obj location new_entries removals =
     (let section = (case map_of root_obj location of Some (JObject m) \<Rightarrow> m | _ \<Rightarrow> [])
      in JObject (fold (\<lambda>(k, v) m. AList.update k v m) new_entries (fold AList.delete removals section)))"

definition splice :: "string \<Rightarrow> nat \<Rightarrow> nat \<Rightarrow> string \<Rightarrow> string" where
  "splice txt start stop new = take start txt @ new @ drop stop txt"

definition insert_after_brace :: "json_codec \<Rightarrow> string \<Rightarrow> string \<Rightarrow> json \<Rightarrow> string \<Rightarrow> (string, merge_error) result" where
  "insert_after_brace jc txt key body sep =
     (case find_sub ''{'' txt of
        None \<Rightarrow> Inl NoTopLevelObject
      | Some brace \<Rightarrow>
          Inr (take (brace + 1) txt @ [lf] @ ''  '' @ jc_quote jc key @ '': '' @ reindent (jc_pretty jc body) ''  '' @ sep
            @ drop (brace + 1) txt))"

definition merge_with_removals ::
  "json_codec \<Rightarrow> string \<Rightarrow> string \<Rightarrow> members \<Rightarrow> string list \<Rightarrow> (string, merge_error) result" where
  "merge_with_removals jc existing location new_entries removals =
     and_then (if trim existing = [] then Inr (JObject []) else ok_or InvalidJson (jc_parse jc existing)) (\<lambda>root.
       case root of
         JObject root_obj \<Rightarrow>
           (let section = merged_section root_obj location new_entries removals in
            if root_obj = [] then Inr (jc_pretty jc (JObject [(location, section)]) @ [lf])
            else case find_top_level_value_span existing location of
              Some (start, stop) \<Rightarrow>
                Inr (splice existing start stop (reindent (jc_pretty jc section) (line_indent existing start)))
            | None \<Rightarrow> insert_after_brace jc existing location section '','')
       | _ \<Rightarrow> Inl NotAnObject)"

definition merge :: "json_codec \<Rightarrow> string \<Rightarrow> string \<Rightarrow> members \<Rightarrow> (string, merge_error) result" where
  "merge jc existing location new_entries = merge_with_removals jc existing location new_entries []"

definition splice_top_level :: "json_codec \<Rightarrow> string \<Rightarrow> string \<Rightarrow> json option \<Rightarrow> (string, merge_error) result" where
  "splice_top_level jc txt key body =
     (case (find_top_level_value_span txt key, body) of
        (Some (start, stop), Some b) \<Rightarrow>
          Inr (splice txt start stop (reindent (jc_pretty jc b) (line_indent txt start)))
      | (Some _, None) \<Rightarrow>
          and_then (ok_or InvalidJson (jc_parse jc txt)) (\<lambda>root.
            Inr (jc_pretty jc (case root of JObject m \<Rightarrow> JObject (AList.delete key m) | _ \<Rightarrow> root) @ [lf]))
      | (None, None) \<Rightarrow> Inr txt
      | (None, Some b) \<Rightarrow>
          (case find_sub ''{'' txt of
             None \<Rightarrow> Inl NoTopLevelObject
           | Some brace \<Rightarrow>
               insert_after_brace jc txt key b
                 (if starts_with (trim_with white_encodings (drop (brace + 1) txt)) ''}'' then [] else '','')))"

fun splice_all :: "json_codec \<Rightarrow> string \<Rightarrow> (string \<times> json option) list \<Rightarrow> (string, merge_error) result" where
  "splice_all jc txt [] = Inr txt"
| "splice_all jc txt ((k, b) # rest) = and_then (splice_top_level jc txt k b) (\<lambda>t. splice_all jc t rest)"

definition merge_top_level :: "json_codec \<Rightarrow> string \<Rightarrow> members \<Rightarrow> string list \<Rightarrow> (string, merge_error) result" where
  "merge_top_level jc existing new_entries removals =
     and_then (if trim existing = [] then Inr (''{}'' @ [lf])
               else if jc_parse jc existing = None then Inl InvalidJson else Inr existing) (\<lambda>txt.
       splice_all jc txt (map (\<lambda>k. (k, None)) removals @ map (\<lambda>(k, v). (k, Some v)) new_entries))"

section \<open>Concrete JSON\<close>

text \<open>
  A JSON text with its spacing: atoms and the insides of strings as they are written, the blank of an empty array or
  object, and around every item the blanks before and behind it, for a member also those around the colon.
\<close>

datatype cst =
    CAtom string
  | CStr string
  | CArr string "(string \<times> cst \<times> string) list"
  | CObj string "(string \<times> string \<times> string \<times> string \<times> cst \<times> string) list"

type_synonym cmember = "string \<times> string \<times> string \<times> string \<times> cst \<times> string"

definition raw_quoted :: "string \<Rightarrow> string" where
  "raw_quoted k = CHR 0x22 # k @ [CHR 0x22]"

fun flat :: "cst \<Rightarrow> string" where
  "flat (CAtom a) = a"
| "flat (CStr k) = raw_quoted k"
| "flat (CArr w xs) =
     ''['' @ (if xs = [] then w else join_with '','' (map (\<lambda>(a, v, b). a @ flat v @ b) xs)) @ '']''"
| "flat (CObj w ms) =
     ''{'' @ (if ms = [] then w else join_with '','' (map (\<lambda>(a, k, b, c, v, d). a @ raw_quoted k @ b @ '':'' @ c @ flat v @ d) ms)) @ ''}''"

definition blank :: "string \<Rightarrow> bool" where
  "blank w \<longleftrightarrow> list_all is_json_ws w"

text \<open>The inside of a string: every backslash escapes a character, no quote and no line break stands alone.\<close>

fun raw_ok :: "string \<Rightarrow> bool" where
  "raw_ok [] = True"
| "raw_ok (c # cs) =
     (c \<noteq> lf \<and> c \<noteq> CHR 0x0D \<and>
      (if c = CHR 0x5C then (case cs of [] \<Rightarrow> False | d # ds \<Rightarrow> d \<noteq> lf \<and> d \<noteq> CHR 0x0D \<and> raw_ok ds)
       else c \<noteq> CHR 0x22 \<and> raw_ok cs))"

definition atom_char :: "char \<Rightarrow> bool" where
  "atom_char c \<longleftrightarrow> \<not> is_json_ws c \<and> c \<notin> {CHR '','', CHR '':'', CHR ''{'', CHR ''}'', CHR ''['', CHR '']'', CHR 0x22}"

fun wf_cst :: "cst \<Rightarrow> bool" where
  "wf_cst (CAtom a) = (a \<noteq> [] \<and> list_all atom_char a)"
| "wf_cst (CStr k) = raw_ok k"
| "wf_cst (CArr w xs) = (blank w \<and> (\<forall>(a, v, b) \<in> set xs. blank a \<and> wf_cst v \<and> blank b))"
| "wf_cst (CObj w ms) =
     (blank w \<and> (\<forall>(a, k, b, c, v, d) \<in> set ms. blank a \<and> raw_ok k \<and> blank b \<and> blank c \<and> wf_cst v \<and> blank d))"

lemma close_raw: "raw_ok k \<Longrightarrow> close_string (k @ CHR 0x22 # rest) = rest"
proof (induction k rule: raw_ok.induct)
  case 1
  show ?case by (cases rest) auto
next
  case (2 c cs)
  show ?case
  proof (cases "c = CHR 0x5C")
    case True
    with "2.prems" obtain d ds where "cs = d # ds" "raw_ok ds" by (cases cs) auto
    with "2.IH" True show ?thesis by simp
  next
    case False
    with 2 show ?thesis by (cases cs) auto
  qed
qed

lemma skip_quoted: "raw_ok k \<Longrightarrow> skip_string (raw_quoted k @ rest) = rest"
  by (simp add: skip_string_def raw_quoted_def close_raw)

text \<open>A text that the scan of a container passes over at any depth inside it.\<close>

definition brackets :: "(char \<times> char) set" where
  "brackets = {(CHR ''{'', CHR ''}''), (CHR ''['', CHR '']'')}"

definition passed :: "string \<Rightarrow> bool" where
  "passed s \<longleftrightarrow> (\<forall>op cl d rest. (op, cl) \<in> brackets \<longrightarrow> 0 < d \<longrightarrow>
     skip_container op cl d (s @ rest) = skip_container op cl d rest)"

lemma passedD: "passed s \<Longrightarrow> (op, cl) \<in> brackets \<Longrightarrow> 0 < d \<Longrightarrow> skip_container op cl d (s @ rest) = skip_container op cl d rest"
  by (simp add: passed_def)

lemma passed_Nil [simp]: "passed []"
  by (simp add: passed_def)

lemma passed_append: "passed a \<Longrightarrow> passed b \<Longrightarrow> passed (a @ b)"
  by (simp add: passed_def)

lemma passed_plain: "\<forall>c \<in> set s. c \<notin> {CHR ''{'', CHR ''}'', CHR ''['', CHR '']'', CHR 0x22} \<Longrightarrow> passed s"
proof (induction s)
  case (Cons c s)
  have "passed [c]" using Cons.prems by (auto simp: passed_def brackets_def)
  with Cons show ?case using passed_append [of "[c]" s] by auto
qed (simp add: passed_Nil)

lemma passed_quoted: "raw_ok k \<Longrightarrow> passed (raw_quoted k)"
  by (simp add: passed_def raw_quoted_def skip_string_def close_raw)

lemma ws_plain:
  "is_json_ws c \<Longrightarrow> c \<notin> {CHR ''{'', CHR ''}'', CHR ''['', CHR '']'', CHR 0x22, CHR '','', CHR '':''}"
  unfolding is_json_ws_def lf_def by (elim disjE) simp_all

lemma passed_blank: "blank w \<Longrightarrow> passed w"
  unfolding blank_def list_all_iff by (rule passed_plain) (use ws_plain in blast)

lemma passed_join: "\<forall>x \<in> set xs. passed x \<Longrightarrow> passed (join_with '','' xs)"
proof (induction xs rule: induct_list012)
  case (3 x y zs)
  have "passed '',''" by (rule passed_plain) simp
  moreover have "passed x" "passed (join_with '','' (y # zs))" using 3 by simp_all
  ultimately have "passed (x @ '','' @ join_with '','' (y # zs))" by (intro passed_append)
  then show ?case by simp
qed simp_all

lemma passed_items:
  "\<forall>x \<in> set xs. passed (f x) \<Longrightarrow> passed w \<Longrightarrow> passed (if xs = [] then w else join_with '','' (map f xs))"
  by (simp add: passed_join)

lemma passed_bracket:
  assumes "passed s" "(op, cl) \<in> brackets"
  shows "passed (op # s @ [cl])"
proof -
  have "skip_container op' cl' d (op # s @ cl # rest) = skip_container op' cl' d rest"
    if "(op', cl') \<in> brackets" "0 < d" for op' cl' d rest
  proof -
    have n: "skip_container op' cl' e (s @ cl # rest) = skip_container op' cl' e (cl # rest)" if "0 < e" for e
      by (rule passedD [OF assms(1) \<open>(op', cl') \<in> brackets\<close> that])
    have "op = CHR ''{'' \<and> cl = CHR ''}'' \<or> op = CHR ''['' \<and> cl = CHR '']''"
      "op' = CHR ''{'' \<and> cl' = CHR ''}'' \<or> op' = CHR ''['' \<and> cl' = CHR '']''"
      using assms(2) that(1) by (simp_all add: brackets_def)
    then show ?thesis using that(2) n [of d] n [of "Suc d"] by (elim disjE conjE) simp_all
  qed
  then show ?thesis by (simp add: passed_def)
qed

definition member_text :: "cmember \<Rightarrow> string" where
  "member_text = (\<lambda>(a, k, b, c, v, d). a @ raw_quoted k @ b @ '':'' @ c @ flat v @ d)"

definition member_key :: "cmember \<Rightarrow> string" where
  "member_key = (\<lambda>(a, k, b, c, v, d). k)"

definition wf_member :: "cmember \<Rightarrow> bool" where
  "wf_member = (\<lambda>(a, k, b, c, v, d). blank a \<and> raw_ok k \<and> blank b \<and> blank c \<and> wf_cst v \<and> blank d)"

text \<open>What stands between the brackets.\<close>

fun inner :: "cst \<Rightarrow> string" where
  "inner (CArr w xs) = (if xs = [] then w else join_with '','' (map (\<lambda>(a, v, b). a @ flat v @ b) xs))"
| "inner (CObj w ms) = (if ms = [] then w else join_with '','' (map member_text ms))"
| "inner _ = []"

lemma flat_arr: "flat (CArr w xs) = CHR ''['' # inner (CArr w xs) @ '']''"
  by simp

lemma flat_obj: "flat (CObj w ms) = CHR ''{'' # inner (CObj w ms) @ ''}''"
  by (simp add: member_text_def)

lemma wf_obj: "wf_cst (CObj w ms) \<longleftrightarrow> blank w \<and> (\<forall>m \<in> set ms. wf_member m)"
  by (simp add: wf_member_def)

declare flat.simps(3,4) [simp del] wf_cst.simps(4) [simp del]

lemma passed_inner: "wf_cst v \<Longrightarrow> passed (flat v) \<and> passed (inner v)"
proof (induction v)
  case (CAtom a)
  then show ?case by (auto intro!: passed_plain simp: list_all_iff atom_char_def)
next
  case (CStr k)
  then show ?case by (simp add: passed_quoted)
next
  case (CArr w xs)
  have "passed (a @ flat v @ b)" if m: "(a, v, b) \<in> set xs" for a v b
  proof -
    have "blank a" "wf_cst v" "blank b" using CArr.prems m by auto
    with CArr.IH m show ?thesis by (intro passed_append) (auto intro: passed_blank)
  qed
  then have i: "passed (inner (CArr w xs))"
    unfolding inner.simps using CArr.prems by (intro passed_items) (auto intro: passed_blank)
  from passed_bracket [OF this, of "CHR ''[''" "CHR '']''"] i show ?case by (simp add: brackets_def flat_arr)
next
  case (CObj w ms)
  have "passed (member_text (a, k, b, c, v, d))" if m: "(a, k, b, c, v, d) \<in> set ms" for a k b c v d
  proof -
    have "wf_member (a, k, b, c, v, d)" using CObj.prems m by (auto simp: wf_obj)
    then have w: "blank a" "raw_ok k" "blank b" "blank c" "wf_cst v" "blank d" by (simp_all add: wf_member_def)
    moreover have "passed '':''" by (rule passed_plain) simp
    moreover have "passed (flat v)" using CObj.IH m w(5) by auto
    ultimately show ?thesis unfolding member_text_def prod.case by (intro passed_append) (auto intro: passed_blank passed_quoted)
  qed
  then have i: "passed (inner (CObj w ms))"
    unfolding inner.simps using CObj.prems by (intro passed_items) (auto simp: wf_obj intro: passed_blank)
  from passed_bracket [OF this, of "CHR ''{''" "CHR ''}''"] i show ?case by (simp add: brackets_def flat_obj)
qed

section \<open>The scan finds the members\<close>

lemma skip_ws_blank: "blank w \<Longrightarrow> skip_ws (w @ s) = skip_ws s"
  by (simp add: skip_ws_def blank_def list_all_iff dropWhile_append2)

lemma skip_ws_plain: "\<not> is_json_ws c \<Longrightarrow> skip_ws (c # s) = c # s"
  by (simp add: skip_ws_def)

definition ends_value :: "string \<Rightarrow> bool" where
  "ends_value rest \<longleftrightarrow> rest = [] \<or> hd rest \<in> {CHR '','', CHR ''}'', CHR '']''} \<or> is_json_ws (hd rest)"

lemma flat_head: "wf_cst v \<Longrightarrow> \<exists>c s. flat v = c # s \<and> \<not> is_json_ws c"
  by (cases v) (auto simp: raw_quoted_def flat_obj flat_arr neq_Nil_conv atom_char_def is_json_ws_def lf_def)

lemma skip_container_flat:
  assumes "passed s" "(op, cl) \<in> brackets"
  shows "skip_container op cl 0 (op # s @ cl # rest) = rest"
proof -
  have "skip_container op cl 1 (s @ cl # rest) = skip_container op cl 1 (cl # rest)" using passedD [OF assms, of 1] by simp
  then show ?thesis using assms(2) by (auto simp: brackets_def)
qed

lemma skip_value_flat:
  assumes "wf_cst v" "ends_value rest"
  shows "skip_value (flat v @ rest) = rest"
proof (cases v)
  case (CAtom a)
  then obtain c s where a: "a = c # s" using assms(1) by (cases a) auto
  let ?P = "\<lambda>x. \<not> (x \<in> {CHR '','', CHR ''}'', CHR '']''} \<or> is_json_ws x)"
  have "dropWhile ?P (a @ rest) = dropWhile ?P rest"
    using assms(1) CAtom by (intro dropWhile_append2) (auto simp: list_all_iff atom_char_def)
  also have "\<dots> = rest" using assms(2) by (cases rest) (auto simp: ends_value_def)
  finally show ?thesis using assms(1) CAtom a by (simp add: skip_value_def atom_char_def)
next
  case (CStr k)
  with assms(1) skip_quoted [of k rest] show ?thesis by (simp add: skip_value_def raw_quoted_def)
next
  case (CArr w xs)
  with passed_inner [OF assms(1)] skip_container_flat [of "inner v" "CHR ''[''" "CHR '']''" rest] show ?thesis
    by (simp add: skip_value_def flat_arr brackets_def)
next
  case (CObj w ms)
  with passed_inner [OF assms(1)] skip_container_flat [of "inner v" "CHR ''{''" "CHR ''}''" rest] show ?thesis
    by (simp add: skip_value_def flat_obj brackets_def)
qed

lemma ends_value_blank: "blank d \<Longrightarrow> ends_value rest \<Longrightarrow> ends_value (d @ rest)"
  by (cases d) (auto simp: ends_value_def blank_def)

lemma top_member_step:
  assumes "wf_member (a, k, b, c, v, d)" "ends_value rest"
  shows "top_member key (member_text (a, k, b, c, v, d) @ rest) =
    (if k = key then Some (flat v @ d @ rest, d @ rest) else top_member key (d @ rest))"
proof -
  have w: "blank a" "raw_ok k" "blank b" "blank c" "wf_cst v" "blank d" using assms(1) by (simp_all add: wf_member_def)
  let ?v = "flat v @ d @ rest"
  let ?r = "b @ CHR '':'' # c @ ?v"
  have s: "skip_ws (member_text (a, k, b, c, v, d) @ rest) = CHR 0x22 # k @ CHR 0x22 # ?r"
    using w(1) by (simp add: member_text_def skip_ws_blank raw_quoted_def skip_ws_plain is_json_ws_def lf_def)
  have r: "skip_string (CHR 0x22 # k @ CHR 0x22 # ?r) = ?r" using skip_quoted [OF w(2), of ?r] by (simp add: raw_quoted_def)
  have x: "skip_ws ?r = CHR '':'' # c @ ?v"
    using w(3) by (simp add: skip_ws_blank skip_ws_plain is_json_ws_def lf_def)
  have y: "skip_ws (c @ ?v) = ?v"
    using w(4) flat_head [OF w(5)] by (auto simp: skip_ws_blank skip_ws_plain)
  have z: "skip_value ?v = d @ rest" by (rule skip_value_flat [OF w(5) ends_value_blank [OF w(6) assms(2)]])
  show ?thesis
    by (subst top_member.simps) (simp add: s r x y z Let_def)
qed

lemma top_member_comma: "blank d \<Longrightarrow> top_member key (d @ CHR '','' # s) = top_member key s"
  by (subst top_member.simps) (simp add: skip_ws_blank skip_ws_plain is_json_ws_def lf_def)

lemma top_member_close: "blank d \<Longrightarrow> top_member key (d @ CHR ''}'' # s) = None"
  by (subst top_member.simps) (simp add: skip_ws_blank skip_ws_plain is_json_ws_def lf_def)

lemma ends_value_simps [simp]: "ends_value (CHR '','' # s)" "ends_value (CHR ''}'' # s)"
  by (simp_all add: ends_value_def)

lemma top_member_absent:
  "\<forall>m \<in> set ms. wf_member m \<and> member_key m \<noteq> key \<Longrightarrow> blank w \<Longrightarrow>
   top_member key (inner (CObj w ms) @ CHR ''}'' # s) = None"
proof (induction ms rule: induct_list012)
  case 1
  then show ?case by (simp add: top_member_close)
next
  case (2 m)
  obtain a k b c v d where m: "m = (a, k, b, c, v, d)" by (metis prod_cases6)
  with 2 show ?case by (simp add: top_member_step member_key_def wf_member_def top_member_close)
next
  case (3 m n ms)
  obtain a k b c v d where m: "m = (a, k, b, c, v, d)" by (metis prod_cases6)
  with 3 have "top_member key (inner (CObj w (n # ms)) @ CHR ''}'' # s) = None" by simp
  moreover have "blank d" "k \<noteq> key" "wf_member (a, k, b, c, v, d)" using 3 m by (simp_all add: wf_member_def member_key_def)
  ultimately show ?case by (simp add: m top_member_step top_member_comma)
qed

text \<open>The text before and behind the value of a member that others surround.\<close>

definition before_value :: "cmember list \<Rightarrow> cmember \<Rightarrow> string" where
  "before_value xs = (\<lambda>(a, k, b, c, v, d).
     concat (map (\<lambda>m. member_text m @ '','') xs) @ a @ raw_quoted k @ b @ '':'' @ c)"

definition behind_value :: "cmember \<Rightarrow> cmember list \<Rightarrow> string" where
  "behind_value = (\<lambda>(a, k, b, c, v, d) ys. d @ (if ys = [] then [] else '','' @ join_with '','' (map member_text ys)))"

definition member_value :: "cmember \<Rightarrow> cst" where
  "member_value = (\<lambda>(a, k, b, c, v, d). v)"

lemma inner_at: "inner (CObj w (xs @ m # ys)) = before_value xs m @ flat (member_value m) @ behind_value m ys"
proof -
  obtain a k b c v d where m: "m = (a, k, b, c, v, d)" by (metis prod_cases6)
  have one: "join_with '','' (map member_text (m # ys)) =
      member_text m @ (if ys = [] then [] else '','' @ join_with '','' (map member_text ys))"
    by (cases ys) simp_all
  have "join_with '','' (map member_text (xs @ m # ys)) =
      concat (map (\<lambda>m. member_text m @ '','') xs) @ join_with '','' (map member_text (m # ys))"
  proof (induction xs)
    case (Cons x xs)
    then show ?case by (cases "xs @ m # ys") auto
  qed simp
  then show ?thesis unfolding one
    by (simp add: m before_value_def behind_value_def member_value_def member_text_def del: list.map)
qed

lemma top_member_found:
  "\<forall>x \<in> set xs. wf_member x \<and> member_key x \<noteq> key \<Longrightarrow> wf_member m \<Longrightarrow> member_key m = key \<Longrightarrow>
   top_member key (inner (CObj w (xs @ m # ys)) @ CHR ''}'' # s) =
     Some (flat (member_value m) @ behind_value m ys @ CHR ''}'' # s, behind_value m ys @ CHR ''}'' # s)"
proof (induction xs)
  case Nil
  obtain a k b c v d where m: "m = (a, k, b, c, v, d)" by (metis prod_cases6)
  have "inner (CObj w (m # ys)) @ CHR ''}'' # s = member_text m @ (if ys = [] then [] else '','' @ join_with '','' (map member_text ys)) @ CHR ''}'' # s"
    by (cases ys) simp_all
  then show ?case using Nil m
    by (simp add: top_member_step member_key_def behind_value_def member_value_def)
next
  case (Cons x xs)
  obtain a k b c v d where x: "x = (a, k, b, c, v, d)" by (metis prod_cases6)
  have w: "wf_member (a, k, b, c, v, d)" "k \<noteq> key" "blank d" using Cons.prems x by (simp_all add: wf_member_def member_key_def)
  have "inner (CObj w ((x # xs) @ m # ys)) = member_text x @ CHR '','' # inner (CObj w (xs @ m # ys))"
    by (cases xs) simp_all
  then show ?case using Cons w by (simp add: x top_member_step top_member_comma)
qed

lemma skip_ws_object:
  "blank w0 \<Longrightarrow> skip_ws (w0 @ flat (CObj w ms) @ w1) = CHR ''{'' # inner (CObj w ms) @ CHR ''}'' # w1"
  by (simp add: skip_ws_blank skip_ws_plain flat_obj is_json_ws_def lf_def)

lemma span_absent:
  assumes "blank w0" "wf_cst (CObj w ms)" "\<forall>m \<in> set ms. member_key m \<noteq> key"
  shows "find_top_level_value_span (w0 @ flat (CObj w ms) @ w1) key = None"
  using top_member_absent [of ms key w w1] assms
  by (simp add: find_top_level_value_span_def skip_ws_object wf_obj del: inner.simps)

lemma span_found:
  assumes "blank w0" "wf_cst (CObj w (xs @ m # ys))" "\<forall>x \<in> set xs. member_key x \<noteq> member_key m"
  shows "find_top_level_value_span (w0 @ flat (CObj w (xs @ m # ys)) @ w1) (member_key m) =
    (let start = length w0 + 1 + length (before_value xs m) in Some (start, start + length (flat (member_value m))))"
proof -
  have "top_member (member_key m) (inner (CObj w (xs @ m # ys)) @ CHR ''}'' # w1) =
      Some (flat (member_value m) @ behind_value m ys @ CHR ''}'' # w1, behind_value m ys @ CHR ''}'' # w1)"
    using assms by (intro top_member_found) (auto simp: wf_obj)
  moreover have "length (w0 @ flat (CObj w (xs @ m # ys)) @ w1) =
      length w0 + 1 + length (before_value xs m) + length (flat (member_value m)) + length (behind_value m ys @ CHR ''}'' # w1)"
    by (simp add: flat_obj inner_at del: inner.simps)
  ultimately show ?thesis
    by (simp add: find_top_level_value_span_def skip_ws_object assms(1) Let_def del: inner.simps)
qed

definition set_value :: "cst \<Rightarrow> cmember \<Rightarrow> cmember" where
  "set_value v' = (\<lambda>(a, k, b, c, v, d). (a, k, b, c, v', d))"

lemma set_value_simps [simp]:
  "member_key (set_value v m) = member_key m" "member_value (set_value v m) = v"
  "before_value xs (set_value v m) = before_value xs m" "behind_value (set_value v m) ys = behind_value m ys"
  "wf_member m \<Longrightarrow> wf_cst v \<Longrightarrow> wf_member (set_value v m)"
  by (simp_all add: member_key_def member_value_def set_value_def before_value_def behind_value_def wf_member_def split: prod.splits)

lemma splice_mid: "splice (p @ x @ q) (length p) (length p + length x) new = p @ new @ q"
  by (simp add: splice_def)

text \<open>Putting a text in the place that was found replaces the value there and nothing else.\<close>

lemma splice_value:
  assumes "start = length w0 + 1 + length (before_value xs m)"
  shows "splice (w0 @ flat (CObj w (xs @ m # ys)) @ w1) start (start + length (flat (member_value m))) (flat v) =
    w0 @ flat (CObj w (xs @ set_value v m # ys)) @ w1"
proof -
  let ?p = "w0 @ CHR ''{'' # before_value xs m" and ?q = "behind_value m ys @ CHR ''}'' # w1"
  have "w0 @ flat (CObj w (xs @ m # ys)) @ w1 = ?p @ flat (member_value m) @ ?q"
    and "w0 @ flat (CObj w (xs @ set_value v m # ys)) @ w1 = ?p @ flat v @ ?q"
    by (simp_all add: flat_obj inner_at del: inner.simps)
  moreover have "start = length ?p" using assms by simp
  ultimately show ?thesis by (simp only: splice_mid)
qed

section \<open>Indentation\<close>

definition indent_ws :: "string \<Rightarrow> string \<Rightarrow> string" where
  "indent_ws ind w = concat (map (\<lambda>c. if c = lf then lf # ind else [c]) w)"

lemma indent_ws_append [simp]: "indent_ws ind (a @ b) = indent_ws ind a @ indent_ws ind b"
  by (simp add: indent_ws_def)

lemma indent_ws_Nil [simp]: "indent_ws ind [] = []"
  by (simp add: indent_ws_def)

lemma indent_ws_Cons: "c \<noteq> lf \<Longrightarrow> indent_ws ind (c # s) = c # indent_ws ind s"
  by (simp add: indent_ws_def)

lemma indent_ws_id: "lf \<notin> set s \<Longrightarrow> indent_ws ind s = s"
  by (induction s) (auto simp: indent_ws_Cons)

lemma split_last: "c \<noteq> x \<Longrightarrow> split_on c (xs @ [x]) = butlast (split_on c xs) @ [last (split_on c xs) @ [x]]"
proof (induction xs)
  case (Cons y xs)
  then show ?case using split_by_not_Nil [of "\<lambda>z. z = c" xs] by (cases "split_on c xs") auto
qed simp

lemma join_indent: "join_with (lf # ind) (split_on lf s) = indent_ws ind s"
proof (induction s)
  case (Cons c s)
  obtain y ys where "split_on lf s = y # ys" using split_by_not_Nil by (metis neq_Nil_conv)
  with Cons show ?case by (cases ys) (auto simp: indent_ws_def)
qed simp

lemma reindent_indent:
  assumes "CHR 0x0D \<notin> set s" "s \<noteq> []" "last s \<noteq> lf"
  shows "reindent s ind = indent_ws ind s"
proof -
  obtain t c where s: "s = t @ [c]" using assms(2) by (metis append_butlast_last_id)
  then have "last (split_on lf s) \<noteq> []" using assms(3) by (simp add: split_last)
  moreover have "strip_cr l = l" if "l \<in> set (split_on lf s)" for l
  proof -
    have "CHR 0x0D \<notin> set l" using split_by_pieces [OF that] assms(1) by blast
    then show ?thesis by (auto simp: strip_cr_def strip_suffix_Some split: option.splits)
  qed
  then have "map strip_cr (butlast (split_on lf s)) = butlast (split_on lf s)"
    by (intro map_idI) (auto dest: in_set_butlastD)
  ultimately have "str_lines s = split_on lf s"
    using split_by_not_Nil [of "\<lambda>x. x = lf" s] by (simp add: str_lines_def Let_def append_butlast_last_id flip: lf_def)
  then show ?thesis by (simp add: reindent_def join_indent)
qed

fun indent_cst :: "string \<Rightarrow> cst \<Rightarrow> cst" where
  "indent_cst ind (CAtom a) = CAtom a"
| "indent_cst ind (CStr k) = CStr k"
| "indent_cst ind (CArr w xs) =
     CArr (indent_ws ind w) (map (\<lambda>(a, v, b). (indent_ws ind a, indent_cst ind v, indent_ws ind b)) xs)"
| "indent_cst ind (CObj w ms) =
     CObj (indent_ws ind w) (map (\<lambda>(a, k, b, c, v, d).
       (indent_ws ind a, k, indent_ws ind b, indent_ws ind c, indent_cst ind v, indent_ws ind d)) ms)"

lemma indent_blank: "blank ind \<Longrightarrow> blank w \<Longrightarrow> blank (indent_ws ind w)"
  by (induction w) (auto simp: indent_ws_def blank_def is_json_ws_def)

lemma raw_no_lf: "raw_ok k \<Longrightarrow> lf \<notin> set k"
  by (induction k rule: raw_ok.induct) (auto split: if_splits list.splits)

lemma indent_raw: "raw_ok k \<Longrightarrow> indent_ws ind (raw_quoted k) = raw_quoted k"
  using raw_no_lf [of k] by (intro indent_ws_id) (auto simp: raw_quoted_def lf_def)

lemma indent_join: "indent_ws ind (join_with '','' xs) = join_with '','' (map (indent_ws ind) xs)"
proof -
  have "indent_ws ind ('','' @ s) = '','' @ indent_ws ind s" for s by (simp add: indent_ws_Cons lf_def)
  then show ?thesis by (induction xs rule: induct_list012) simp_all
qed

lemma indent_cst:
  "wf_cst p \<Longrightarrow> blank ind \<Longrightarrow> flat (indent_cst ind p) = indent_ws ind (flat p) \<and> wf_cst (indent_cst ind p)"
proof (induction p)
  case (CAtom a)
  then show ?case by (auto intro!: indent_ws_id [symmetric] simp: list_all_iff atom_char_def is_json_ws_def)
next
  case (CStr k)
  then show ?case by (simp add: indent_raw)
next
  case (CArr w xs)
  have e: "indent_ws ind (a @ flat v @ b) = indent_ws ind a @ flat (indent_cst ind v) @ indent_ws ind b \<and> wf_cst (indent_cst ind v) \<and>
      blank (indent_ws ind a) \<and> blank (indent_ws ind b)"
    if m: "(a, v, b) \<in> set xs" for a v b
  proof -
    have "blank a" "wf_cst v" "blank b" using CArr.prems m by auto
    moreover have "flat (indent_cst ind v) = indent_ws ind (flat v) \<and> wf_cst (indent_cst ind v)"
      using CArr.IH m \<open>wf_cst v\<close> CArr.prems(2) by auto
    ultimately show ?thesis using CArr.prems(2) by (simp add: indent_blank)
  qed
  have "map (\<lambda>(a, v, b). a @ flat v @ b) (map (\<lambda>(a, v, b). (indent_ws ind a, indent_cst ind v, indent_ws ind b)) xs) =
      map (indent_ws ind) (map (\<lambda>(a, v, b). a @ flat v @ b) xs)"
    using e by (auto simp: )
  then have "inner (indent_cst ind (CArr w xs)) = indent_ws ind (inner (CArr w xs))" by (simp add: indent_join del: map_map)
  then show ?case using CArr.prems e
    by (auto simp: flat_arr indent_ws_Cons lf_def indent_blank simp del: inner.simps)
next
  case (CObj w ms)
  have e: "indent_ws ind (member_text (a, k, b, c, v, d)) =
      member_text (indent_ws ind a, k, indent_ws ind b, indent_ws ind c, indent_cst ind v, indent_ws ind d) \<and>
      wf_member (indent_ws ind a, k, indent_ws ind b, indent_ws ind c, indent_cst ind v, indent_ws ind d)"
    if m: "(a, k, b, c, v, d) \<in> set ms" for a k b c v d
  proof -
    have "wf_member (a, k, b, c, v, d)" using CObj.prems m by (auto simp: wf_obj)
    then have w: "blank a" "raw_ok k" "blank b" "blank c" "wf_cst v" "blank d" by (simp_all add: wf_member_def)
    moreover have "flat (indent_cst ind v) = indent_ws ind (flat v) \<and> wf_cst (indent_cst ind v)"
      using CObj.IH m w(5) CObj.prems(2) by auto
    moreover have "indent_ws ind ('':'' @ s) = '':'' @ indent_ws ind s" for s by (simp add: indent_ws_Cons lf_def)
    ultimately show ?thesis using CObj.prems(2) by (simp add: member_text_def wf_member_def indent_raw indent_blank)
  qed
  have "map member_text (map (\<lambda>(a, k, b, c, v, d).
        (indent_ws ind a, k, indent_ws ind b, indent_ws ind c, indent_cst ind v, indent_ws ind d)) ms) =
      map (indent_ws ind) (map member_text ms)"
    using e by (auto simp: )
  then have "inner (indent_cst ind (CObj w ms)) = indent_ws ind (inner (CObj w ms))" by (simp add: indent_join del: map_map)
  then have "flat (indent_cst ind (CObj w ms)) = indent_ws ind (flat (CObj w ms))"
    by (simp add: flat_obj indent_ws_Cons lf_def del: inner.simps)
  moreover have "wf_cst (indent_cst ind (CObj w ms))" using CObj.prems e by (auto simp: wf_obj indent_blank)
  ultimately show ?case by blast
qed

section \<open>What the text says\<close>

text \<open>
  The value of a text: strings are unescaped by \<open>dec\<close>, atoms read by \<open>num\<close>, and of members with one key the last
  counts, at the place of the first.
\<close>

fun value_of :: "(string \<Rightarrow> string) \<Rightarrow> (string \<Rightarrow> json) \<Rightarrow> cst \<Rightarrow> json" where
  "value_of dec num (CAtom a) = num a"
| "value_of dec num (CStr k) = JString (dec k)"
| "value_of dec num (CArr w xs) = JArray (map (\<lambda>(a, v, b). value_of dec num v) xs)"
| "value_of dec num (CObj w ms) =
     JObject (fold (\<lambda>(k, v). AList.update k v) (map (\<lambda>(a, k, b, c, v, d). (dec k, value_of dec num v)) ms) [])"

definition pair_of :: "(string \<Rightarrow> string) \<Rightarrow> (string \<Rightarrow> json) \<Rightarrow> cmember \<Rightarrow> string \<times> json" where
  "pair_of dec num m = (dec (member_key m), value_of dec num (member_value m))"

definition obj_map :: "(string \<Rightarrow> string) \<Rightarrow> (string \<Rightarrow> json) \<Rightarrow> cmember list \<Rightarrow> string \<Rightarrow> json option" where
  "obj_map dec num ms = map_of (rev (map (pair_of dec num) ms))"

lemma map_of_fold_update:
  "map_of (fold (\<lambda>(k, v). AList.update k v) xs al) = map_of al ++ map_of (rev xs)"
proof (induction xs arbitrary: al)
  case (Cons x xs)
  obtain k v where "x = (k, v)" by (cases x)
  with Cons show ?case by (auto simp: AList.update_conv' map_add_def fun_eq_iff split: option.splits)
qed simp

lemma value_obj: "value_of dec num (CObj w ms) = JObject m \<Longrightarrow> map_of m = obj_map dec num ms"
proof -
  have "(\<lambda>(a, k, b, c, v, d). (dec k, value_of dec num v)) = pair_of dec num"
    by (auto simp: fun_eq_iff pair_of_def member_key_def member_value_def)
  moreover assume "value_of dec num (CObj w ms) = JObject m"
  ultimately show ?thesis by (auto simp: map_of_fold_update obj_map_def)
qed

lemma value_indent: "value_of dec num (indent_cst ind v) = value_of dec num v"
proof (induction v)
  case (CArr w xs)
  then show ?case by (auto simp: comp_def split_beta)
next
  case (CObj w ms)
  have "map (\<lambda>(a, k, b, c, v, d). (dec k, value_of dec num v))
      (map (\<lambda>(a, k, b, c, v, d). (indent_ws ind a, k, indent_ws ind b, indent_ws ind c, indent_cst ind v, indent_ws ind d)) ms) =
    map (\<lambda>(a, k, b, c, v, d). (dec k, value_of dec num v)) ms"
    using CObj by auto
  then show ?case by (simp del: map_map)
qed simp_all

lemma dom_obj_map: "dom (obj_map dec num ms) = dec ` member_key ` set ms"
  by (auto simp: obj_map_def dom_map_of_conv_image_fst pair_of_def image_image)

lemma obj_map_replace:
  assumes "dec (member_key m) \<notin> dec ` member_key ` set ys"
  shows "obj_map dec num (xs @ set_value v m # ys) =
    (obj_map dec num (xs @ m # ys))(dec (member_key m) \<mapsto> value_of dec num v)"
proof -
  have "dec (member_key m) \<notin> dom (map_of (rev (map (pair_of dec num) ys)))"
    using assms by (auto simp: dom_map_of_conv_image_fst pair_of_def image_image)
  then show ?thesis by (simp add: obj_map_def pair_of_def map_add_upd_left flip: map_add_upd)
qed

lemma obj_map_front:
  "obj_map dec num (m # ms) = [dec (member_key m) \<mapsto> value_of dec num (member_value m)] ++ obj_map dec num ms"
  by (simp add: obj_map_def pair_of_def)

lemma strip_first_bytes: "strip_first es s = Some r \<Longrightarrow> \<exists>p. s = p @ r \<and> set p \<subseteq> \<Union> (set ` set es)"
proof (induction es s rule: strip_first.induct)
  case (2 e es s)
  show ?case
  proof (cases "e \<noteq> [] \<and> strip_prefix e s \<noteq> None")
    case True
    with "2.prems" have "s = e @ r" by (auto simp: strip_prefix_Some)
    then show ?thesis by auto
  next
    case False
    with 2 have "strip_first es s = Some r" by (auto split: if_splits option.splits)
    then have "\<exists>p. s = p @ r \<and> set p \<subseteq> \<Union> (set ` set es)" using 2 False by (cases "e = []") auto
    then show ?thesis by auto
  qed
qed simp

lemma trim_with_bytes: "\<exists>p. s = p @ trim_with es s \<and> set p \<subseteq> \<Union> (set ` set es)"
proof (induction es s rule: trim_with.induct)
  case (1 es s)
  show ?case
  proof (cases "strip_first es s")
    case None
    then show ?thesis by (simp add: trim_with.simps [of es s])
  next
    case (Some r)
    with "1.IH" obtain p where "r = p @ trim_with es r" "set p \<subseteq> \<Union> (set ` set es)" by blast
    moreover obtain q where "s = q @ r" "set q \<subseteq> \<Union> (set ` set es)" using strip_first_bytes [OF Some] by blast
    ultimately have "s = (q @ p) @ trim_with es r" "set (q @ p) \<subseteq> \<Union> (set ` set es)" by auto
    with Some show ?thesis by (subst trim_with.simps) auto
  qed
qed

lemma trim_brace: "CHR ''{'' \<in> set s \<Longrightarrow> trim s \<noteq> []"
proof
  assume b: "CHR ''{'' \<in> set s" and t: "trim s = []"
  have "list_all (\<lambda>e. CHR ''{'' \<notin> set e) white_encodings" by code_simp
  then have w: "CHR ''{'' \<notin> \<Union> (set ` set white_encodings)" unfolding list_all_iff by blast
  obtain p where p: "s = p @ trim_with white_encodings s" "set p \<subseteq> \<Union> (set ` set white_encodings)"
    using trim_with_bytes [of s white_encodings] by (elim exE conjE)
  let ?r = "rev (trim_with white_encodings s)"
  obtain q where q: "?r = q @ trim_with (map rev white_encodings) ?r" "set q \<subseteq> \<Union> (set ` set (map rev white_encodings))"
    using trim_with_bytes [of ?r "map rev white_encodings"] by (elim exE conjE)
  have "trim_with (map rev white_encodings) ?r = []" using t by (simp add: trim_def)
  then have "set ?r \<subseteq> \<Union> (set ` set white_encodings)" using q by simp
  with p w b show False by (metis UnE set_append set_rev subsetD)
qed

section \<open>The merge is exact\<close>

lemma find_brace: "CHR ''{'' \<notin> set w \<Longrightarrow> find_sub ''{'' (w @ CHR ''{'' # s) = Some (length w)"
  by (induction w) (auto simp: starts_with_single)

lemma blank_no_brace: "blank w \<Longrightarrow> CHR ''{'' \<notin> set w"
  using ws_plain by (auto simp: blank_def list_all_iff)

lemma indent_is_blank: "blank (line_indent txt pos)"
  unfolding line_indent_def Let_def blank_def list_all_iff by (auto simp: is_json_ws_def dest: set_takeWhileD)

lemma flat_last: "wf_cst p \<Longrightarrow> flat p \<noteq> [] \<and> last (flat p) \<noteq> lf"
  by (cases p) (auto simp: raw_quoted_def flat_arr flat_obj lf_def list_all_iff atom_char_def is_json_ws_def dest: last_in_set simp del: inner.simps)

text \<open>The printed section, indented, is the same value again.\<close>

lemma reindent_printed:
  assumes "wf_cst p" "CHR 0x0D \<notin> set (flat p)" "blank ind"
  shows "reindent (flat p) ind = flat (indent_cst ind p) \<and> wf_cst (indent_cst ind p) \<and>
    value_of dec num (indent_cst ind p) = value_of dec num p"
  using reindent_indent [OF assms(2)] flat_last [OF assms(1)] indent_cst [OF assms(1,3)] value_indent by auto

text \<open>A file the merge can edit: a JSON object with its spacing, keys written plainly and once, read by the parser.\<close>

definition reads :: "json_codec \<Rightarrow> (string \<Rightarrow> string) \<Rightarrow> (string \<Rightarrow> json) \<Rightarrow> string \<Rightarrow> string \<Rightarrow> cmember list \<Rightarrow> string \<Rightarrow> members \<Rightarrow> bool" where
  "reads jc dec num w0 w ms w1 root \<longleftrightarrow>
     blank w0 \<and> wf_cst (CObj w ms) \<and> ms \<noteq> [] \<and>
     jc_parse jc (w0 @ flat (CObj w ms) @ w1) = Some (JObject root) \<and> value_of dec num (CObj w ms) = JObject root"

definition prints :: "json_codec \<Rightarrow> (string \<Rightarrow> string) \<Rightarrow> (string \<Rightarrow> json) \<Rightarrow> json \<Rightarrow> cst \<Rightarrow> bool" where
  "prints jc dec num body p \<longleftrightarrow>
     jc_pretty jc body = flat p \<and> wf_cst p \<and> CHR 0x0D \<notin> set (flat p) \<and> value_of dec num p = body"

lemma reads_root:
  assumes "reads jc dec num w0 w ms w1 root"
  shows "root \<noteq> [] \<and> map_of root = obj_map dec num ms"
proof -
  have m: "map_of root = obj_map dec num ms" by (rule value_obj [of dec num w]) (use assms in \<open>simp only: reads_def\<close>)
  obtain x xs where "ms = x # xs" using assms by (cases ms) (auto simp: reads_def)
  then have "obj_map dec num ms (dec (member_key x)) \<noteq> None"
    by (auto simp: obj_map_front map_add_def split: option.splits)
  with m have "root \<noteq> []" by (metis map_of.simps(1))
  with m show ?thesis by simp
qed

text \<open>The value that takes the old one's place: what the printer prints, moved to the line it stands on.\<close>

definition value_in_place :: "string \<Rightarrow> cmember list \<Rightarrow> cmember \<Rightarrow> cmember list \<Rightarrow> string \<Rightarrow> string \<Rightarrow> cst \<Rightarrow> cst" where
  "value_in_place w0 xs m ys w w1 p =
     indent_cst (line_indent (w0 @ flat (CObj w (xs @ m # ys)) @ w1) (length w0 + 1 + length (before_value xs m))) p"

text \<open>The member that is inserted where none was found: on a line of its own, two columns in.\<close>

definition inserted_member :: "string \<Rightarrow> cst \<Rightarrow> cmember" where
  "inserted_member key p = (lf # ''  '', key, [], '' '', indent_cst ''  '' p, [])"

lemma merge_found:
  assumes "reads jc dec num w0 w (xs @ m # ys) w1 root" "\<forall>x \<in> set xs. member_key x \<noteq> member_key m"
    and "prints jc dec num (merged_section root (member_key m) news gone) p"
  shows "merge_with_removals jc (w0 @ flat (CObj w (xs @ m # ys)) @ w1) (member_key m) news gone =
      Inr (w0 @ flat (CObj w (xs @ set_value (value_in_place w0 xs m ys w w1 p) m # ys)) @ w1) \<and>
      wf_cst (value_in_place w0 xs m ys w w1 p) \<and>
      value_of dec num (value_in_place w0 xs m ys w w1 p) = merged_section root (member_key m) news gone"
proof -
  let ?t = "w0 @ flat (CObj w (xs @ m # ys)) @ w1"
  define start where "start = length w0 + 1 + length (before_value xs m)"
  let ?v = "value_in_place w0 xs m ys w w1 p"
  have v: "?v = indent_cst (line_indent ?t start) p" by (simp add: value_in_place_def start_def)
  have "trim ?t \<noteq> []" by (rule trim_brace) (simp add: flat_obj del: inner.simps)
  moreover have "find_top_level_value_span ?t (member_key m) = Some (start, start + length (flat (member_value m)))"
    using span_found [of w0 w xs m ys w1] assms(1,2) by (simp add: reads_def start_def Let_def)
  moreover have "reindent (flat p) (line_indent ?t start) = flat ?v" "wf_cst ?v"
    "value_of dec num ?v = merged_section root (member_key m) news gone"
    using reindent_printed [of p "line_indent ?t start" dec num] assms(3) indent_is_blank by (auto simp: prints_def v)
  moreover have "splice ?t start (start + length (flat (member_value m))) (flat ?v) = w0 @ flat (CObj w (xs @ set_value ?v m # ys)) @ w1"
    by (rule splice_value) (simp add: start_def)
  ultimately have "merge_with_removals jc ?t (member_key m) news gone = Inr (w0 @ flat (CObj w (xs @ set_value ?v m # ys)) @ w1)"
    using assms(1,3) reads_root [OF assms(1)] by (simp add: merge_with_removals_def reads_def prints_def Let_def)
  then show ?thesis using \<open>wf_cst ?v\<close> \<open>value_of dec num ?v = _\<close> by blast
qed

lemma merge_absent:
  assumes "reads jc dec num w0 w ms w1 root" "\<forall>m \<in> set ms. member_key m \<noteq> location"
    and "prints jc dec num (merged_section root location news gone) p"
    and "jc_quote jc location = raw_quoted location" "raw_ok location"
  shows "merge_with_removals jc (w0 @ flat (CObj w ms) @ w1) location news gone =
      Inr (w0 @ flat (CObj w (inserted_member location p # ms)) @ w1) \<and>
    wf_member (inserted_member location p) \<and> member_key (inserted_member location p) = location \<and>
    value_of dec num (member_value (inserted_member location p)) = merged_section root location news gone"
proof -
  let ?t = "w0 @ flat (CObj w ms) @ w1"
  let ?v = "indent_cst ''  '' p"
  let ?m = "(lf # ''  '', location, [], '' '', ?v, []) :: cmember"
  have ms: "ms \<noteq> []" using assms(1) by (simp add: reads_def)
  have b: "blank ''  ''" "blank (lf # ''  '')" "blank '' ''" "blank []" by (simp_all add: blank_def is_json_ws_def)
  have v: "reindent (flat p) ''  '' = flat ?v" "wf_cst ?v" "value_of dec num ?v = merged_section root location news gone"
    using reindent_printed [of p "''  ''" dec num] assms(3) b by (auto simp: prints_def)
  have t: "?t = w0 @ CHR ''{'' # inner (CObj w ms) @ CHR ''}'' # w1" by (simp add: flat_obj del: inner.simps)
  have "trim ?t \<noteq> []" by (rule trim_brace) (simp add: t del: inner.simps)
  moreover have "find_top_level_value_span ?t location = None"
    using span_absent [of w0 w ms location w1] assms(1,2) by (simp add: reads_def)
  moreover have "find_sub ''{'' ?t = Some (length w0)"
    unfolding t using assms(1) by (intro find_brace blank_no_brace) (simp add: reads_def)
  moreover have "inner (CObj w (?m # ms)) = member_text ?m @ '','' @ inner (CObj w ms)" using ms by (cases ms) simp_all
  ultimately have "merge_with_removals jc ?t location news gone = Inr (w0 @ flat (CObj w (?m # ms)) @ w1)"
    using assms(1,3,4) reads_root [OF assms(1)] v(1)
    by (simp add: merge_with_removals_def insert_after_brace_def reads_def prints_def Let_def t flat_obj member_text_def del: inner.simps)
  moreover have "wf_member ?m" using b v(2) assms(5) by (simp add: wf_member_def)
  moreover have "member_key ?m = location" "value_of dec num (member_value ?m) = merged_section root location news gone"
    using v(3) by (simp_all add: member_key_def member_value_def)
  ultimately show ?thesis by (simp only: inserted_member_def simp_thms)
qed

lemma split_unique:
  assumes "xs @ m # ys = xs' @ m' # ys'" "f m = f m'" "distinct (map f (xs @ m # ys))"
  shows "xs' = xs \<and> m' = m \<and> ys' = ys"
proof -
  have "distinct (map f (xs' @ m' # ys'))" using assms(1,3) by simp
  then have "xs ! i = xs' ! i" if "i < length xs" "i < length xs'" for i
    using assms(1) that by (metis nth_append)
  moreover have "length xs = length xs'"
  proof -
    have "map f (xs @ m # ys) ! length xs = f m" by (simp add: nth_append)
    moreover have "map f (xs @ m # ys) ! length xs' = f m" unfolding assms(1) using assms(2) by (simp add: nth_append)
    moreover have "length xs' < length (map f (xs @ m # ys))" unfolding assms(1) by simp
    ultimately show ?thesis using assms(3) nth_eq_iff_index_eq [of "map f (xs @ m # ys)" "length xs" "length xs'"] by simp
  qed
  ultimately show ?thesis using assms(1) by (simp add: append_eq_append_conv)
qed

lemma split_member:
  assumes "m0 \<in> set ms" "member_key m0 = key"
  obtains xs m ys where "ms = xs @ m # ys" "member_key m = key" "\<forall>x \<in> set xs. member_key x \<noteq> key"
  using split_list_first_prop [of ms "\<lambda>m. member_key m = key"] assms by blast

text \<open>C30.
  The merge of a section changes that section and nothing else, for a JSON file whose keys are written plainly and once.
  Where the file has a member under the key, the result is the same text with that member's value exchanged, at its place and
  with the blanks around it, for the printed merged section at the indentation of its line; where it has none, a member with the
  merged section is put on a line of its own before the first one. Every other byte of the file stands where it stood. The
  result is again the text of an object, and says what the file said with the section replaced by the merged one.\<close>

theorem merge_section_exact:
  assumes "reads jc dec num w0 w ms w1 root"
    and "distinct (map member_key ms)" "\<forall>m \<in> set ms. dec (member_key m) = member_key m"
    and "prints jc dec num (merged_section root location news gone) p"
    and "jc_quote jc location = raw_quoted location" "raw_ok location" "dec location = location"
  shows "\<exists>ms'. merge_with_removals jc (w0 @ flat (CObj w ms) @ w1) location news gone = Inr (w0 @ flat (CObj w ms') @ w1) \<and>
    (\<forall>xs m ys. ms = xs @ m # ys \<and> member_key m = location \<longrightarrow>
       ms' = xs @ set_value (value_in_place w0 xs m ys w w1 p) m # ys \<and>
       value_of dec num (value_in_place w0 xs m ys w w1 p) = merged_section root location news gone) \<and>
    (location \<notin> member_key ` set ms \<longrightarrow>
       ms' = inserted_member location p # ms \<and>
       value_of dec num (member_value (inserted_member location p)) = merged_section root location news gone) \<and>
    wf_cst (CObj w ms') \<and>
    obj_map dec num ms' = (map_of root)(location \<mapsto> merged_section root location news gone)"
proof (cases "location \<in> member_key ` set ms")
  case True
  then obtain m0 where "m0 \<in> set ms" "member_key m0 = location" by blast
  then obtain xs m ys where ms: "ms = xs @ m # ys" "member_key m = location" "\<forall>x \<in> set xs. member_key x \<noteq> location"
    by (rule split_member)
  let ?v = "value_in_place w0 xs m ys w w1 p"
  let ?ms = "xs @ set_value ?v m # ys"
  from merge_found [of jc dec num w0 w xs m ys w1 root news gone p] assms(1,4) ms have v:
    "merge_with_removals jc (w0 @ flat (CObj w ms) @ w1) location news gone = Inr (w0 @ flat (CObj w ?ms) @ w1)"
    "wf_cst ?v" "value_of dec num ?v = merged_section root location news gone" by auto
  have "dec ` member_key ` set ys = member_key ` set ys" using assms(3) ms(1) by (force simp: image_iff)
  then have "dec (member_key m) \<notin> dec ` member_key ` set ys" using assms(2,3) ms(1) by auto
  from obj_map_replace [of dec m ys num xs ?v, OF this]
  have o: "obj_map dec num ?ms = (map_of root)(location \<mapsto> merged_section root location news gone)"
    using reads_root [OF assms(1)] ms(1,2) assms(7) v(3) by simp
  have "wf_cst (CObj w ?ms)" using assms(1) ms(1) v(2) by (auto simp: reads_def wf_obj)
  moreover have "xs' = xs \<and> m' = m \<and> ys' = ys" if "ms = xs' @ m' # ys'" "member_key m' = location" for xs' m' ys'
    by (rule split_unique [of _ _ _ _ _ _ member_key]) (metis ms(1) that(1), metis ms(2) that(2), metis ms(1) assms(2))
  ultimately show ?thesis using v(1,3) o True by (intro exI [of _ ?ms]) blast
next
  case False
  let ?m = "inserted_member location p"
  have m: "merge_with_removals jc (w0 @ flat (CObj w ms) @ w1) location news gone = Inr (w0 @ flat (CObj w (?m # ms)) @ w1)"
    "wf_member ?m" "member_key ?m = location" "value_of dec num (member_value ?m) = merged_section root location news gone"
    using merge_absent [OF assms(1) _ assms(4-6)] False by blast+
  have "location \<notin> dom (obj_map dec num ms)"
    using False assms(3) unfolding dom_obj_map by auto
  then have "obj_map dec num (?m # ms) = (map_of root)(location \<mapsto> merged_section root location news gone)"
    using reads_root [OF assms(1)] m(3,4) assms(7)
    by (auto simp: obj_map_front map_add_def fun_eq_iff dom_def split: option.splits)
  moreover have "wf_cst (CObj w (?m # ms))" using assms(1) m(2) by (simp add: reads_def wf_obj)
  ultimately show ?thesis using m(1,4) False by (intro exI [of _ "?m # ms"]) auto
qed

text \<open>C31.
  A section whose key is spelled with an escape is not found: the merge inserts a second member before it, and since
  readers take the last one, what the file says under the key is what it said before.\<close>

theorem escaped_section_lost:
  assumes "reads jc dec num w0 w ms w1 root"
    and "m0 \<in> set ms" "dec (member_key m0) = location" "\<forall>m \<in> set ms. member_key m \<noteq> location"
    and "prints jc dec num (merged_section root location news gone) p"
    and "jc_quote jc location = raw_quoted location" "raw_ok location" "dec location = location"
  shows "\<exists>m. merge_with_removals jc (w0 @ flat (CObj w ms) @ w1) location news gone = Inr (w0 @ flat (CObj w (m # ms)) @ w1) \<and>
    obj_map dec num (m # ms) location = map_of root location"
proof -
  obtain m where m: "merge_with_removals jc (w0 @ flat (CObj w ms) @ w1) location news gone = Inr (w0 @ flat (CObj w (m # ms)) @ w1)"
    using merge_absent [OF assms(1,4-7)] by blast
  have "location \<in> dom (obj_map dec num ms)"
    using assms(2,3) unfolding dom_obj_map by blast
  then have "obj_map dec num (m # ms) location = map_of root location"
    using reads_root [OF assms(1)] by (auto simp: obj_map_front map_add_def)
  with m show ?thesis by blast
qed

definition sample_members :: "string \<Rightarrow> cmember list" where
  "sample_members key =
     [('' '', ''a'', [], '' '', CAtom ''1'', []),
      ('' '', key, [], '' '', CObj [] [([], ''x'', [], [], CAtom ''2'', [])], '' '')]"

definition sample_root :: members where
  "sample_root = [(''a'', JNumber ''1''), (''s'', JObject [(''x'', JNumber ''2'')])]"

definition sample_printed :: cst where
  "sample_printed = CObj [] [(lf # ''  '', ''y'', [], '' '', CAtom ''3'', [lf])]"

definition sample_codec :: json_codec where
  "sample_codec = \<lparr>jc_parse = (\<lambda>_. Some (JObject sample_root)), jc_pretty = (\<lambda>_. flat sample_printed), jc_quote = raw_quoted\<rparr>"

text \<open>An unescaping that knows one escape, of the letter s.\<close>

definition sample_dec :: "string \<Rightarrow> string" where
  "sample_dec k = (if k = CHR 0x5C # ''u0073'' then ''s'' else k)"

lemma sample_reads:
  assumes "key \<in> {''s'', CHR 0x5C # ''u0073''}"
  shows "reads sample_codec sample_dec JNumber [] [] (sample_members key) [lf] sample_root"
  using assms by (auto simp: reads_def sample_codec_def sample_members_def sample_root_def sample_dec_def
      wf_obj wf_member_def blank_def is_json_ws_def lf_def atom_char_def)

lemma sample_prints:
  "prints sample_codec sample_dec JNumber (merged_section sample_root ''s'' [(''y'', JNumber ''3'')] [''x'']) sample_printed"
  by (simp add: prints_def sample_codec_def sample_printed_def merged_section_def sample_root_def sample_dec_def flat_obj
      wf_obj wf_member_def blank_def is_json_ws_def lf_def atom_char_def member_text_def raw_quoted_def)

lemma sample_merged:
  "merge_with_removals sample_codec (''{ '' @ raw_quoted ''a'' @ '': 1, '' @ raw_quoted ''s'' @ '': {'' @ raw_quoted ''x'' @ '':2} }'' @ [lf])
     ''s'' [(''y'', JNumber ''3'')] [''x''] =
   Inr (''{ '' @ raw_quoted ''a'' @ '': 1, '' @ raw_quoted ''s'' @ '': {'' @ [lf] @ ''  '' @ raw_quoted ''y'' @ '': 3'' @ [lf] @ ''} }'' @ [lf])"
  by code_simp

theorem merge_section_exact_witness:
  "\<exists>ms'. merge_with_removals sample_codec ([] @ flat (CObj [] (sample_members ''s'')) @ [lf]) ''s'' [(''y'', JNumber ''3'')] [''x''] =
      Inr ([] @ flat (CObj [] ms') @ [lf]) \<and>
    ms' = [('' '', ''a'', [], '' '', CAtom ''1'', []), ('' '', ''s'', [], '' '', sample_printed, '' '')] \<and>
    wf_cst (CObj [] ms') \<and>
    obj_map sample_dec JNumber ms' =
      (map_of sample_root)(''s'' \<mapsto> merged_section sample_root ''s'' [(''y'', JNumber ''3'')] [''x''])"
proof -
  let ?m = "('' '', ''s'', [], '' '', CObj [] [([], ''x'', [], [], CAtom ''2'', [])], '' '') :: cmember"
  let ?xs = "[('' '', ''a'', [], '' '', CAtom ''1'', [])] :: cmember list"
  have v: "value_in_place [] ?xs ?m [] [] [lf] sample_printed = sample_printed" by code_simp
  have m: "sample_members ''s'' = ?xs @ ?m # []" "member_key ?m = ''s''"
    by (simp_all add: sample_members_def member_key_def)
  have "distinct (map member_key (sample_members ''s''))" "\<forall>m \<in> set (sample_members ''s''). sample_dec (member_key m) = member_key m"
    "jc_quote sample_codec ''s'' = raw_quoted ''s''" "raw_ok ''s''" "sample_dec ''s'' = ''s''"
    by (simp_all add: sample_members_def member_key_def sample_dec_def sample_codec_def lf_def)
  from merge_section_exact [OF sample_reads this(1,2) sample_prints this(3-)]
  obtain ms' where ms': "merge_with_removals sample_codec ([] @ flat (CObj [] (sample_members ''s'')) @ [lf]) ''s'' [(''y'', JNumber ''3'')] [''x''] =
      Inr ([] @ flat (CObj [] ms') @ [lf])"
    "ms' = ?xs @ set_value (value_in_place [] ?xs ?m [] [] [lf] sample_printed) ?m # []" "wf_cst (CObj [] ms')"
    "obj_map sample_dec JNumber ms' =
      (map_of sample_root)(''s'' \<mapsto> merged_section sample_root ''s'' [(''y'', JNumber ''3'')] [''x''])"
    using m by blast
  show ?thesis using ms'(1,3,4) ms'(2) [unfolded v] by (intro exI [of _ ms'] conjI) (simp_all add: set_value_def)
qed

theorem escaped_section_lost_witness:
  "\<exists>m. merge_with_removals sample_codec ([] @ flat (CObj [] (sample_members (CHR 0x5C # ''u0073''))) @ [lf]) ''s'' [(''y'', JNumber ''3'')] [''x''] =
      Inr ([] @ flat (CObj [] (m # sample_members (CHR 0x5C # ''u0073''))) @ [lf]) \<and>
    obj_map sample_dec JNumber (m # sample_members (CHR 0x5C # ''u0073'')) ''s'' = map_of sample_root ''s''"
  by (rule escaped_section_lost [OF sample_reads _ _ _ sample_prints,
        of _ "('' '', CHR 0x5C # ''u0073'', [], '' '', CObj [] [([], ''x'', [], [], CAtom ''2'', [])], '' '')"])
    (simp_all add: sample_members_def member_key_def sample_dec_def sample_codec_def lf_def)

end
