(* ===== verification/Executable.thy ===== *)
theory Executable
  imports Load Lock
begin

text \<open>
  The executable pins of crates/cli/src/executable.rs: which of a stdio server's command and arguments
  are files of the project, the pins a server contributes to the lock, and the comparison of the pins
  derived now with those the lock holds. The project is a file tree; a resolved location is relative
  to its root, so the source's check that a location is below the root has nothing to refuse. SHA-256
  is a parameter.
\<close>

section \<open>Classifying one string\<close>

datatype reject_reason = ThroughSymlink path | TraversalComponent | NotARegularFile

datatype local_executable = NotLocal | LocalFile string | Rejected string reject_reason

definition normalize_declared :: "string \<Rightarrow> string" where
  "normalize_declared declared =
     join_with ''/'' (List.map_filter (\<lambda>c. case c of Normal part \<Rightarrow> Some part | _ \<Rightarrow> None) (components declared))"

definition project_relative :: "path \<Rightarrow> string" where
  "project_relative resolved = normalize_declared (path_bytes resolved)"

definition is_dir :: "node \<Rightarrow> bool" where
  "is_dir x \<longleftrightarrow> (case x of Directory _ \<Rightarrow> True | Unlistable \<Rightarrow> True | _ \<Rightarrow> False)"

text \<open>The loop over the components: the verdict it returns early, or the location it reaches.\<close>

fun walk_candidate :: "node \<Rightarrow> string \<Rightarrow> path \<Rightarrow> component list \<Rightarrow> local_executable + path" where
  "walk_candidate root candidate resolved [] = Inr resolved"
| "walk_candidate root candidate resolved (CurDir # cs) = walk_candidate root candidate resolved cs"
| "walk_candidate root candidate resolved (Normal part # cs) =
     (let resolved = resolved @ [part] in
      case node_at root resolved of
        None \<Rightarrow> Inl NotLocal
      | Some (Symlink _) \<Rightarrow> Inl (Rejected candidate (ThroughSymlink resolved))
      | Some _ \<Rightarrow> walk_candidate root candidate resolved cs)"
| "walk_candidate root candidate resolved (c # cs) = Inl (Rejected candidate TraversalComponent)"

definition classify_local_executable :: "node \<Rightarrow> path \<Rightarrow> string \<Rightarrow> local_executable" where
  "classify_local_executable root base candidate =
     (if candidate = [] \<or> starts_with candidate ''-'' \<or> find_sub ''${'' candidate \<noteq> None then NotLocal
      else if starts_with candidate ''/'' then NotLocal
      else case walk_candidate root candidate base (components candidate) of
        Inl verdict \<Rightarrow> verdict
      | Inr resolved \<Rightarrow>
          (case node_at root resolved of
             None \<Rightarrow> NotLocal
           | Some (Regular _) \<Rightarrow> LocalFile (project_relative resolved)
           | Some x \<Rightarrow> if is_dir x then NotLocal else Rejected candidate NotARegularFile))"

section \<open>The pins of a server\<close>

datatype pin_error =
    CwdUnresolved string string digest_error
  | CwdNotDirectory string string
  | LocalRejected string string reject_reason
  | FileUndigested digest_error
  | RootUndigested string string digest_error

text \<open>The directory the command and arguments resolve against; \<open>None\<close> when it is no content of the project.\<close>

definition server_anchor :: "node \<Rightarrow> string \<Rightarrow> server \<Rightarrow> (path option, pin_error) result" where
  "server_anchor root name s =
     (case sv_cwd s of
        None \<Rightarrow> Inr (Some [])
      | Some cwd \<Rightarrow>
          if find_sub ''${'' cwd \<noteq> None \<or> starts_with cwd ''/'' then Inr None
          else and_then (map_err (CwdUnresolved name cwd) (resolve_contained root cwd)) (\<lambda>base.
                 if (case node_at root base of Some x \<Rightarrow> is_dir x | None \<Rightarrow> False) then Inr (Some base)
                 else Inl (CwdNotDirectory name cwd)))"

fun file_pins :: "(string \<Rightarrow> string) \<Rightarrow> node \<Rightarrow> string \<Rightarrow> path \<Rightarrow> string list \<Rightarrow> (locked_executable list, pin_error) result" where
  "file_pins sha256 root name base [] = Inr []"
| "file_pins sha256 root name base (candidate # rest) =
     (case classify_local_executable root base candidate of
        NotLocal \<Rightarrow> file_pins sha256 root name base rest
      | LocalFile p \<Rightarrow>
          and_then (map_err FileUndigested (contained_file_digest sha256 root p)) (\<lambda>checksum.
            and_then (file_pins sha256 root name base rest) (\<lambda>pins.
              Inr (\<lparr>lx_path = p, lx_kind = FilePin, lx_checksum = checksum\<rparr> # pins)))
      | Rejected p reason \<Rightarrow> Inl (LocalRejected name p reason))"

fun root_pins :: "(string \<Rightarrow> string) \<Rightarrow> node \<Rightarrow> string \<Rightarrow> string list \<Rightarrow> (locked_executable list, pin_error) result" where
  "root_pins sha256 root name [] = Inr []"
| "root_pins sha256 root name (declared # rest) =
     and_then (map_err (RootUndigested name declared) (integrity_root_digest sha256 root declared)) (\<lambda>checksum.
       and_then (root_pins sha256 root name rest) (\<lambda>pins.
         Inr (\<lparr>lx_path = normalize_declared declared, lx_kind = RootPin, lx_checksum = checksum\<rparr> # pins)))"

definition server_candidates :: "server \<Rightarrow> string list" where
  "server_candidates s = (case sv_command s of Some c \<Rightarrow> [c] | None \<Rightarrow> []) @ sv_args s"

definition derive_executable_pins ::
  "(string \<Rightarrow> string) \<Rightarrow> (location \<Rightarrow> node) \<Rightarrow> location \<Rightarrow> string \<Rightarrow> server \<Rightarrow> (locked_executable list, pin_error) result" where
  "derive_executable_pins sha256 tree project_dir name s =
     (let root = tree (project_root_of project_dir) in
      and_then
        (if sv_type s = Stdio
         then and_then (server_anchor root name s) (\<lambda>base.
                case base of
                  None \<Rightarrow> Inr []
                | Some a \<Rightarrow> file_pins sha256 root name a (server_candidates s))
         else Inr [])
        (\<lambda>files. and_then (root_pins sha256 root name (sv_integrity_roots s)) (\<lambda>roots. Inr (files @ roots))))"

section \<open>Comparison with the lock\<close>

datatype executable_lock_status =
    Matches
  | MissingLockEntry
  | ChecksumDrift string string
  | ResolveFailed pin_error

definition sq :: string where "sq = [CHR 0x27]"

definition pin_label :: "string \<Rightarrow> locked_executable \<Rightarrow> string" where
  "pin_label name p =
     (case lx_kind p of FilePin \<Rightarrow> ''executable '' | RootPin \<Rightarrow> ''integrity root '')
       @ sq @ lx_path p @ sq @ '' (server '' @ sq @ name @ sq @ '')''"

definition pin_status :: "lock \<Rightarrow> locked_executable \<Rightarrow> executable_lock_status" where
  "pin_status l p =
     (case get_executable (lx_path p, lx_kind p) l of
        None \<Rightarrow> MissingLockEntry
      | Some entry \<Rightarrow>
          if lx_checksum entry \<noteq> lx_checksum p then ChecksumDrift (hex (lx_checksum entry)) (hex (lx_checksum p))
          else Matches)"

fun executable_lock_statuses_and_pins ::
  "(string \<Rightarrow> string) \<Rightarrow> (location \<Rightarrow> node) \<Rightarrow> location \<Rightarrow> (string \<times> server) list \<Rightarrow> lock \<Rightarrow>
     (string \<times> executable_lock_status) list \<times> (string \<times> locked_executable) list" where
  "executable_lock_statuses_and_pins sha256 tree dir [] l = ([], [])"
| "executable_lock_statuses_and_pins sha256 tree dir ((name, s) # rest) l =
     (let (statuses, derived) = executable_lock_statuses_and_pins sha256 tree dir rest l in
      case derive_executable_pins sha256 tree dir name s of
        Inl e \<Rightarrow> ((''server '' @ sq @ name @ sq @ '' local executables'', ResolveFailed e) # statuses, derived)
      | Inr pins \<Rightarrow>
          (map (\<lambda>p. (pin_label name p, pin_status l p)) pins @ statuses, map (Pair name) pins @ derived))"

definition executable_lock_statuses ::
  "(string \<Rightarrow> string) \<Rightarrow> (location \<Rightarrow> node) \<Rightarrow> location \<Rightarrow> (string \<times> server) list \<Rightarrow> lock \<Rightarrow> (string \<times> executable_lock_status) list" where
  "executable_lock_statuses sha256 tree dir servers l = fst (executable_lock_statuses_and_pins sha256 tree dir servers l)"

section \<open>What is pinned\<close>

text \<open>A path of proper names is its own normal form.\<close>

definition plain_name :: "string \<Rightarrow> bool" where
  "plain_name n \<longleftrightarrow> name_ok n \<and> n \<noteq> ''.'' \<and> n \<noteq> ''..''"

lemma path_bytes_head:
  assumes "list_all plain_name p" "p \<noteq> []"
  shows "path_bytes p \<noteq> [] \<and> \<not> starts_with (path_bytes p) ''/''"
proof -
  obtain c n q where p: "p = (c # n) # q" "c \<noteq> CHR ''/''"
    using assms by (cases p; cases "hd p") (auto simp: plain_name_def name_ok_def)
  then obtain r where "path_bytes p = c # r"
    by (cases q) (auto simp: path_bytes_def join_with_def)
  with p show ?thesis by (simp add: starts_with_iff)
qed

lemma components_path_bytes:
  assumes "list_all plain_name p" "p \<noteq> []"
  shows "components (path_bytes p) = map Normal p"
proof -
  have s: "split_on (CHR ''/'') (path_bytes p) = p"
    unfolding path_bytes_def by (rule split_join) (use assms in \<open>auto simp: list_all_iff plain_name_def name_ok_def\<close>)
  obtain n q where p: "p = n # q" using assms(2) by (cases p) auto
  have "\<not> starts_with (path_bytes p) ''/''" using path_bytes_head [OF assms] by blast
  moreover have "filter (\<lambda>seg. seg \<noteq> [] \<and> seg \<noteq> ''.'') p = p"
    using assms(1) by (auto simp: filter_id_conv list_all_iff plain_name_def name_ok_def)
  moreover have "map (\<lambda>seg. if seg = ''..'' then ParentDir else Normal seg) p = map Normal p"
    using assms(1) by (auto simp: list_all_iff plain_name_def)
  moreover have "hd p \<noteq> ''.''" using assms(1) by (simp add: p plain_name_def)
  ultimately show ?thesis unfolding components_def Let_def s by (simp only: if_False append_Nil)
qed

lemma normalize_path_bytes:
  assumes "list_all plain_name p" "p \<noteq> []"
  shows "normalize_declared (path_bytes p) = path_bytes p"
proof -
  have "List.map_filter (\<lambda>c. case c of Normal part \<Rightarrow> Some part | _ \<Rightarrow> None) (map Normal p) = p"
    by (induction p) (auto simp: List.map_filter_simps)
  then show ?thesis
    by (simp add: normalize_declared_def components_path_bytes [OF assms]) (simp add: path_bytes_def)
qed

text \<open>What exists is reached through directories, so neither walk stops before it.\<close>

lemma node_on_the_way:
  assumes "node_at root (p @ n # q) = Some x"
  obtains y where "node_at root (p @ [n]) = Some y" "q \<noteq> [] \<longrightarrow> (\<exists>es. y = Directory es)"
proof -
  from assms have "node_at root ((p @ [n]) @ q) = Some x" by simp
  then obtain y where y: "node_at root (p @ [n]) = Some y" "node_at y q = Some x"
    by (auto simp only: node_at_append bind_eq_Some_conv)
  from y(2) have "q \<noteq> [] \<longrightarrow> (\<exists>es. y = Directory es)" by (cases y; cases q) auto
  with y(1) show ?thesis by (rule that)
qed

lemma walk_reaches:
  "map Normal names = filter (\<lambda>c. c \<noteq> CurDir) cs \<Longrightarrow> node_at root (pre @ names) = Some (Regular bytes) \<Longrightarrow>
   walk_candidate root candidate pre cs = Inr (pre @ names)"
proof (induction root candidate pre cs arbitrary: names rule: walk_candidate.induct)
  case (3 root candidate resolved part cs)
  then obtain rest where n: "names = part # rest" "map Normal rest = filter (\<lambda>c. c \<noteq> CurDir) cs"
    by (cases names) auto
  from "3.prems"(2) obtain y where y: "node_at root (resolved @ [part]) = Some y" "rest \<noteq> [] \<longrightarrow> (\<exists>es. y = Directory es)"
    unfolding n(1) by (rule node_on_the_way)
  have "\<not> (\<exists>t. y = Symlink t)" using y "3.prems"(2) n(1) by (cases "rest = []") auto
  with y(1) "3.IH" n "3.prems"(2) show ?case by (cases y) (auto simp: Let_def)
qed auto

lemma resolve_reaches:
  "list_all plain_name p \<Longrightarrow> p \<noteq> [] \<Longrightarrow> node_at root p = Some (Regular bytes) \<Longrightarrow>
   resolve_contained root (path_bytes p) = Inr p"
proof -
  assume a: "list_all plain_name p" "p \<noteq> []" and n: "node_at root p = Some (Regular bytes)"
  have "resolve_components root d pre (map Normal q) = Inr (pre @ q)" if "node_at root (pre @ q) = Some (Regular bytes)" for d pre q
    using that
  proof (induction q arbitrary: pre)
    case (Cons n q)
    from Cons.prems obtain y where y: "node_at root (pre @ [n]) = Some y" "q \<noteq> [] \<longrightarrow> (\<exists>es. y = Directory es)"
      by (rule node_on_the_way)
    then have "\<not> (\<exists>t. y = Symlink t)" using Cons.prems by (cases "q = []") auto
    with y(1) Cons.IH [of "pre @ [n]"] Cons.prems show ?case by (cases y) (auto simp: Let_def)
  qed simp
  from this [of "[]" p] n have r: "resolve_components root (path_bytes p) [] (map Normal p) = Inr p" by simp
  with path_bytes_head [OF a] a(2) show ?thesis by (simp add: resolve_contained_def components_path_bytes [OF a])
qed


lemma candidate_pinned:
  assumes "list_all plain_name base" "map Normal names = filter (\<lambda>c. c \<noteq> CurDir) (components candidate)"
    and "candidate \<noteq> []" "\<not> starts_with candidate ''-''" "find_sub ''${'' candidate = None" "\<not> starts_with candidate ''/''"
    and "node_at root (base @ names) = Some (Regular bytes)" "base @ names \<noteq> []"
  shows "classify_local_executable root base candidate = LocalFile (path_bytes (base @ names))"
    and "contained_file_digest sha256 root (path_bytes (base @ names)) = Inr (Sha256Hex (sha256 bytes))"
proof -
  have "Normal n \<in> set (components candidate)" if "n \<in> set names" for n
    using that assms(2) by (metis filter_is_subset imageI list.set_map subsetD)
  then have p: "list_all plain_name (base @ names)"
    using assms(1) components_Normal by (auto simp: list_all_iff plain_name_def name_ok_def)
  show "classify_local_executable root base candidate = LocalFile (path_bytes (base @ names))"
    using walk_reaches [OF assms(2,7)] assms(3-7) normalize_path_bytes [OF p assms(8)]
    by (simp add: classify_local_executable_def project_relative_def)
  show "contained_file_digest sha256 root (path_bytes (base @ names)) = Inr (Sha256Hex (sha256 bytes))"
    using resolve_reaches [OF p assms(8,7)] assms(7) by (simp add: contained_file_digest_def)
qed

lemma file_pins_complete:
  "file_pins sha256 root name base cs = Inr pins \<Longrightarrow> c \<in> set cs \<Longrightarrow>
   classify_local_executable root base c = LocalFile p \<Longrightarrow> contained_file_digest sha256 root p = Inr d \<Longrightarrow>
   \<lparr>lx_path = p, lx_kind = FilePin, lx_checksum = d\<rparr> \<in> set pins"
  by (induction sha256 root name base cs arbitrary: pins rule: file_pins.induct)
     (auto simp: and_then_Inr split: local_executable.splits)

lemma root_pins_complete:
  "root_pins sha256 root name rs = Inr pins \<Longrightarrow> r \<in> set rs \<Longrightarrow>
   \<exists>d. integrity_root_digest sha256 root r = Inr d \<and> \<lparr>lx_path = normalize_declared r, lx_kind = RootPin, lx_checksum = d\<rparr> \<in> set pins"
  by (induction sha256 root name rs arbitrary: pins rule: root_pins.induct) (fastforce simp: and_then_Inr)+

lemma statuses_Matches:
  "\<forall>(lbl, st) \<in> set (executable_lock_statuses sha256 tree dir servers l). st = Matches \<Longrightarrow> (name, s) \<in> set servers \<Longrightarrow>
   \<exists>pins. derive_executable_pins sha256 tree dir name s = Inr pins \<and> (\<forall>p \<in> set pins. pin_status l p = Matches)"
  unfolding executable_lock_statuses_def
  by (induction sha256 tree dir servers l rule: executable_lock_statuses_and_pins.induct)
     (auto simp: Let_def split: prod.splits sum.splits)

lemma pin_status_Matches:
  "pin_status l p = Matches \<longleftrightarrow> (\<exists>e. get_executable (lx_path p, lx_kind p) l = Some e \<and> lx_checksum e = lx_checksum p)"
  by (auto simp: pin_status_def split: option.splits if_splits)

text \<open>
  The files a stdio server runs out of the project: its command or one of its arguments, taken from its working
  directory the way the system takes it, is the regular file at \<open>p\<close>. Options, references and absolute paths are
  left out as in the source.
\<close>

definition working_dir :: "server \<Rightarrow> path \<Rightarrow> bool" where
  "working_dir s base \<longleftrightarrow>
     (case sv_cwd s of
        None \<Rightarrow> base = []
      | Some cwd \<Rightarrow> find_sub ''${'' cwd = None \<and> \<not> starts_with cwd ''/'' \<and> map Normal base = filter (\<lambda>c. c \<noteq> CurDir) (components cwd))"

definition runs_file :: "node \<Rightarrow> server \<Rightarrow> path \<Rightarrow> string \<Rightarrow> bool" where
  "runs_file root s p bytes \<longleftrightarrow>
     (\<exists>c base names. c \<in> set (server_candidates s) \<and> sv_type s = Stdio \<and> working_dir s base \<and>
        c \<noteq> [] \<and> \<not> starts_with c ''-'' \<and> find_sub ''${'' c = None \<and> \<not> starts_with c ''/'' \<and>
        map Normal names = filter (\<lambda>c. c \<noteq> CurDir) (components c) \<and> p = base @ names \<and>
        node_at root p = Some (Regular bytes))"

text \<open>A derivation that succeeds covers both.\<close>

lemma anchor_working_dir:
  assumes "server_anchor (Directory es) name s = Inr b" "working_dir s base"
  shows "b = Some base \<and> list_all plain_name base"
proof (cases "sv_cwd s")
  case None
  then show ?thesis using assms by (simp add: server_anchor_def working_dir_def)
next
  case (Some cwd)
  then obtain q where q: "resolve_contained (Directory es) cwd = Inr q" "b = Some q"
    using assms by (auto simp: server_anchor_def working_dir_def and_then_Inr split: if_splits)
  note r = resolve_contained_Inr [OF q(1)]
  have "map Normal base = filter (\<lambda>c. c \<noteq> CurDir) (components cwd)" using assms(2) Some by (simp add: working_dir_def)
  with r have "map Normal base = map Normal q" by simp
  then have "base = q" by (rule list.inj_map_strong [rotated]) simp
  then show ?thesis using q(2) r by (simp add: plain_name_def list_all_iff)
qed

lemma derived_files:
  assumes "derive_executable_pins sha256 tree dir name s = Inr pins" "tree (project_root_of dir) = Directory es"
    and "runs_file (Directory es) s p bytes"
  shows "\<lparr>lx_path = path_bytes p, lx_kind = FilePin, lx_checksum = Sha256Hex (sha256 bytes)\<rparr> \<in> set pins"
proof -
  from assms(3) obtain c base names where c: "c \<in> set (server_candidates s)" "sv_type s = Stdio" and w: "working_dir s base"
    and k: "c \<noteq> []" "\<not> starts_with c ''-''" "find_sub ''${'' c = None" "\<not> starts_with c ''/''"
      "map Normal names = filter (\<lambda>c. c \<noteq> CurDir) (components c)" and pn: "p = base @ names"
    and n: "node_at (Directory es) (base @ names) = Some (Regular bytes)"
    by (auto simp: runs_file_def)
  from assms(1,2) c(2) obtain b files where b: "server_anchor (Directory es) name s = Inr b"
    and f: "(case b of None \<Rightarrow> Inr [] | Some a \<Rightarrow> file_pins sha256 (Directory es) name a (server_candidates s)) = Inr files"
    and sub: "set files \<subseteq> set pins"
    by (auto simp: derive_executable_pins_def Let_def and_then_Inr)
  from anchor_working_dir [OF b w] f have f: "file_pins sha256 (Directory es) name base (server_candidates s) = Inr files"
    and pl: "list_all plain_name base" by simp_all
  have ne: "base @ names \<noteq> []" using n by auto
  from file_pins_complete [OF f c(1) candidate_pinned(1) [OF pl k(5) k(1-4) n ne] candidate_pinned(2) [OF pl k(5) k(1-4) n ne]]
  show ?thesis using sub pn by auto
qed

lemma derived_roots:
  assumes "derive_executable_pins sha256 tree dir name s = Inr pins" "r \<in> set (sv_integrity_roots s)"
  shows "\<exists>d. integrity_root_digest sha256 (tree (project_root_of dir)) r = Inr d \<and>
    \<lparr>lx_path = normalize_declared r, lx_kind = RootPin, lx_checksum = d\<rparr> \<in> set pins"
proof -
  from assms(1) obtain files roots where "root_pins sha256 (tree (project_root_of dir)) name (sv_integrity_roots s) = Inr roots"
    and "pins = files @ roots"
    unfolding derive_executable_pins_def Let_def and_then_Inr by blast
  then show ?thesis using root_pins_complete [OF _ assms(2)] by fastforce
qed

section \<open>Properties\<close>

text \<open>C29.
  When every executable status of a project is a match, the lock holds, for each file a server runs out of the
  project, a pin of exactly the bytes that are there now, and for each declared integrity root the digest of the
  subtree as it is now; an edited, replaced or added payload is a status other than a match. The files are those the
  command or an argument names by a relative path of plain components: what starts with a dash, carries a reference,
  is absolute or has a parent component (such as gone/../run.js, which is never pinned) is outside the promise.\<close>

theorem locked_executables_current:
  assumes "\<forall>(lbl, st) \<in> set (executable_lock_statuses sha256 tree dir servers l). st = Matches"
    and "(name, s) \<in> set servers" "tree (project_root_of dir) = Directory es"
  shows "(\<forall>p bytes. runs_file (Directory es) s p bytes \<longrightarrow>
        (\<exists>e. get_executable (path_bytes p, FilePin) l = Some e \<and> lx_checksum e = Sha256Hex (sha256 bytes))) \<and>
      (\<forall>r \<in> set (sv_integrity_roots s).
        \<exists>e. get_executable (normalize_declared r, RootPin) l = Some e \<and>
          integrity_root_digest sha256 (Directory es) r = Inr (lx_checksum e))"
proof -
  from statuses_Matches [OF assms(1,2)] obtain pins where
    d: "derive_executable_pins sha256 tree dir name s = Inr pins" and m: "\<forall>p \<in> set pins. pin_status l p = Matches" by blast
  have "\<exists>e. get_executable (path_bytes p, FilePin) l = Some e \<and> lx_checksum e = Sha256Hex (sha256 bytes)"
    if "runs_file (Directory es) s p bytes" for p bytes
    using derived_files [OF d assms(3) that] m by (fastforce simp: pin_status_Matches)
  moreover have "\<exists>e. get_executable (normalize_declared r, RootPin) l = Some e \<and>
      integrity_root_digest sha256 (Directory es) r = Inr (lx_checksum e)" if "r \<in> set (sv_integrity_roots s)" for r
    using derived_roots [OF d that] m assms(3) by (fastforce simp: pin_status_Matches)
  ultimately show ?thesis by blast
qed

definition sample_project :: "string \<Rightarrow> node" where
  "sample_project body =
     Directory [(''tools'', Directory [(''run.sh'', Regular body)]), (''link'', Symlink ''tools'')]"

definition sample_stdio :: "string \<Rightarrow> string option \<Rightarrow> server" where
  "sample_stdio arg cwd =
     \<lparr>sv_type = Stdio, sv_url = None, sv_command = Some ''node'', sv_args = [arg, ''--verbose''], sv_cwd = cwd,
      sv_integrity_roots = [], sv_targets = [], sv_owner = None, sv_headers = [], sv_env = [], sv_extra = []\<rparr>"

definition sample_lock :: "string \<Rightarrow> lock" where
  "sample_lock digest =
     default_lock\<lparr>lo_executables := [\<lparr>lx_path = ''tools/run.sh'', lx_kind = FilePin, lx_checksum = Sha256Hex digest\<rparr>]\<rparr>"

text \<open>The same payload through the root and through a working directory; an edit and a link are noticed.\<close>

theorem locked_executables_current_witness:
  "get_executable (''tools/run.sh'', FilePin) (sample_lock ''v1'') =
     Some \<lparr>lx_path = ''tools/run.sh'', lx_kind = FilePin, lx_checksum = Sha256Hex ''v1''\<rparr> \<and>
   executable_lock_statuses id (\<lambda>_. sample_project ''v2'') [RootDir, Normal ''p''] [(''a'', sample_stdio ''./tools/run.sh'' None)] (sample_lock ''v1'')
     = [(pin_label ''a'' \<lparr>lx_path = ''tools/run.sh'', lx_kind = FilePin, lx_checksum = Sha256Hex ''v2''\<rparr>, ChecksumDrift ''v1'' ''v2'')] \<and>
   map snd (executable_lock_statuses id (\<lambda>_. sample_project ''v1'') [RootDir, Normal ''p''] [(''a'', sample_stdio ''link/run.sh'' None)] (sample_lock ''v1''))
     = [ResolveFailed (LocalRejected ''a'' ''link/run.sh'' (ThroughSymlink [''link'']))]"
proof -
  let ?s = "[(''a'', sample_stdio ''run.sh'' (Some ''./tools'')), (''b'', sample_stdio ''./tools/run.sh'' None)]"
  let ?tree = "\<lambda>_ :: location. sample_project ''v1''"
  have st: "list_all (\<lambda>(lbl, st). st = Matches) (executable_lock_statuses id ?tree [RootDir, Normal ''p''] ?s (sample_lock ''v1''))"
    by code_simp
  have run: "runs_file (sample_project ''v1'') (sample_stdio ''run.sh'' (Some ''./tools'')) [''tools'', ''run.sh''] ''v1''"
    unfolding runs_file_def
    by (intro exI [of _ "''run.sh''"] exI [of _ "[''tools'']"] exI [of _ "[''run.sh'']"], unfold working_dir_def) code_simp
  from locked_executables_current [of id ?tree "[RootDir, Normal ''p'']" ?s "sample_lock ''v1''" "''a''"
      "sample_stdio ''run.sh'' (Some ''./tools'')"] st run
  have "\<exists>e. get_executable (path_bytes [''tools'', ''run.sh''], FilePin) (sample_lock ''v1'') = Some e \<and> lx_checksum e = Sha256Hex (id ''v1'')"
    by (simp add: list_all_iff sample_project_def del: id_apply)
  moreover have "get_executable (''tools/run.sh'', FilePin) (sample_lock ''v1'') =
     Some \<lparr>lx_path = ''tools/run.sh'', lx_kind = FilePin, lx_checksum = Sha256Hex ''v1''\<rparr>" by code_simp
  moreover have "executable_lock_statuses id (\<lambda>_. sample_project ''v2'') [RootDir, Normal ''p''] [(''a'', sample_stdio ''./tools/run.sh'' None)] (sample_lock ''v1'')
     = [(pin_label ''a'' \<lparr>lx_path = ''tools/run.sh'', lx_kind = FilePin, lx_checksum = Sha256Hex ''v2''\<rparr>, ChecksumDrift ''v1'' ''v2'')]"
    by code_simp
  moreover have "map snd (executable_lock_statuses id ?tree [RootDir, Normal ''p''] [(''a'', sample_stdio ''link/run.sh'' None)] (sample_lock ''v1''))
     = [ResolveFailed (LocalRejected ''a'' ''link/run.sh'' (ThroughSymlink [''link'']))]"
    by code_simp
  ultimately show ?thesis by blast
qed

text \<open>
  A path that climbs back out of a directory that does not exist is no local content to the classifier, wherever it
  leads: the traversal behind the missing name is never looked at.\<close>

theorem missing_prefix_unpinned:
  assumes "plain_name n" "node_at root (base @ [n]) = None"
  shows "classify_local_executable root base (n @ ''/../'' @ rest) = NotLocal"
proof -
  have s: "split_on (CHR ''/'') (n @ ''/../'' @ rest) = n # ''..'' # split_on (CHR ''/'') rest"
    using assms(1) split_on_append_sep [of "CHR ''/''" n "''../'' @ rest"] split_on_append_sep [of "CHR ''/''" "''..''" rest]
    by (simp add: plain_name_def name_ok_def)
  have "\<not> starts_with (n @ ''/../'' @ rest) ''/''"
    using assms(1) by (cases n) (auto simp: plain_name_def name_ok_def starts_with_iff)
  then obtain cs where "components (n @ ''/../'' @ rest) = Normal n # cs"
    using assms(1) unfolding components_def Let_def s by (simp add: plain_name_def name_ok_def)
  with assms(2) show ?thesis by (simp add: classify_local_executable_def Let_def)
qed


text \<open>A payload named through a missing directory: an interpreter that normalises the path runs it, and no pin is asked for.\<close>

theorem missing_prefix_unpinned_witness:
  "classify_local_executable (sample_project ''v2'') [''tools''] ''gone/../run.sh'' = NotLocal \<and>
   classify_local_executable (sample_project ''v2'') [''tools''] ''run.sh'' = LocalFile ''tools/run.sh'' \<and>
   executable_lock_statuses id (\<lambda>_. sample_project ''v2'') [RootDir, Normal ''p''] [(''a'', sample_stdio ''gone/../run.sh'' (Some ''tools''))] default_lock = []"
proof -
  have p: "plain_name ''gone'' \<and> node_at (sample_project ''v2'') ([''tools''] @ [''gone'']) = None \<and>
    classify_local_executable (sample_project ''v2'') [''tools''] ''run.sh'' = LocalFile ''tools/run.sh'' \<and>
    executable_lock_statuses id (\<lambda>_. sample_project ''v2'') [RootDir, Normal ''p''] [(''a'', sample_stdio ''gone/../run.sh'' (Some ''tools''))] default_lock = []"
    by code_simp
  with missing_prefix_unpinned [of "''gone''" "sample_project ''v2''" "[''tools'']" "''run.sh''"] show ?thesis by simp
qed

end
