(* ===== verification/Grant.thy ===== *)
theory Grant
  imports Executable Ruleset
begin

text \<open>
  The run grant of crates/cli/src/grant.rs: the identities it binds, the builder that assembles it entry
  by entry, and the checks that seal it. A \<open>BTreeMap\<close> is its list of entries in key order and a
  \<open>BTreeSet\<close> its list of elements in order, since the digest of a grant walks them. \<open>fs::canonicalize\<close>
  and the adapter registry are parameters.
\<close>

section \<open>Ordered maps and sets\<close>

type_synonym ('k, 'v) btree_map = "('k \<times> 'v) list"

fun bt_insert :: "'k::linorder \<Rightarrow> 'v \<Rightarrow> ('k, 'v) btree_map \<Rightarrow> ('k, 'v) btree_map" where
  "bt_insert k v [] = [(k, v)]"
| "bt_insert k v ((k', v') # m) =
     (if k < k' then (k, v) # (k', v') # m
      else if k = k' then (k, v) # m
      else (k', v') # bt_insert k v m)"

definition bt_ordered :: "('k::linorder, 'v) btree_map \<Rightarrow> bool" where
  "bt_ordered m \<longleftrightarrow> sorted_wrt (<) (map fst m)"

lemma bt_ordered_Nil [simp]: "bt_ordered []"
  by (simp add: bt_ordered_def)

lemma bt_insert_keys: "fst ` set (bt_insert k v m) = insert k (fst ` set m)"
  by (induction k v m rule: bt_insert.induct) auto

lemma bt_insert_ordered [simp]: "bt_ordered m \<Longrightarrow> bt_ordered (bt_insert k v m)"
proof (induction k v m rule: bt_insert.induct)
  case (2 k v k' v' m)
  then show ?case using bt_insert_keys [of k v m] by (auto simp: bt_ordered_def image_iff)
qed (simp add: bt_ordered_def)

lemma map_of_bt_insert [simp]: "bt_ordered m \<Longrightarrow> map_of (bt_insert k v m) = (map_of m)(k \<mapsto> v)"
  by (induction k v m rule: bt_insert.induct) (auto simp: bt_ordered_def map_of_eq_None_iff)

lemma bt_map_of: "bt_ordered m \<Longrightarrow> (k, v) \<in> set m \<longleftrightarrow> map_of m k = Some v"
  by (simp add: bt_ordered_def strict_sorted_iff)

section \<open>Identities\<close>

type_synonym grant_digest = sha256_hex
type_synonym consent_digest = sha256_hex
type_synonym content_digest = sha256_hex

datatype grant_error =
    NotUtf8Path string
  | NotCanonical string
  | NotCanonicalUtf8 string
  | BadDigest string
  | BadReference string
  | UnscopedSecret string
  | UnknownAdapter string
  | UnboundAdapter string
  | EmptyName string
  | PaddedName string string
  | Duplicate string string
  | ConflictingExecutable string
  | DuplicateSecret string
  | UnsupportedCombination string string string
  | EmptyImageReference
  | EmptyToolset
  | EmptyRevision string
  | UnenforceableLifetime string
  | UnknownSecretServer string string
  | UnreferencedSecret string string
  | UnknownExecutableServer string string
  | UnpinnedRoot string string
  | RulesetEncoding
  | DigestPanic

definition digest_display :: "sha256_hex \<Rightarrow> string" where
  "digest_display d = ''sha256:'' @ hex d"

definition parse_digest :: "string \<Rightarrow> (sha256_hex, grant_error) result" where
  "parse_digest s = map_err (\<lambda>_. BadDigest s) (parse_sha256 s)"

datatype grant_path = GrantPath (path_str: string)

text \<open>\<open>canonicalize\<close> gives the canonical path, or nothing when there is no such file.\<close>

definition new_grant_path :: "(string \<Rightarrow> string option) \<Rightarrow> string \<Rightarrow> (grant_path, grant_error) result" where
  "new_grant_path canonicalize p =
     (if \<not> utf8_valid p then Inl (NotUtf8Path p)
      else case canonicalize p of
        None \<Rightarrow> Inl (NotCanonical p)
      | Some canon \<Rightarrow> if utf8_valid canon then Inr (GrantPath canon) else Inl (NotCanonicalUtf8 canon))"

definition is_within :: "grant_path \<Rightarrow> grant_path \<Rightarrow> bool" where
  "is_within p root \<longleftrightarrow> prefix (components (path_str root)) (components (path_str p))"

datatype grant_schema = V1

fun schema_slug :: "grant_schema \<Rightarrow> string" where
  "schema_slug V1 = ''v1''"

datatype grant_posture = HostPosture | Sandbox | Lockdown

fun posture_slug :: "grant_posture \<Rightarrow> string" where
  "posture_slug HostPosture = ''host''"
| "posture_slug Sandbox = ''sandbox''"
| "posture_slug Lockdown = ''lockdown''"

definition posture_from_slug :: "string \<Rightarrow> grant_posture option" where
  "posture_from_slug s =
     (if trim s = ''host'' then Some HostPosture
      else if trim s = ''sandbox'' then Some Sandbox
      else if trim s = ''lockdown'' then Some Lockdown
      else None)"

datatype egress_mode = Unconfined | ProxyAdvisory | NoNetwork | LockdownConfined

fun egress_slug :: "egress_mode \<Rightarrow> string" where
  "egress_slug Unconfined = ''unconfined''"
| "egress_slug ProxyAdvisory = ''proxy-advisory''"
| "egress_slug NoNetwork = ''no-network''"
| "egress_slug LockdownConfined = ''lockdown-confined''"

datatype artifact_mode = StaticArtifacts | CleanAtRest | ZeroFiles

fun artifact_slug :: "artifact_mode \<Rightarrow> string" where
  "artifact_slug StaticArtifacts = ''static''"
| "artifact_slug CleanAtRest = ''clean-at-rest''"
| "artifact_slug ZeroFiles = ''zero-files''"

datatype workspace_grant = UnboundWorkspace

fun workspace_slug :: "workspace_grant \<Rightarrow> string" where
  "workspace_slug UnboundWorkspace = ''unbound''"

datatype input_origin = InlineInput | LibraryInput
datatype skill_binding = PathSource | GitSource (revision: string)
datatype instruction_binding = MachineOwned content_digest | ProjectPinned content_digest

datatype granted_server_binding =
    InlineBinding content_digest
  | LibraryBinding content_digest "string option"
  | PackageBinding content_digest "string option"

datatype image_binding = UnboundImage | PinnedImage content_digest
datatype runtime_image = HostRuntime | Container string image_binding

fun runtime_slug :: "runtime_image \<Rightarrow> string" where
  "runtime_slug HostRuntime = ''host''"
| "runtime_slug (Container r b) = ''container''"

datatype harness_integrity = ExternalUnpinned
datatype adapter_source = BuiltInAdapter | UserAdapter string
datatype adapter_source_identity = BuiltInIdentity | UserIdentity grant_path

fun scope_str :: "scope \<Rightarrow> string" where
  "scope_str Global = ''global''"
| "scope_str Project = ''project''"

datatype profile_effect =
    NoProfile
  | Temporary string scope
  | Kept string scope
  | Fenced string

datatype secret_lifetime = UnboundLifetime | RunScoped

instantiation secret_lifetime :: linorder
begin

definition less_eq_secret_lifetime :: "secret_lifetime \<Rightarrow> secret_lifetime \<Rightarrow> bool" where
  "less_eq_secret_lifetime a b \<longleftrightarrow> a = UnboundLifetime \<or> b = RunScoped"

definition less_secret_lifetime :: "secret_lifetime \<Rightarrow> secret_lifetime \<Rightarrow> bool" where
  "less_secret_lifetime a b \<longleftrightarrow> a = UnboundLifetime \<and> b = RunScoped"

instance
proof
  fix a b c :: secret_lifetime
  show "a < b \<longleftrightarrow> a \<le> b \<and> \<not> b \<le> a" "a \<le> a" "a \<le> b \<or> b \<le> a"
    by (cases a; cases b; simp add: less_eq_secret_lifetime_def less_secret_lifetime_def)+
  show "a \<le> b \<Longrightarrow> b \<le> c \<Longrightarrow> a \<le> c" "a \<le> b \<Longrightarrow> b \<le> a \<Longrightarrow> a = b"
    by (cases a; cases b; cases c; simp add: less_eq_secret_lifetime_def)+
qed

end

section \<open>What a grant binds\<close>

record secret_grant =
  sg_reference :: string
  sg_server :: string
  sg_lifetime :: secret_lifetime

definition secret_key :: "secret_grant \<Rightarrow> string \<times> string \<times> secret_lifetime" where
  "secret_key s = (sg_reference s, sg_server s, sg_lifetime s)"

definition new_secret_grant :: "string \<Rightarrow> string \<Rightarrow> secret_lifetime \<Rightarrow> (secret_grant, grant_error) result" where
  "new_secret_grant reference server lifetime =
     (if \<not> is_ref_name reference then Inl (BadReference reference)
      else if trim server = [] then Inl (UnscopedSecret reference)
      else Inr \<lparr>sg_reference = reference, sg_server = server, sg_lifetime = lifetime\<rparr>)"

datatype policy_source = AbsentPolicy | PolicyDigest content_digest

record policy_provenance =
  pp_machine :: policy_source
  pp_project :: policy_source

record policy_grant =
  pg_ruleset :: compiled_ruleset
  pg_provenance :: policy_provenance

text \<open>Of a descriptor, the fields a grant reads; the registry maps an id to its descriptor.\<close>

record adapter_descriptor =
  ad_id :: string
  ad_source :: adapter_source
  ad_definition_digest :: "string option"

record granted_adapter =
  ga_descriptor :: adapter_descriptor
  ga_source :: adapter_source_identity
  ga_definition_digest :: content_digest

definition adapter_from_registry ::
  "(string \<Rightarrow> string option) \<Rightarrow> (string \<Rightarrow> adapter_descriptor option) \<Rightarrow> string \<Rightarrow> (granted_adapter, grant_error) result" where
  "adapter_from_registry canonicalize registry i =
     and_then (ok_or (UnknownAdapter i) (registry i)) (\<lambda>desc.
       and_then (ok_or (UnboundAdapter i) (ad_definition_digest desc)) (\<lambda>digest.
         and_then (parse_digest digest) (\<lambda>definition_digest.
           and_then
             (case ad_source desc of
                BuiltInAdapter \<Rightarrow> Inr BuiltInIdentity
              | UserAdapter p \<Rightarrow> and_then (new_grant_path canonicalize p) (\<lambda>g. Inr (UserIdentity g)))
             (\<lambda>source. Inr \<lparr>ga_descriptor = desc, ga_source = source, ga_definition_digest = definition_digest\<rparr>))))"

record harness_executable =
  he_path :: grant_path
  he_integrity :: harness_integrity

definition external_harness :: "grant_path \<Rightarrow> harness_executable" where
  "external_harness p = \<lparr>he_path = p, he_integrity = ExternalUnpinned\<rparr>"

record project_identity =
  pi_root :: grant_path
  pi_consent :: consent_digest

record invocation =
  iv_adapter :: granted_adapter
  iv_executable :: harness_executable
  iv_argv :: "string list"
  iv_cwd :: grant_path
  iv_profile :: profile_effect

record granted_skill =
  gk_path :: grant_path
  gk_origin :: input_origin
  gk_source :: skill_binding
  gk_checksum :: content_digest
  gk_provenance :: "string option"

record granted_instruction =
  gi_path :: grant_path
  gi_binding :: instruction_binding
  gi_targets :: "string list"

definition project_pinned :: "grant_path \<Rightarrow> content_digest \<Rightarrow> string list \<Rightarrow> granted_instruction" where
  "project_pinned p checksum targets =
     \<lparr>gi_path = p, gi_binding = ProjectPinned checksum, gi_targets = targets\<rparr>"

record granted_server =
  gs_server :: server
  gs_binding :: granted_server_binding

datatype server_origin = InlineOrigin | LibraryOrigin | PackageOrigin

record resolved_server =
  rs_name :: string
  rs_origin :: server_origin
  rs_server :: server
  rs_checksum :: string
  rs_provenance :: "string option"

definition server_from_resolved :: "resolved_server \<Rightarrow> (granted_server, grant_error) result" where
  "server_from_resolved resolved =
     and_then (parse_digest (rs_checksum resolved)) (\<lambda>d.
       Inr \<lparr>gs_server = rs_server resolved,
            gs_binding =
              (case rs_origin resolved of
                 InlineOrigin \<Rightarrow> InlineBinding d
               | LibraryOrigin \<Rightarrow> LibraryBinding d (rs_provenance resolved)
               | PackageOrigin \<Rightarrow> PackageBinding d (rs_provenance resolved))\<rparr>)"

record granted_executable =
  gx_path :: string
  gx_kind :: executable_kind
  gx_checksum :: content_digest
  gx_servers :: "string list"

record authority_grant =
  ag_schema :: grant_schema
  ag_project :: project_identity
  ag_invocation :: invocation
  ag_skills :: "(string, granted_skill) btree_map"
  ag_instructions :: "(string, granted_instruction) btree_map"
  ag_servers :: "(string, granted_server) btree_map"
  ag_executables :: "(string \<times> executable_kind, granted_executable) btree_map"
  ag_policy :: policy_grant
  ag_secrets :: "secret_grant list"
  ag_runtime :: runtime_image
  ag_posture :: grant_posture
  ag_egress :: egress_mode
  ag_workspace :: workspace_grant
  ag_artifacts :: artifact_mode

section \<open>The builder\<close>

record grant_builder =
  gb_project :: project_identity
  gb_invocation :: invocation
  gb_policy :: policy_grant
  gb_runtime :: runtime_image
  gb_posture :: grant_posture
  gb_egress :: egress_mode
  gb_artifacts :: artifact_mode
  gb_skills :: "(string, granted_skill) btree_map"
  gb_instructions :: "(string, granted_instruction) btree_map"
  gb_servers :: "(string, granted_server) btree_map"
  gb_executables :: "(string \<times> executable_kind, granted_executable) btree_map"
  gb_secrets :: "secret_grant list"

definition new_builder ::
  "project_identity \<Rightarrow> invocation \<Rightarrow> policy_grant \<Rightarrow> runtime_image \<Rightarrow> grant_posture \<Rightarrow> egress_mode \<Rightarrow> artifact_mode \<Rightarrow> grant_builder" where
  "new_builder project call policy runtime posture egress artifacts =
     \<lparr>gb_project = project, gb_invocation = call, gb_policy = policy, gb_runtime = runtime, gb_posture = posture,
      gb_egress = egress, gb_artifacts = artifacts, gb_skills = [], gb_instructions = [], gb_servers = [],
      gb_executables = [], gb_secrets = []\<rparr>"

definition insert_unique :: "string \<Rightarrow> string \<Rightarrow> 'v \<Rightarrow> (string, 'v) btree_map \<Rightarrow> ((string, 'v) btree_map, grant_error) result" where
  "insert_unique kind name v m =
     (if trim name = [] then Inl (EmptyName kind)
      else if name \<noteq> trim name then Inl (PaddedName kind name)
      else if map_of m name \<noteq> None then Inl (Duplicate kind name)
      else Inr (bt_insert name v m))"

definition add_skill :: "string \<Rightarrow> granted_skill \<Rightarrow> grant_builder \<Rightarrow> (grant_builder, grant_error) result" where
  "add_skill name s b = and_then (insert_unique ''skill'' name s (gb_skills b)) (\<lambda>m. Inr (b\<lparr>gb_skills := m\<rparr>))"

definition add_instruction :: "string \<Rightarrow> granted_instruction \<Rightarrow> grant_builder \<Rightarrow> (grant_builder, grant_error) result" where
  "add_instruction name i b =
     and_then (insert_unique ''instruction'' name i (gb_instructions b)) (\<lambda>m. Inr (b\<lparr>gb_instructions := m\<rparr>))"

definition add_server :: "string \<Rightarrow> granted_server \<Rightarrow> grant_builder \<Rightarrow> (grant_builder, grant_error) result" where
  "add_server name s b = and_then (insert_unique ''server'' name s (gb_servers b)) (\<lambda>m. Inr (b\<lparr>gb_servers := m\<rparr>))"

definition add_executable ::
  "string \<Rightarrow> executable_kind \<Rightarrow> content_digest \<Rightarrow> string \<Rightarrow> grant_builder \<Rightarrow> (grant_builder, grant_error) result" where
  "add_executable p kind checksum server b =
     (case map_of (gb_executables b) (p, kind) of
        None \<Rightarrow>
          Inr (b\<lparr>gb_executables := bt_insert (p, kind)
            \<lparr>gx_path = p, gx_kind = kind, gx_checksum = checksum, gx_servers = [server]\<rparr> (gb_executables b)\<rparr>)
      | Some exe \<Rightarrow>
          if gx_checksum exe \<noteq> checksum then Inl (ConflictingExecutable p)
          else Inr (b\<lparr>gb_executables := bt_insert (p, kind)
            (exe\<lparr>gx_servers := insort_insert server (gx_servers exe)\<rparr>) (gb_executables b)\<rparr>))"

definition add_secret :: "secret_grant \<Rightarrow> grant_builder \<Rightarrow> (grant_builder, grant_error) result" where
  "add_secret s b =
     (if list_ex (\<lambda>t. sg_reference t = sg_reference s \<and> sg_server t = sg_server s) (gb_secrets b)
      then Inl (DuplicateSecret (sg_reference s))
      else Inr (b\<lparr>gb_secrets := insort_insert_key secret_key s (gb_secrets b)\<rparr>))"

section \<open>Sealing\<close>

text \<open>A loop of checks that stops at the first error.\<close>

fun check_all :: "('a \<Rightarrow> (unit, 'e) result) \<Rightarrow> 'a list \<Rightarrow> (unit, 'e) result" where
  "check_all chk [] = Inr ()"
| "check_all chk (x # xs) = and_then (chk x) (\<lambda>_. check_all chk xs)"

definition require :: "'e \<Rightarrow> bool \<Rightarrow> (unit, 'e) result" where
  "require e ok = (if ok then Inr () else Inl e)"

definition supported_combination :: "grant_posture \<Rightarrow> runtime_image \<Rightarrow> egress_mode \<Rightarrow> bool" where
  "supported_combination p r e \<longleftrightarrow>
     (case (p, r, e) of
        (HostPosture, HostRuntime, Unconfined) \<Rightarrow> True
      | (Sandbox, Container _ _, ProxyAdvisory) \<Rightarrow> True
      | (Sandbox, Container _ _, NoNetwork) \<Rightarrow> True
      | (Lockdown, Container _ _, LockdownConfined) \<Rightarrow> True
      | _ \<Rightarrow> False)"

definition profile_named :: "profile_effect \<Rightarrow> bool" where
  "profile_named p \<longleftrightarrow>
     (case p of NoProfile \<Rightarrow> True | Temporary n _ \<Rightarrow> trim n \<noteq> [] | Kept n _ \<Rightarrow> trim n \<noteq> [] | Fenced n \<Rightarrow> trim n \<noteq> [])"

definition check_skill :: "string \<times> granted_skill \<Rightarrow> (unit, grant_error) result" where
  "check_skill e =
     (case e of (name, s) \<Rightarrow>
        case gk_source s of
          PathSource \<Rightarrow> Inr ()
        | GitSource r \<Rightarrow> require (EmptyRevision name) (trim r \<noteq> []))"

definition check_secret :: "grant_builder \<Rightarrow> secret_grant \<Rightarrow> (unit, grant_error) result" where
  "check_secret b s =
     (if sg_lifetime s \<noteq> UnboundLifetime then Inl (UnenforceableLifetime (sg_reference s))
      else case map_of (gb_servers b) (sg_server s) of
        None \<Rightarrow> Inl (UnknownSecretServer (sg_reference s) (sg_server s))
      | Some granted \<Rightarrow>
          require (UnreferencedSecret (sg_reference s) (sg_server s))
            (sg_reference s \<in> set (server_referenced_secrets (gs_server granted))))"

definition check_executable :: "grant_builder \<Rightarrow> (string \<times> executable_kind) \<times> granted_executable \<Rightarrow> (unit, grant_error) result" where
  "check_executable b e =
     (case e of ((p, _), exe) \<Rightarrow>
        check_all (\<lambda>server. require (UnknownExecutableServer p server) (map_of (gb_servers b) server \<noteq> None)) (gx_servers exe))"

definition check_roots :: "grant_builder \<Rightarrow> string \<times> granted_server \<Rightarrow> (unit, grant_error) result" where
  "check_roots b e =
     (case e of (name, granted) \<Rightarrow>
        check_all (\<lambda>root. require (UnpinnedRoot name root)
            (case map_of (gb_executables b) (normalize_declared root, RootPin) of
               None \<Rightarrow> False
             | Some exe \<Rightarrow> name \<in> set (gx_servers exe)))
          (sv_integrity_roots (gs_server granted)))"

definition build :: "grant_builder \<Rightarrow> (authority_grant, grant_error) result" where
  "build b =
     and_then (require (UnsupportedCombination (posture_slug (gb_posture b)) (runtime_slug (gb_runtime b)) (egress_slug (gb_egress b)))
                (supported_combination (gb_posture b) (gb_runtime b) (gb_egress b))) (\<lambda>_.
     and_then (case gb_runtime b of
                 HostRuntime \<Rightarrow> Inr ()
               | Container reference _ \<Rightarrow> require EmptyImageReference (trim reference \<noteq> [])) (\<lambda>_.
     and_then (require EmptyToolset (profile_named (iv_profile (gb_invocation b)))) (\<lambda>_.
     and_then (check_all check_skill (gb_skills b)) (\<lambda>_.
     and_then (check_all (check_secret b) (gb_secrets b)) (\<lambda>_.
     and_then (check_all (check_executable b) (gb_executables b)) (\<lambda>_.
     and_then (check_all (check_roots b) (gb_servers b)) (\<lambda>_.
       Inr \<lparr>ag_schema = V1, ag_project = gb_project b, ag_invocation = gb_invocation b, ag_skills = gb_skills b,
            ag_instructions = gb_instructions b, ag_servers = gb_servers b, ag_executables = gb_executables b,
            ag_policy = gb_policy b, ag_secrets = gb_secrets b, ag_runtime = gb_runtime b, ag_posture = gb_posture b,
            ag_egress = gb_egress b, ag_workspace = UnboundWorkspace, ag_artifacts = gb_artifacts b\<rparr>)))))))"

section \<open>What the builder keeps\<close>

lemma check_all_Inr [simp]: "check_all chk xs = Inr () \<longleftrightarrow> (\<forall>x \<in> set xs. chk x = Inr ())"
  by (induction xs) (auto simp: and_then_Inr)

lemma require_Inr [simp]: "require e ok = Inr u \<longleftrightarrow> ok"
  by (simp add: require_def)

definition proper_name :: "string \<Rightarrow> bool" where
  "proper_name n \<longleftrightarrow> n \<noteq> [] \<and> trim n = n"

lemma insert_unique_Inr:
  "insert_unique kind name v m = Inr m' \<longleftrightarrow> proper_name name \<and> map_of m name = None \<and> m' = bt_insert name v m"
  by (auto simp: insert_unique_def proper_name_def)

text \<open>
  The invariant of the entries added one by one: every map is in key order under proper names, an executable entry
  carries its own key and a non-empty set of servers, and no secret is granted twice to one server.
\<close>

definition named_map :: "(string, 'v) btree_map \<Rightarrow> bool" where
  "named_map m \<longleftrightarrow> bt_ordered m \<and> (\<forall>(n, v) \<in> set m. proper_name n)"

definition exe_map :: "(string \<times> executable_kind, granted_executable) btree_map \<Rightarrow> bool" where
  "exe_map m \<longleftrightarrow> bt_ordered m \<and>
     (\<forall>(k, e) \<in> set m. (gx_path e, gx_kind e) = k \<and> gx_servers e \<noteq> [] \<and> sorted_wrt (<) (gx_servers e))"

definition secret_set :: "secret_grant list \<Rightarrow> bool" where
  "secret_set ss \<longleftrightarrow> sorted_wrt (<) (map secret_key ss) \<and> distinct (map (\<lambda>s. (sg_reference s, sg_server s)) ss)"

definition builder_ok :: "grant_builder \<Rightarrow> bool" where
  "builder_ok b \<longleftrightarrow>
     named_map (gb_skills b) \<and> named_map (gb_instructions b) \<and> named_map (gb_servers b) \<and>
     exe_map (gb_executables b) \<and> secret_set (gb_secrets b)"

lemma bt_insert_set: "set (bt_insert k v m) \<subseteq> insert (k, v) (set m)"
  by (induction k v m rule: bt_insert.induct) auto

lemma named_map_insert: "named_map m \<Longrightarrow> proper_name n \<Longrightarrow> named_map (bt_insert n v m)"
  using bt_insert_set [of n v m] by (auto simp: named_map_def)

lemma exe_map_insert:
  "exe_map m \<Longrightarrow> (gx_path e, gx_kind e) = k \<Longrightarrow> gx_servers e \<noteq> [] \<Longrightarrow> sorted_wrt (<) (gx_servers e) \<Longrightarrow> exe_map (bt_insert k e m)"
  using bt_insert_set [of k e m] by (auto simp: exe_map_def)

lemma insort_insert_strict: "sorted_wrt (<) xs \<Longrightarrow> sorted_wrt (<) (insort_insert x xs)" for x :: "'a::linorder"
  by (simp add: strict_sorted_iff sorted_insort_insert distinct_insort_insert)

lemma secret_set_insert:
  assumes "secret_set ss" "\<forall>t \<in> set ss. \<not> (sg_reference t = sg_reference s \<and> sg_server t = sg_server s)"
  shows "secret_set (insort_insert_key secret_key s ss)"
proof -
  have n: "secret_key s \<notin> secret_key ` set ss" using assms(2) by (auto simp: secret_key_def)
  then have e: "insort_insert_key secret_key s ss = insort_key secret_key s ss" by (simp add: insort_insert_key_def)
  have "sorted (map secret_key (insort_key secret_key s ss))"
    using assms(1) by (simp add: sorted_insort_key secret_set_def strict_sorted_iff)
  moreover have "distinct (map secret_key (insort_key secret_key s ss))"
    using assms(1) n by (auto simp: secret_set_def strict_sorted_iff distinct_map distinct_insort set_insort_key)
  moreover have "distinct (map (\<lambda>s. (sg_reference s, sg_server s)) (insort_key secret_key s ss))"
    using assms by (auto simp: secret_set_def distinct_map distinct_insort set_insort_key inj_on_def)
  ultimately show ?thesis by (simp add: e secret_set_def strict_sorted_iff)
qed

text \<open>The operations a caller may apply, in any order; a refused one leaves the builder as it was.\<close>

datatype builder_op =
    AddSkill string granted_skill
  | AddInstruction string granted_instruction
  | AddServer string granted_server
  | AddExecutable string executable_kind content_digest string
  | AddSecret secret_grant

fun apply_builder_op :: "builder_op \<Rightarrow> grant_builder \<Rightarrow> (grant_builder, grant_error) result" where
  "apply_builder_op (AddSkill n s) b = add_skill n s b"
| "apply_builder_op (AddInstruction n i) b = add_instruction n i b"
| "apply_builder_op (AddServer n s) b = add_server n s b"
| "apply_builder_op (AddExecutable p k d s) b = add_executable p k d s b"
| "apply_builder_op (AddSecret s) b = add_secret s b"

definition exec_builder :: "builder_op list \<Rightarrow> grant_builder \<Rightarrow> grant_builder" where
  "exec_builder ops b = fold (\<lambda>oper b. case apply_builder_op oper b of Inl _ \<Rightarrow> b | Inr b' \<Rightarrow> b') ops b"

lemma builder_ok_new: "builder_ok (new_builder project call policy runtime posture egress artifacts)"
  by (simp add: builder_ok_def new_builder_def named_map_def exe_map_def secret_set_def)

lemma builder_op_ok: "builder_ok b \<Longrightarrow> apply_builder_op oper b = Inr b' \<Longrightarrow> builder_ok b'"
proof (induction oper b rule: apply_builder_op.induct)
  case (4 p k d s b)
  show ?case
  proof (cases "map_of (gb_executables b) (p, k)")
    case None
    with 4 show ?thesis by (auto simp: add_executable_def builder_ok_def intro!: exe_map_insert)
  next
    case (Some e)
    then have "((p, k), e) \<in> set (gb_executables b)" by (rule map_of_SomeD)
    then have "(gx_path e, gx_kind e) = (p, k)" "sorted_wrt (<) (gx_servers e)"
      using 4(1) by (auto simp: builder_ok_def exe_map_def)
    moreover have "insort_insert s (gx_servers e) \<noteq> []" using set_insort_insert [of s "gx_servers e"] by auto
    ultimately show ?thesis using 4 Some
      by (auto simp: add_executable_def builder_ok_def insort_insert_strict set_insort_insert intro!: exe_map_insert
        split: if_splits)
  qed
next
  case (5 s b)
  then show ?case by (auto simp: add_secret_def builder_ok_def list_ex_iff intro!: secret_set_insert split: if_splits)
qed (auto simp: add_skill_def add_instruction_def add_server_def insert_unique_Inr and_then_Inr builder_ok_def named_map_insert)

lemma exec_builder_ok: "builder_ok b \<Longrightarrow> builder_ok (exec_builder ops b)"
  unfolding exec_builder_def by (induction ops arbitrary: b) (auto simp: builder_op_ok split: sum.splits)

text \<open>What sealing asks, and that it asks nothing else.\<close>

definition root_tied :: "(string \<times> executable_kind, granted_executable) btree_map \<Rightarrow> string \<Rightarrow> string \<Rightarrow> bool" where
  "root_tied exes name root \<longleftrightarrow>
     (\<exists>e. map_of exes (normalize_declared root, RootPin) = Some e \<and> name \<in> set (gx_servers e))"

definition grant_ok :: "authority_grant \<Rightarrow> bool" where
  "grant_ok g \<longleftrightarrow>
     supported_combination (ag_posture g) (ag_runtime g) (ag_egress g) \<and>
     (\<forall>r i. ag_runtime g = Container r i \<longrightarrow> trim r \<noteq> []) \<and>
     profile_named (iv_profile (ag_invocation g)) \<and>
     (\<forall>(n, s) \<in> set (ag_skills g). \<forall>r. gk_source s = GitSource r \<longrightarrow> trim r \<noteq> []) \<and>
     (\<forall>s \<in> set (ag_secrets g). sg_lifetime s = UnboundLifetime \<and>
        (\<exists>server. map_of (ag_servers g) (sg_server s) = Some server \<and>
           sg_reference s \<in> set (server_referenced_secrets (gs_server server)))) \<and>
     (\<forall>(k, e) \<in> set (ag_executables g). set (gx_servers e) \<subseteq> fst ` set (ag_servers g)) \<and>
     (\<forall>(n, s) \<in> set (ag_servers g). \<forall>r \<in> set (sv_integrity_roots (gs_server s)). root_tied (ag_executables g) n r)"

definition sealed :: "grant_builder \<Rightarrow> authority_grant" where
  "sealed b =
     \<lparr>ag_schema = V1, ag_project = gb_project b, ag_invocation = gb_invocation b, ag_skills = gb_skills b,
      ag_instructions = gb_instructions b, ag_servers = gb_servers b, ag_executables = gb_executables b,
      ag_policy = gb_policy b, ag_secrets = gb_secrets b, ag_runtime = gb_runtime b, ag_posture = gb_posture b,
      ag_egress = gb_egress b, ag_workspace = UnboundWorkspace, ag_artifacts = gb_artifacts b\<rparr>"

lemma check_skill_Inr: "check_skill (n, s) = Inr () \<longleftrightarrow> (\<forall>r. gk_source s = GitSource r \<longrightarrow> trim r \<noteq> [])"
  by (auto simp: check_skill_def split: skill_binding.splits)

lemma check_secret_Inr:
  "check_secret b s = Inr () \<longleftrightarrow> sg_lifetime s = UnboundLifetime \<and>
     (\<exists>server. map_of (gb_servers b) (sg_server s) = Some server \<and>
        sg_reference s \<in> set (server_referenced_secrets (gs_server server)))"
  by (auto simp: check_secret_def split: option.splits)

lemma check_executable_Inr: "check_executable b (k, e) = Inr () \<longleftrightarrow> set (gx_servers e) \<subseteq> fst ` set (gb_servers b)"
  by (cases k) (auto simp: check_executable_def map_of_eq_None_iff)

lemma check_roots_Inr:
  "check_roots b (n, s) = Inr () \<longleftrightarrow> (\<forall>r \<in> set (sv_integrity_roots (gs_server s)). root_tied (gb_executables b) n r)"
  by (auto simp: check_roots_def root_tied_def split: option.splits)

lemma build_Inr: "build b = Inr g \<longleftrightarrow> g = sealed b \<and> grant_ok (sealed b)"
proof -
  have image: "(case gb_runtime b of HostRuntime \<Rightarrow> Inr () | Container r _ \<Rightarrow> require EmptyImageReference (trim r \<noteq> [])) = Inr ()
      \<longleftrightarrow> (\<forall>r i. gb_runtime b = Container r i \<longrightarrow> trim r \<noteq> [])"
    by (cases "gb_runtime b") auto
  have checks: "(\<forall>x \<in> set (gb_skills b). check_skill x = Inr ()) \<longleftrightarrow> (\<forall>(n, s) \<in> set (gb_skills b). \<forall>r. gk_source s = GitSource r \<longrightarrow> trim r \<noteq> [])"
    "(\<forall>x \<in> set (gb_executables b). check_executable b x = Inr ()) \<longleftrightarrow>
      (\<forall>(k, e) \<in> set (gb_executables b). set (gx_servers e) \<subseteq> fst ` set (gb_servers b))"
    "(\<forall>x \<in> set (gb_servers b). check_roots b x = Inr ()) \<longleftrightarrow>
      (\<forall>(n, s) \<in> set (gb_servers b). \<forall>r \<in> set (sv_integrity_roots (gs_server s)). root_tied (gb_executables b) n r)"
    by (rule ball_cong [OF refl], simp add: check_skill_Inr check_executable_Inr check_roots_Inr split: prod.splits)+
  show ?thesis
    unfolding build_def and_then_Inr
    by (simp add: image checks check_secret_Inr grant_ok_def sealed_def) blast
qed

section \<open>Properties\<close>

text \<open>C27.
  Whatever is added to a builder, in any order, a grant that it seals is well formed: every map is in key order under
  trimmed, non-empty names, the confinement is one of the four supported combinations, every secret names a granted
  server that references it and is granted to it once, every executable is tied to granted servers only, and every
  integrity root a granted server declares is pinned for that server.\<close>

theorem grant_well_formed:
  assumes "build (exec_builder ops (new_builder project call policy runtime posture egress artifacts)) = Inr g"
  shows "grant_ok g \<and> named_map (ag_skills g) \<and> named_map (ag_instructions g) \<and> named_map (ag_servers g) \<and>
    exe_map (ag_executables g) \<and> secret_set (ag_secrets g)"
proof -
  let ?b = "exec_builder ops (new_builder project call policy runtime posture egress artifacts)"
  have "builder_ok ?b" by (rule exec_builder_ok [OF builder_ok_new])
  then show ?thesis using assms unfolding build_Inr by (simp add: builder_ok_def sealed_def)
qed

definition digest_a :: sha256_hex where
  "digest_a = Sha256Hex (replicate 64 (CHR ''a''))"

definition sample_granted :: granted_server where
  "sample_granted =
     \<lparr>gs_server =
        \<lparr>sv_type = Stdio, sv_url = None, sv_command = Some ''run'', sv_args = [], sv_cwd = None,
         sv_integrity_roots = [''./tools''], sv_targets = [], sv_owner = None, sv_headers = [],
         sv_env = [(''T'', ''${TOKEN}'')], sv_extra = []\<rparr>,
      gs_binding = InlineBinding digest_a\<rparr>"

definition sample_call :: invocation where
  "sample_call =
     \<lparr>iv_adapter = \<lparr>ga_descriptor = \<lparr>ad_id = ''cli'', ad_source = BuiltInAdapter, ad_definition_digest = Some (hex digest_a)\<rparr>,
        ga_source = BuiltInIdentity, ga_definition_digest = digest_a\<rparr>,
      iv_executable = external_harness (GrantPath ''/bin/cli''), iv_argv = [''-p''], iv_cwd = GrantPath ''/p'',
      iv_profile = NoProfile\<rparr>"

definition sample_builder :: "egress_mode \<Rightarrow> grant_builder" where
  "sample_builder egress =
     new_builder \<lparr>pi_root = GrantPath ''/p'', pi_consent = digest_a\<rparr> sample_call
       \<lparr>pg_ruleset = default_ruleset, pg_provenance = \<lparr>pp_machine = AbsentPolicy, pp_project = AbsentPolicy\<rparr>\<rparr>
       (Container ''img'' UnboundImage) Lockdown egress StaticArtifacts"

definition sample_secret :: secret_grant where
  "sample_secret = \<lparr>sg_reference = ''TOKEN'', sg_server = ''srv'', sg_lifetime = UnboundLifetime\<rparr>"

definition sample_ops :: "builder_op list" where
  "sample_ops = [AddSecret sample_secret, AddSecret sample_secret, AddServer '' srv'' sample_granted,
     AddServer ''srv'' sample_granted, AddExecutable ''tools'' RootPin digest_a ''srv'']"

text \<open>
  A grant that seals, in which the repeated secret and the padded name left nothing; the same entries with the
  egress of another posture, and without the root's pin, do not.\<close>

theorem grant_well_formed_witness:
  "(\<exists>g. build (exec_builder sample_ops (sample_builder LockdownConfined)) = Inr g \<and> grant_ok g \<and>
      map fst (ag_servers g) = [''srv''] \<and> ag_secrets g = [sample_secret]) \<and>
   build (exec_builder sample_ops (sample_builder Unconfined)) = Inl (UnsupportedCombination ''lockdown'' ''container'' ''unconfined'') \<and>
   build (exec_builder (butlast sample_ops) (sample_builder LockdownConfined)) = Inl (UnpinnedRoot ''srv'' ''./tools'')"
proof -
  let ?b = "exec_builder sample_ops (sample_builder LockdownConfined)"
  have ok: "is_ok (map_err (\<lambda>_. ()) (and_then (build ?b) (\<lambda>g. Inr ())))" by code_simp
  then obtain g where g: "build ?b = Inr g" by (auto simp: and_then_Inr)
  have "grant_ok g" using grant_well_formed g unfolding sample_builder_def by blast
  moreover have "map fst (ag_servers g) = map fst (gb_servers ?b)" "ag_secrets g = gb_secrets ?b"
    using g unfolding build_Inr by (simp_all add: sealed_def)
  moreover have "map fst (gb_servers ?b) = [''srv''] \<and> gb_secrets ?b = [sample_secret]" by code_simp
  moreover have "result_err (build (exec_builder sample_ops (sample_builder Unconfined)))
      = Some (UnsupportedCombination ''lockdown'' ''container'' ''unconfined'') \<and>
    result_err (build (exec_builder (butlast sample_ops) (sample_builder LockdownConfined))) = Some (UnpinnedRoot ''srv'' ''./tools'')"
    by code_simp
  moreover from this have "build (exec_builder sample_ops (sample_builder Unconfined))
      = Inl (UnsupportedCombination ''lockdown'' ''container'' ''unconfined'') \<and>
    build (exec_builder (butlast sample_ops) (sample_builder LockdownConfined)) = Inl (UnpinnedRoot ''srv'' ''./tools'')"
    by (simp only: result_err_Some)
  ultimately show ?thesis using g by auto
qed

end
