(* ===== verification/Grant_Digest.thy ===== *)
theory Grant_Digest
  imports Grant
begin

text \<open>
  The canonical digest of a run grant and the keyed commitment to its argument vector (crates/cli/src/grant.rs).
  The encoder emits tagged values in a fixed order, each framed by its length; what it emits is the list of those
  pairs, and the stream that is hashed is their framing. SHA-256, HMAC-SHA256 and the JSON text of the compiled
  ruleset are parameters.
\<close>

section \<open>The argument commitment\<close>

definition ARGV_COMMIT_DOMAIN :: string where
  "ARGV_COMMIT_DOMAIN = ''agentstack-argv-commit-v1'' @ [CHR 0x00]"

definition argv_bytes :: "string list \<Rightarrow> string" where
  "argv_bytes argv = ARGV_COMMIT_DOMAIN @ le64 (length argv) @ concat (map framed argv)"

definition commit_argv :: "(string \<Rightarrow> string \<Rightarrow> string) \<Rightarrow> string \<Rightarrow> string list \<Rightarrow> string" where
  "commit_argv hmac key argv = hmac key (argv_bytes argv)"

section \<open>The encoder\<close>

type_synonym fields = "(string \<times> string) list"

definition GRANT_DIGEST_DOMAIN :: string where
  "GRANT_DIGEST_DOMAIN = ''agentstack-authority-grant-v1'' @ [CHR 0x00]"

definition opt_text :: "string option \<Rightarrow> string" where
  "opt_text v = (case v of None \<Rightarrow> [CHR 0x00] | Some s \<Rightarrow> CHR 0x01 # s)"

definition counted :: "string \<Rightarrow> ('a \<Rightarrow> fields) \<Rightarrow> 'a list \<Rightarrow> fields" where
  "counted tag enc xs = (tag, le64 (length xs)) # concat (map enc xs)"

definition encoded :: "fields \<Rightarrow> string" where
  "encoded fs = GRANT_DIGEST_DOMAIN @ framed_files fs"

definition finish :: "(string \<Rightarrow> string) \<Rightarrow> fields \<Rightarrow> (grant_digest, grant_error) result" where
  "finish sha256 fs = map_err (\<lambda>_. DigestPanic) (parse_sha256 (sha256 (encoded fs)))"

section \<open>What a grant emits\<close>

fun adapter_source_fields :: "adapter_source_identity \<Rightarrow> fields" where
  "adapter_source_fields BuiltInIdentity = [(''adapter.source'', ''builtin'')]"
| "adapter_source_fields (UserIdentity p) = [(''adapter.source'', ''user''), (''adapter.source.path'', path_str p)]"

fun profile_fields :: "profile_effect \<Rightarrow> fields" where
  "profile_fields NoProfile = [(''profile'', ''none'')]"
| "profile_fields (Fenced n) = [(''profile'', ''fenced''), (''profile.name'', n)]"
| "profile_fields (Temporary n sc) = [(''profile'', ''temporary''), (''profile.name'', n), (''profile.scope'', scope_str sc)]"
| "profile_fields (Kept n sc) = [(''profile'', ''kept''), (''profile.name'', n), (''profile.scope'', scope_str sc)]"

definition invocation_fields :: "(string \<Rightarrow> string \<Rightarrow> string) \<Rightarrow> string \<Rightarrow> invocation \<Rightarrow> fields" where
  "invocation_fields hmac key call =
     (''adapter.id'', ad_id (ga_descriptor (iv_adapter call))) # adapter_source_fields (ga_source (iv_adapter call)) @
     [(''adapter.definition'', hex (ga_definition_digest (iv_adapter call))),
      (''harness.path'', path_str (he_path (iv_executable call))),
      (''harness.integrity'', case he_integrity (iv_executable call) of ExternalUnpinned \<Rightarrow> ''external-unpinned''),
      (''argv.commitment'', commit_argv hmac key (iv_argv call)),
      (''cwd'', path_str (iv_cwd call))] @
     profile_fields (iv_profile call)"

fun skill_source_fields :: "skill_binding \<Rightarrow> fields" where
  "skill_source_fields PathSource = [(''skill.source'', ''path'')]"
| "skill_source_fields (GitSource r) = [(''skill.source'', ''git''), (''skill.revision'', r)]"

definition skill_fields :: "string \<times> granted_skill \<Rightarrow> fields" where
  "skill_fields e =
     (case e of (name, s) \<Rightarrow>
        [(''skill.name'', name), (''skill.path'', path_str (gk_path s)),
         (''skill.origin'', case gk_origin s of InlineInput \<Rightarrow> ''inline'' | LibraryInput \<Rightarrow> ''library'')] @
        skill_source_fields (gk_source s) @
        [(''skill.checksum'', hex (gk_checksum s)), (''skill.provenance'', opt_text (gk_provenance s))])"

fun binding_fields :: "instruction_binding \<Rightarrow> fields" where
  "binding_fields (MachineOwned d) = [(''instruction.binding'', ''machine-owned''), (''instruction.checksum'', hex d)]"
| "binding_fields (ProjectPinned d) = [(''instruction.binding'', ''project-pinned''), (''instruction.checksum'', hex d)]"

definition instruction_fields :: "string \<times> granted_instruction \<Rightarrow> fields" where
  "instruction_fields e =
     (case e of (name, i) \<Rightarrow>
        [(''instruction.name'', name), (''instruction.path'', path_str (gi_path i))] @ binding_fields (gi_binding i) @
        counted ''instruction.targets'' (\<lambda>t. [(''instruction.target'', t)]) (gi_targets i))"

fun server_binding_fields :: "granted_server_binding \<Rightarrow> fields" where
  "server_binding_fields (InlineBinding d) = [(''server.binding'', ''inline''), (''server.definition'', hex d)]"
| "server_binding_fields (LibraryBinding d p) =
     [(''server.binding'', ''library''), (''server.definition'', hex d), (''server.provenance'', opt_text p)]"
| "server_binding_fields (PackageBinding d p) =
     [(''server.binding'', ''package''), (''server.definition'', hex d), (''server.provenance'', opt_text p)]"

definition server_fields :: "string \<times> granted_server \<Rightarrow> fields" where
  "server_fields e = (case e of (name, s) \<Rightarrow> (''server.name'', name) # server_binding_fields (gs_binding s))"

definition executable_fields :: "(string \<times> executable_kind) \<times> granted_executable \<Rightarrow> fields" where
  "executable_fields e =
     (case e of ((p, kind), exe) \<Rightarrow>
        [(''executable.path'', p), (''executable.kind'', case kind of FilePin \<Rightarrow> ''file'' | RootPin \<Rightarrow> ''root''),
         (''executable.checksum'', hex (gx_checksum exe))] @
        counted ''executable.servers'' (\<lambda>s. [(''executable.server'', s)]) (gx_servers exe))"

definition policy_source_fields :: "string \<Rightarrow> policy_source \<Rightarrow> fields" where
  "policy_source_fields tag source =
     (case source of
        AbsentPolicy \<Rightarrow> [(tag, ''absent'')]
      | PolicyDigest d \<Rightarrow> [(tag, ''digest''), (tag @ ''.checksum'', hex d)])"

definition secret_fields :: "secret_grant \<Rightarrow> fields" where
  "secret_fields s =
     [(''secret.reference'', sg_reference s), (''secret.scope.server'', sg_server s),
      (''secret.lifetime'', case sg_lifetime s of UnboundLifetime \<Rightarrow> ''unbound'' | RunScoped \<Rightarrow> ''run-scoped'')]"

fun image_fields :: "image_binding \<Rightarrow> fields" where
  "image_fields UnboundImage = [(''runtime.image.binding'', ''unbound'')]"
| "image_fields (PinnedImage d) = [(''runtime.image.binding'', ''pinned''), (''runtime.image.checksum'', hex d)]"

fun runtime_fields :: "runtime_image \<Rightarrow> fields" where
  "runtime_fields HostRuntime = [(''runtime'', ''host'')]"
| "runtime_fields (Container r i) = (''runtime'', ''container'') # (''runtime.image'', r) # image_fields i"

definition grant_fields ::
  "(string \<Rightarrow> string \<Rightarrow> string) \<Rightarrow> (compiled_ruleset \<Rightarrow> string option) \<Rightarrow> string \<Rightarrow> authority_grant \<Rightarrow> (fields, grant_error) result" where
  "grant_fields hmac ruleset_json key g =
     and_then (ok_or RulesetEncoding (ruleset_json (pg_ruleset (ag_policy g)))) (\<lambda>ruleset. Inr (
       [(''schema'', schema_slug (ag_schema g)), (''project.root'', path_str (pi_root (ag_project g))),
        (''project.consent'', hex (pi_consent (ag_project g)))] @
       invocation_fields hmac key (ag_invocation g) @
       counted ''skills'' skill_fields (ag_skills g) @
       counted ''instructions'' instruction_fields (ag_instructions g) @
       counted ''servers'' server_fields (ag_servers g) @
       counted ''executables'' executable_fields (ag_executables g) @
       [(''policy.ruleset'', ruleset)] @
       policy_source_fields ''policy.machine'' (pp_machine (pg_provenance (ag_policy g))) @
       policy_source_fields ''policy.project'' (pp_project (pg_provenance (ag_policy g))) @
       counted ''secrets'' secret_fields (ag_secrets g) @
       runtime_fields (ag_runtime g) @
       [(''posture'', posture_slug (ag_posture g)), (''egress'', egress_slug (ag_egress g)),
        (''workspace'', workspace_slug (ag_workspace g)), (''artifacts'', artifact_slug (ag_artifacts g))]))"

definition grant_digest ::
  "(string \<Rightarrow> string) \<Rightarrow> (string \<Rightarrow> string \<Rightarrow> string) \<Rightarrow> (compiled_ruleset \<Rightarrow> string option) \<Rightarrow> string \<Rightarrow> authority_grant \<Rightarrow>
     (grant_digest, grant_error) result" where
  "grant_digest sha256 hmac ruleset_json key g = and_then (grant_fields hmac ruleset_json key g) (finish sha256)"

section \<open>Self-delimiting encodings\<close>

text \<open>
  An encoding that can be followed by anything: from the front of a sequence of less than \<open>2 ^ 64\<close> elements one can
  tell what was encoded (as far as \<open>view\<close> shows it) and where the encoding ends.
\<close>

locale self_delimiting =
  fixes enc :: "'a \<Rightarrow> 'c list" and view :: "'a \<Rightarrow> 'v"
  assumes nonempty: "enc a \<noteq> []"
    and decode: "enc a @ r = enc b @ s \<Longrightarrow> length (enc a @ r) < 2 ^ 64 \<Longrightarrow> view a = view b \<and> r = s"
begin

lemma length_le: "length xs \<le> length (concat (map enc xs))"
proof (induction xs)
  case (Cons x xs)
  then show ?case using nonempty [of x] by (cases "enc x") auto
qed simp

lemma sequence:
  "length xs = length ys \<Longrightarrow> concat (map enc xs) @ r = concat (map enc ys) @ s \<Longrightarrow>
   length (concat (map enc xs) @ r) < 2 ^ 64 \<Longrightarrow> map view xs = map view ys \<and> r = s"
proof (induction xs ys rule: list_induct2)
  case (Cons x xs y ys)
  have "view x = view y \<and> concat (map enc xs) @ r = concat (map enc ys) @ s"
    by (rule decode) (use Cons.prems in auto)
  moreover have "length (concat (map enc xs) @ r) < 2 ^ 64" using Cons.prems(2) by simp
  ultimately show ?case using Cons.IH by simp
qed simp

end

locale self_delimiting_fields = self_delimiting enc view
  for enc :: "'a \<Rightarrow> (string \<times> string) list" and view :: "'a \<Rightarrow> 'v"
begin

lemma counted:
  assumes "counted tag enc xs @ r = counted tag enc ys @ s" "length (counted tag enc xs @ r) < 2 ^ 64"
  shows "map view xs = map view ys \<and> r = s"
proof -
  from assms(1) have c: "le64 (length xs) = le64 (length ys)" "concat (map enc xs) @ r = concat (map enc ys) @ s"
    by (simp_all add: counted_def)
  have x: "length (concat (map enc xs) @ r) < 2 ^ 64" using assms(2) by (simp add: counted_def)
  then have "length xs < 2 ^ 64" "length ys < 2 ^ 64"
    using length_le [of xs] length_le [of ys] arg_cong [OF c(2), of length] by simp_all
  with c(1) have "length xs = length ys" by (rule le64_inj)
  then show ?thesis using c(2) x by (rule sequence)
qed

end

interpretation framed_texts: self_delimiting framed id
proof
  fix a b r s :: string
  show "framed a \<noteq> []" by (simp add: framed_def le64_def)
  assume e: "framed a @ r = framed b @ s" and l: "length (framed a @ r) < 2 ^ 64"
  have "length a < 2 ^ 64" "length b < 2 ^ 64" using l arg_cong [OF e, of length] by (simp_all add: framed_def)
  with framed_inj [OF e] show "id a = id b \<and> r = s" by simp
qed

interpretation tagged: self_delimiting_fields "\<lambda>t. [(tag, t)]" id for tag
  by unfold_locales auto

lemma opt_text_inj [simp]: "opt_text a = opt_text b \<longleftrightarrow> a = b"
  by (cases a; cases b) (auto simp: opt_text_def)

lemma hex_inj [simp]: "hex a = hex b \<longleftrightarrow> a = b"
  by (cases a; cases b) simp

lemma path_str_inj [simp]: "path_str a = path_str b \<longleftrightarrow> a = b"
  by (cases a; cases b) simp

lemma scope_str_inj [simp]: "scope_str a = scope_str b \<longleftrightarrow> a = b"
  by (cases a; cases b) simp_all

lemma posture_slug_inj [simp]: "posture_slug a = posture_slug b \<longleftrightarrow> a = b"
  by (cases a; cases b) simp_all

lemma egress_slug_inj [simp]: "egress_slug a = egress_slug b \<longleftrightarrow> a = b"
  by (cases a; cases b) simp_all

lemma artifact_slug_inj [simp]: "artifact_slug a = artifact_slug b \<longleftrightarrow> a = b"
  by (cases a; cases b) simp_all

lemma one_workspace [simp]: "(a :: workspace_grant) = b"
  by (cases a; cases b) simp

lemma one_schema [simp]: "(a :: grant_schema) = b"
  by (cases a; cases b) simp

lemma one_integrity [simp]: "(a :: harness_integrity) = b"
  by (cases a; cases b) simp

lemma adapter_source_decode: "adapter_source_fields a @ r = adapter_source_fields b @ s \<Longrightarrow> a = b \<and> r = s"
  by (cases a; cases b) auto

lemma profile_decode: "profile_fields a @ r = profile_fields b @ s \<Longrightarrow> a = b \<and> r = s"
  by (cases a; cases b) auto

lemma skill_source_decode: "skill_source_fields a @ r = skill_source_fields b @ s \<Longrightarrow> a = b \<and> r = s"
  by (cases a; cases b) auto

lemma binding_decode: "binding_fields a @ r = binding_fields b @ s \<Longrightarrow> a = b \<and> r = s"
  by (cases a; cases b) auto

lemma server_binding_decode: "server_binding_fields a @ r = server_binding_fields b @ s \<Longrightarrow> a = b \<and> r = s"
  by (cases a; cases b) auto

lemma policy_source_decode: "policy_source_fields t a @ r = policy_source_fields t b @ s \<Longrightarrow> a = b \<and> r = s"
  by (cases a; cases b) (auto simp: policy_source_fields_def)

lemma image_decode: "image_fields a @ r = image_fields b @ s \<Longrightarrow> a = b \<and> r = s"
  by (cases a; cases b) auto

lemma runtime_decode: "runtime_fields a @ r = runtime_fields b @ s \<Longrightarrow> a = b \<and> r = s"
  by (cases a; cases b) (auto dest: image_decode)

interpretation skills: self_delimiting_fields skill_fields id
proof
  fix a b :: "string \<times> granted_skill" and r s
  show "skill_fields a \<noteq> []" by (cases a) (simp add: skill_fields_def)
  assume "skill_fields a @ r = skill_fields b @ s"
  moreover obtain m u where a: "a = (m, u)" by fastforce
  moreover obtain n v where b: "b = (n, v)" by fastforce
  ultimately show "id a = id b \<and> r = s"
    by (cases u; cases v; cases "gk_origin u"; cases "gk_origin v")
       (auto simp: skill_fields_def dest!: skill_source_decode)
qed

interpretation instructions: self_delimiting_fields instruction_fields id
proof
  fix a b :: "string \<times> granted_instruction" and r s
  show "instruction_fields a \<noteq> []" by (cases a) (simp add: instruction_fields_def)
  assume e: "instruction_fields a @ r = instruction_fields b @ s" and l: "length (instruction_fields a @ r) < 2 ^ 64"
  obtain m u n v where ab: "a = (m, u)" "b = (n, v)" by fastforce
  let ?c = "\<lambda>i. counted ''instruction.targets'' (\<lambda>t. [(''instruction.target'', t)]) (gi_targets i)"
  from e have mn: "m = n" "gi_path u = gi_path v" and "gi_binding u = gi_binding v \<and> ?c u @ r = ?c v @ s"
    by (auto simp: ab instruction_fields_def dest!: binding_decode)
  with l tagged.counted [of "''instruction.targets''" "''instruction.target''" "gi_targets u" r "gi_targets v" s]
  show "id a = id b \<and> r = s"
    by (cases u; cases v) (simp add: ab instruction_fields_def)
qed

interpretation servers: self_delimiting_fields server_fields "\<lambda>(n, s). (n, gs_binding s)"
  by unfold_locales (auto simp: server_fields_def dest!: server_binding_decode split: prod.splits)

interpretation executables: self_delimiting_fields executable_fields "\<lambda>(k, e). (k, gx_checksum e, gx_servers e)"
proof
  fix a b :: "(string \<times> executable_kind) \<times> granted_executable" and r s
  show "executable_fields a \<noteq> []" by (auto simp: executable_fields_def split: prod.splits)
  assume e: "executable_fields a @ r = executable_fields b @ s" and l: "length (executable_fields a @ r) < 2 ^ 64"
  obtain p k u q j v where ab: "a = ((p, k), u)" "b = ((q, j), v)" by (metis surj_pair)
  let ?c = "\<lambda>i. counted ''executable.servers'' (\<lambda>t. [(''executable.server'', t)]) (gx_servers i)"
  from e have "p = q" "k = j" "gx_checksum u = gx_checksum v" "?c u @ r = ?c v @ s"
    by (auto simp: ab executable_fields_def split: executable_kind.splits)
  with l tagged.counted [of "''executable.servers''" "''executable.server''" "gx_servers u" r "gx_servers v" s]
  show "(case a of (k, e) \<Rightarrow> (k, gx_checksum e, gx_servers e)) = (case b of (k, e) \<Rightarrow> (k, gx_checksum e, gx_servers e)) \<and> r = s"
    by (simp add: ab executable_fields_def)
qed

interpretation secrets: self_delimiting_fields secret_fields id
proof
  fix a b :: secret_grant and r s
  show "secret_fields a \<noteq> []" by (simp add: secret_fields_def)
  show "secret_fields a @ r = secret_fields b @ s \<Longrightarrow> id a = id b \<and> r = s"
    by (cases a; cases b) (auto simp: secret_fields_def split: secret_lifetime.splits)
qed

section \<open>What a digest determines\<close>

lemma argv_bytes_inj:
  assumes "argv_bytes a = argv_bytes b" "length (argv_bytes a) < 2 ^ 64"
  shows "a = b"
proof -
  have e: "le64 (length a) = le64 (length b)" "concat (map framed a) @ [] = concat (map framed b) @ []"
    using assms(1) by (simp_all add: argv_bytes_def)
  have x: "length (concat (map framed a) @ []) < 2 ^ 64" using assms(2) by (simp add: argv_bytes_def)
  then have "length a < 2 ^ 64" "length b < 2 ^ 64"
    using framed_texts.length_le [of a] framed_texts.length_le [of b] arg_cong [OF e(2), of length] by simp_all
  with e(1) have "length a = length b" by (rule le64_inj)
  from framed_texts.sequence [OF this e(2) x] show ?thesis by simp
qed

definition adapter_view :: "granted_adapter \<Rightarrow> string \<times> adapter_source_identity \<times> content_digest" where
  "adapter_view a = (ad_id (ga_descriptor a), ga_source a, ga_definition_digest a)"

lemma invocation_decode:
  assumes "invocation_fields hmac key a @ r = invocation_fields hmac key b @ s"
  shows "adapter_view (iv_adapter a) = adapter_view (iv_adapter b) \<and> iv_executable a = iv_executable b \<and>
    commit_argv hmac key (iv_argv a) = commit_argv hmac key (iv_argv b) \<and> iv_cwd a = iv_cwd b \<and>
    iv_profile a = iv_profile b \<and> r = s"
  using assms by (cases "iv_executable a"; cases "iv_executable b")
    (auto simp: invocation_fields_def adapter_view_def dest!: adapter_source_decode profile_decode)

definition servers_view :: "authority_grant \<Rightarrow> (string \<times> granted_server_binding) list" where
  "servers_view g = map (\<lambda>(n, s). (n, gs_binding s)) (ag_servers g)"

definition executables_view :: "authority_grant \<Rightarrow> ((string \<times> executable_kind) \<times> content_digest \<times> string list) list" where
  "executables_view g = map (\<lambda>(k, e). (k, gx_checksum e, gx_servers e)) (ag_executables g)"

text \<open>The emission is decoded from the front, one group of fields after the other.\<close>

lemma grant_fields_decode:
  assumes g: "grant_fields hmac rj key g = Inr fs" and h: "grant_fields hmac rj key h = Inr fs" and l: "length fs < 2 ^ 64"
  shows "ag_project g = ag_project h \<and>
    adapter_view (iv_adapter (ag_invocation g)) = adapter_view (iv_adapter (ag_invocation h)) \<and>
    iv_executable (ag_invocation g) = iv_executable (ag_invocation h) \<and>
    commit_argv hmac key (iv_argv (ag_invocation g)) = commit_argv hmac key (iv_argv (ag_invocation h)) \<and>
    iv_cwd (ag_invocation g) = iv_cwd (ag_invocation h) \<and> iv_profile (ag_invocation g) = iv_profile (ag_invocation h) \<and>
    ag_skills g = ag_skills h \<and> ag_instructions g = ag_instructions h \<and> servers_view g = servers_view h \<and>
    executables_view g = executables_view h \<and> rj (pg_ruleset (ag_policy g)) = rj (pg_ruleset (ag_policy h)) \<and>
    pg_provenance (ag_policy g) = pg_provenance (ag_policy h) \<and> ag_secrets g = ag_secrets h \<and>
    ag_runtime g = ag_runtime h \<and> ag_posture g = ag_posture h \<and> ag_egress g = ag_egress h \<and> ag_artifacts g = ag_artifacts h"
    (is "?project \<and> ?adapter \<and> ?exec \<and> ?argv \<and> ?cwd \<and> ?profile \<and> ?skills \<and> ?ins \<and> ?servers \<and> ?exes \<and> ?rules \<and> ?prov
      \<and> ?secrets \<and> ?runtime \<and> ?last")
proof -
  note split = grant_fields_def and_then_Inr
  from g obtain jg where jg: "rj (pg_ruleset (ag_policy g)) = Some jg" by (cases "rj (pg_ruleset (ag_policy g))") (auto simp: split)
  from h obtain jh where jh: "rj (pg_ruleset (ag_policy h)) = Some jh" by (cases "rj (pg_ruleset (ag_policy h))") (auto simp: split)
  define last' where "last' k = [(''posture'', posture_slug (ag_posture k)), (''egress'', egress_slug (ag_egress k)),
      (''workspace'', workspace_slug (ag_workspace k)), (''artifacts'', artifact_slug (ag_artifacts k))]" for k :: authority_grant
  define secrets' where "secrets' k = counted ''secrets'' secret_fields (ag_secrets k) @ runtime_fields (ag_runtime k) @ last' k" for k :: authority_grant
  define policy' where "policy' k j = (''policy.ruleset'', j) #
      policy_source_fields ''policy.machine'' (pp_machine (pg_provenance (ag_policy k))) @
      policy_source_fields ''policy.project'' (pp_project (pg_provenance (ag_policy k))) @ secrets' k" for k :: authority_grant and j
  define exes' where "exes' k j = counted ''executables'' executable_fields (ag_executables k) @ policy' k j" for k :: authority_grant and j
  define servers' where "servers' k j = counted ''servers'' server_fields (ag_servers k) @ exes' k j" for k :: authority_grant and j
  define ins' where "ins' k j = counted ''instructions'' instruction_fields (ag_instructions k) @ servers' k j" for k :: authority_grant and j
  define skills' where "skills' k j = counted ''skills'' skill_fields (ag_skills k) @ ins' k j" for k :: authority_grant and j
  define head' where "head' k = [(''schema'', schema_slug (ag_schema k)), (''project.root'', path_str (pi_root (ag_project k))),
        (''project.consent'', hex (pi_consent (ag_project k)))]" for k :: authority_grant
  note defs = head'_def skills'_def ins'_def servers'_def exes'_def policy'_def secrets'_def last'_def
  have fg: "fs = head' g @ invocation_fields hmac key (ag_invocation g) @ skills' g jg"
    and fh: "fs = head' h @ invocation_fields hmac key (ag_invocation h) @ skills' h jh"
    using g h jg jh by (simp_all add: split defs)
  then have "head' g @ invocation_fields hmac key (ag_invocation g) @ skills' g jg
      = head' h @ invocation_fields hmac key (ag_invocation h) @ skills' h jh" by simp
  then have p: ?project and i: "invocation_fields hmac key (ag_invocation g) @ skills' g jg
      = invocation_fields hmac key (ag_invocation h) @ skills' h jh"
    by (cases "ag_project g"; cases "ag_project h"; simp add: head'_def)+
  note i = invocation_decode [OF i]
  have ls: "length (skills' g jg) < 2 ^ 64" using l fg by simp
  from i skills.counted [of "''skills''" "ag_skills g" "ins' g jg" "ag_skills h" "ins' h jh"] ls
  have s: ?skills "ins' g jg = ins' h jh" by (simp_all add: skills'_def)
  have li: "length (ins' g jg) < 2 ^ 64" using ls by (simp add: skills'_def)
  from s(2) instructions.counted [of "''instructions''" "ag_instructions g" "servers' g jg" "ag_instructions h" "servers' h jh"] li
  have n: ?ins "servers' g jg = servers' h jh" by (simp_all add: ins'_def)
  have lv: "length (servers' g jg) < 2 ^ 64" using li by (simp add: ins'_def)
  from n(2) servers.counted [of "''servers''" "ag_servers g" "exes' g jg" "ag_servers h" "exes' h jh"] lv
  have v: ?servers "exes' g jg = exes' h jh" by (simp_all add: servers'_def servers_view_def)
  have le: "length (exes' g jg) < 2 ^ 64" using lv by (simp add: servers'_def)
  from v(2) executables.counted [of "''executables''" "ag_executables g" "policy' g jg" "ag_executables h" "policy' h jh"] le
  have x: ?exes "policy' g jg = policy' h jh" by (simp_all add: exes'_def executables_view_def)
  from x(2) have o': ?prov "jg = jh" "secrets' g = secrets' h"
    by (cases "pg_provenance (ag_policy g)"; cases "pg_provenance (ag_policy h)";
        auto simp: policy'_def dest!: policy_source_decode)+
  have lc: "length (secrets' g) < 2 ^ 64" using le by (simp add: exes'_def policy'_def)
  from o'(3) secrets.counted [of "''secrets''" "ag_secrets g" "runtime_fields (ag_runtime g) @ last' g" "ag_secrets h"
      "runtime_fields (ag_runtime h) @ last' h"] lc
  have c: ?secrets "runtime_fields (ag_runtime g) @ last' g = runtime_fields (ag_runtime h) @ last' h"
    by (simp_all add: secrets'_def)
  from runtime_decode [OF c(2)] have ?runtime ?last by (simp_all add: last'_def)
  with p i s(1) n(1) v(1) x(1) o'(1,2) c(1) jg jh show ?thesis by simp
qed

lemma encoded_inj:
  assumes "encoded fs = encoded gs" "length (encoded fs) < 2 ^ 64"
  shows "fs = gs \<and> length fs < 2 ^ 64"
proof -
  have part: "x \<in> set es \<Longrightarrow> length (fst x) + length (snd x) \<le> length (framed_files es)" for x es
    by (induction es) (auto simp: framed_files_def framed_def)
  have len: "length es \<le> length (framed_files es)" for es
    by (induction es) (auto simp: framed_files_def framed_def)
  have e: "framed_files fs = framed_files gs" and l: "length (framed_files fs) < 2 ^ 64"
    using assms by (simp_all add: encoded_def)
  have "\<forall>(p, b) \<in> set fs \<union> set gs. length p < 2 ^ 64 \<and> length b < 2 ^ 64"
    using part [of _ fs] part [of _ gs] l e by fastforce
  from framed_files_inj [OF e this] len [of fs] l show ?thesis by simp
qed

section \<open>Properties\<close>

text \<open>C28.
  The digest of a run grant binds the grant: two grants with one digest under one key have the same project and
  consent, adapter, harness, exact argument vector, working directory and profile, the same skills, instructions,
  server bindings and executable pins, the same compiled ruleset and policy provenance, the same secrets, and the same
  confinement. That SHA-256 gives lower-case hex and that no two of the hashed streams collide are assumed.\<close>

theorem grant_digest_binds:
  assumes hex: "\<forall>s. parse_sha256 (sha256 s) = Inr (Sha256Hex (sha256 s))"
    and g: "grant_fields hmac rj key g = Inr fs" and h: "grant_fields hmac rj key h = Inr gs"
    and sha: "inj_on sha256 {encoded fs, encoded gs}"
    and mac: "inj_on (hmac key) {argv_bytes (iv_argv (ag_invocation g)), argv_bytes (iv_argv (ag_invocation h))}"
    and json: "inj_on rj {pg_ruleset (ag_policy g), pg_ruleset (ag_policy h)}"
    and sized: "\<forall>s \<in> {encoded fs, encoded gs, argv_bytes (iv_argv (ag_invocation g))}. length s < 2 ^ 64"
    and same: "grant_digest sha256 hmac rj key g = grant_digest sha256 hmac rj key h"
  shows "ag_project g = ag_project h \<and>
    adapter_view (iv_adapter (ag_invocation g)) = adapter_view (iv_adapter (ag_invocation h)) \<and>
    iv_executable (ag_invocation g) = iv_executable (ag_invocation h) \<and> iv_argv (ag_invocation g) = iv_argv (ag_invocation h) \<and>
    iv_cwd (ag_invocation g) = iv_cwd (ag_invocation h) \<and> iv_profile (ag_invocation g) = iv_profile (ag_invocation h) \<and>
    ag_skills g = ag_skills h \<and> ag_instructions g = ag_instructions h \<and> servers_view g = servers_view h \<and>
    executables_view g = executables_view h \<and> ag_policy g = ag_policy h \<and> ag_secrets g = ag_secrets h \<and>
    ag_runtime g = ag_runtime h \<and> ag_posture g = ag_posture h \<and> ag_egress g = ag_egress h \<and> ag_artifacts g = ag_artifacts h"
proof -
  from same have "sha256 (encoded fs) = sha256 (encoded gs)"
    by (simp add: grant_digest_def finish_def g h hex)
  then have "encoded fs = encoded gs" by (rule inj_onD [OF sha]) simp_all
  moreover have "length (encoded fs) < 2 ^ 64" using sized by blast
  ultimately have "fs = gs \<and> length fs < 2 ^ 64" by (rule encoded_inj)
  with h have d: "grant_fields hmac rj key h = Inr fs" "length fs < 2 ^ 64" by auto
  note d = grant_fields_decode [OF g d]
  then have "hmac key (argv_bytes (iv_argv (ag_invocation g))) = hmac key (argv_bytes (iv_argv (ag_invocation h)))"
    unfolding commit_argv_def by blast
  then have "argv_bytes (iv_argv (ag_invocation g)) = argv_bytes (iv_argv (ag_invocation h))"
    by (rule inj_onD [OF mac]) simp_all
  then have "iv_argv (ag_invocation g) = iv_argv (ag_invocation h)"
    by (rule argv_bytes_inj) (use sized in blast)
  moreover from d have "rj (pg_ruleset (ag_policy g)) = rj (pg_ruleset (ag_policy h))" by blast
  then have "pg_ruleset (ag_policy g) = pg_ruleset (ag_policy h)" by (rule inj_onD [OF json]) simp_all
  with d have "ag_policy g = ag_policy h" by (intro policy_grant.equality) simp_all
  ultimately show ?thesis using d by simp
qed

definition sample_grant :: "string list \<Rightarrow> authority_grant" where
  "sample_grant argv = sealed ((sample_builder LockdownConfined)\<lparr>gb_invocation := sample_call\<lparr>iv_argv := argv\<rparr>\<rparr>)"

definition sample_fields :: "string list \<Rightarrow> fields" where
  "sample_fields argv =
     (case grant_fields (\<lambda>_. id) (\<lambda>_. Some ''{}'') ''k'' (sample_grant argv) of Inr fs \<Rightarrow> fs | Inl _ \<Rightarrow> [])"

definition sample_sha256 :: "string \<Rightarrow> string" where
  "sample_sha256 s = replicate 64 (if s = encoded (sample_fields [''a'', ''bc'']) then CHR ''a'' else CHR ''b'')"

lemma sample_fields_eval:
  "grant_fields (\<lambda>_. id) (\<lambda>_. Some ''{}'') ''k'' (sample_grant argv) = Inr (sample_fields argv)"
  by (simp add: sample_fields_def grant_fields_def)

lemma sample_fields_length: "length (encoded (sample_fields argv)) = 1016 + length (argv_bytes argv)"
  by (simp add: encoded_def sample_fields_def grant_fields_def sample_grant_def sealed_def sample_builder_def new_builder_def
    sample_call_def invocation_fields_def counted_def policy_source_fields_def framed_files_def framed_def commit_argv_def
    GRANT_DIGEST_DOMAIN_def digest_a_def external_harness_def)

text \<open>Moving one letter over an argument boundary changes the digest.\<close>

theorem grant_digest_binds_witness:
  "grant_digest sample_sha256 (\<lambda>_. id) (\<lambda>_. Some ''{}'') ''k'' (sample_grant [''a'', ''bc'']) \<noteq>
   grant_digest sample_sha256 (\<lambda>_. id) (\<lambda>_. Some ''{}'') ''k'' (sample_grant [''ab'', ''c''])"
proof
  assume same: "grant_digest sample_sha256 (\<lambda>_. id) (\<lambda>_. Some ''{}'') ''k'' (sample_grant [''a'', ''bc'']) =
    grant_digest sample_sha256 (\<lambda>_. id) (\<lambda>_. Some ''{}'') ''k'' (sample_grant [''ab'', ''c''])"
  have argv: "iv_argv (ag_invocation (sample_grant argv)) = argv" "ag_policy (sample_grant argv) = ag_policy (sample_grant [])" for argv
    by (simp_all add: sample_grant_def sealed_def sample_builder_def new_builder_def sample_call_def)
  have hex: "\<forall>s. parse_sha256 (sample_sha256 s) = Inr (Sha256Hex (sample_sha256 s))"
  proof
    fix s
    have c: "parse_sha256 (replicate 64 (CHR ''a'')) = Inr (Sha256Hex (replicate 64 (CHR ''a'')))"
      "parse_sha256 (replicate 64 (CHR ''b'')) = Inr (Sha256Hex (replicate 64 (CHR ''b'')))" by code_simp+
    show "parse_sha256 (sample_sha256 s) = Inr (Sha256Hex (sample_sha256 s))" unfolding sample_sha256_def by (cases "s = encoded (sample_fields [''a'', ''bc''])"; simp only: c if_True if_False refl)
  qed
  have len: "length (argv_bytes [''a'', ''bc'']) = 53" "length (argv_bytes [''ab'', ''c'']) = 53"
    by (simp_all add: argv_bytes_def ARGV_COMMIT_DOMAIN_def framed_def)
  have ne: "encoded (sample_fields [''a'', ''bc'']) \<noteq> encoded (sample_fields [''ab'', ''c''])
      \<Longrightarrow> inj_on sample_sha256 {encoded (sample_fields [''a'', ''bc'']), encoded (sample_fields [''ab'', ''c''])}"
    by (simp add: inj_on_def sample_sha256_def)
  then have "inj_on sample_sha256 {encoded (sample_fields [''a'', ''bc'']), encoded (sample_fields [''ab'', ''c''])}"
    by (cases "encoded (sample_fields [''a'', ''bc'']) = encoded (sample_fields [''ab'', ''c''])") simp_all
  from grant_digest_binds [OF hex sample_fields_eval sample_fields_eval this _ _ _ same]
  have "[''a'', ''bc''] = [''ab'', ''c'']" by (simp add: argv(2) [of "[''a'', ''bc'']"] argv(2) [of "[''ab'', ''c'']"] argv(1) sample_fields_length len)
  then show False by simp
qed

end
