(* ===== verification/Handoff.thy ===== *)
theory Handoff
  imports Grant_Digest Trust Decide Load Fence
begin

unbundle bit_operations_syntax

text \<open>
  The machine's commitment key and the sealed handoff of a run grant (crates/cli/src/grant.rs): loading and provisioning
  the key over the state of its directory, projecting a grant to what the bridge process needs, sealing it under the
  key, loading it back, and checking it against the project as it is now. HMAC, JSON, randomness, canonicalisation and
  what is read from disk are parameters; the permissions are those of Unix.
\<close>

section \<open>The commitment key\<close>

text \<open>
  What is found under the key's name, with mode and content of a regular file; a link may dangle. A directory reached
  through a link is only ever asked whether there is a key behind it.
\<close>

datatype key_entry = NoKey | KeyFile u32 string | KeyDirectory | KeyLink bool
datatype key_dir = NoDir | RealDir u32 key_entry | LinkDir key_entry | NotDir

datatype key_error =
    KeyDirMissing
  | KeyDirNotReal
  | KeyDirWritable u32
  | KeyMissing
  | KeyNotRegular
  | KeyInsecure u32
  | KeyMalformed nat
  | RefuseOverwrite key_error
  | KeyDirUncreated
  | CsprngFailure
  | TempFailure
  | LinkFailure
  | KeyExists key_error
  | KeyInvalid key_error

definition load_commitment_key :: "key_dir \<Rightarrow> (string, key_error) result" where
  "load_commitment_key st =
     (case st of
        NoDir \<Rightarrow> Inl KeyDirMissing
      | RealDir mode entry \<Rightarrow>
          if mode AND 0x12 \<noteq> 0 then Inl (KeyDirWritable (mode AND 0x1FF))
          else (case entry of
            NoKey \<Rightarrow> Inl KeyMissing
          | KeyFile m bytes \<Rightarrow>
              if m AND 0x3F \<noteq> 0 then Inl (KeyInsecure (m AND 0x1FF))
              else let buf = take 33 bytes in
                if length buf \<noteq> 32 then Inl (KeyMalformed (length buf)) else Inr buf
          | _ \<Rightarrow> Inl KeyNotRegular)
      | _ \<Rightarrow> Inl KeyDirNotReal)"

datatype plan_key_state = Ready string | WillProvision | PlanBlocked key_error

definition plan_commitment_key :: "key_dir \<Rightarrow> plan_key_state" where
  "plan_commitment_key st =
     (if st = NoDir then WillProvision
      else case load_commitment_key st of Inr key \<Rightarrow> Ready key | Inl e \<Rightarrow> PlanBlocked e)"

text \<open>\<open>Path::exists\<close> follows links; the directory's own entry decides what a link into place meets.\<close>

fun entry_exists :: "key_entry \<Rightarrow> bool" where
  "entry_exists NoKey = False"
| "entry_exists (KeyLink target) = target"
| "entry_exists _ = True"

fun key_exists :: "key_dir \<Rightarrow> bool" where
  "key_exists (RealDir m e) = entry_exists e"
| "key_exists (LinkDir e) = entry_exists e"
| "key_exists _ = False"

text \<open>
  \<open>key\<close> is what the generator gives, \<open>attempt\<close> whether the temporary file could be written and secured and
  whether the link call met an error other than an existing name, and \<open>winner\<close> what another provisioner put under
  the name in the meantime.
\<close>

datatype attempt = TempFails | LinkFails | Linking

definition link_into_place :: "string \<Rightarrow> key_entry \<Rightarrow> key_entry \<Rightarrow> (unit, key_error) result \<times> key_dir" where
  "link_into_place key winner entry =
     (let entry = (if entry = NoKey then winner else entry) in
      if entry = NoKey
      then (let st = RealDir 0x1C0 (KeyFile 0x180 key) in (map_err KeyInvalid (and_then (load_commitment_key st) (\<lambda>_. Inr ())), st))
      else (let st = RealDir 0x1C0 entry in (map_err KeyExists (and_then (load_commitment_key st) (\<lambda>_. Inr ())), st)))"

definition provision_commitment_key ::
  "string option \<Rightarrow> attempt \<Rightarrow> key_entry \<Rightarrow> key_dir \<Rightarrow> (unit, key_error) result \<times> key_dir" where
  "provision_commitment_key key attempt winner st =
     (if key_exists st then (map_err RefuseOverwrite (and_then (load_commitment_key st) (\<lambda>_. Inr ())), st)
      else case st of
        NotDir \<Rightarrow> (Inl KeyDirUncreated, st)
      | LinkDir e \<Rightarrow> (Inl KeyDirNotReal, st)
      | _ \<Rightarrow>
          (let entry = (case st of RealDir _ e \<Rightarrow> e | _ \<Rightarrow> NoKey) in
           case key of
             None \<Rightarrow> (Inl CsprngFailure, RealDir 0x1C0 entry)
           | Some k \<Rightarrow> (case attempt of
                 TempFails \<Rightarrow> (Inl TempFailure, RealDir 0x1C0 entry)
               | LinkFails \<Rightarrow> (Inl LinkFailure, RealDir 0x1C0 (if entry = NoKey then winner else entry))
               | Linking \<Rightarrow> link_into_place k winner entry)))"

section \<open>The handoff\<close>

definition HANDOFF_MAC_DOMAIN :: string where
  "HANDOFF_MAC_DOMAIN = ''agentstack-grant-handoff-v1'' @ [CHR 0x00]"

definition HANDOFF_SCHEMA :: u32 where
  "HANDOFF_SCHEMA = 1"

record handoff_server =
  hs_name :: string
  hs_origin :: string
  hs_server :: server
  hs_checksum :: string
  hs_provenance :: "string option"

record grant_handoff =
  gh_schema :: u32
  gh_run_id :: string
  gh_grant_digest :: string
  gh_project_root :: string
  gh_consent :: string
  gh_profile :: "string option"
  gh_ruleset :: compiled_ruleset
  gh_servers :: "handoff_server list"

record run_envelope =
  re_run_id :: string
  re_recorder :: string
  re_grant_digest :: sha256_hex

fun binding_projection :: "granted_server_binding \<Rightarrow> string \<times> string \<times> string option" where
  "binding_projection (InlineBinding d) = (''inline'', hex d, None)"
| "binding_projection (LibraryBinding d p) = (''library'', hex d, p)"
| "binding_projection (PackageBinding d p) = (''package'', hex d, p)"

definition handoff_of_server :: "string \<times> granted_server \<Rightarrow> handoff_server" where
  "handoff_of_server e =
     (case e of (name, s) \<Rightarrow>
        case binding_projection (gs_binding s) of (origin, checksum, provenance) \<Rightarrow>
          \<lparr>hs_name = name, hs_origin = origin, hs_server = gs_server s, hs_checksum = checksum, hs_provenance = provenance\<rparr>)"

fun profile_name :: "profile_effect \<Rightarrow> string option" where
  "profile_name NoProfile = None"
| "profile_name (Fenced n) = Some n"
| "profile_name (Temporary n sc) = Some n"
| "profile_name (Kept n sc) = Some n"

definition handoff :: "authority_grant \<Rightarrow> run_envelope \<Rightarrow> grant_handoff" where
  "handoff g env =
     \<lparr>gh_schema = HANDOFF_SCHEMA, gh_run_id = re_run_id env, gh_grant_digest = digest_display (re_grant_digest env),
      gh_project_root = path_str (pi_root (ag_project g)), gh_consent = ''sha256:'' @ hex (pi_consent (ag_project g)),
      gh_profile = profile_name (iv_profile (ag_invocation g)), gh_ruleset = pg_ruleset (ag_policy g),
      gh_servers = map handoff_of_server (ag_servers g)\<rparr>"

section \<open>Sealing and loading\<close>

definition hex_byte_text :: "nat \<Rightarrow> string" where
  "hex_byte_text n = [hex_digit (n div 16), hex_digit (n mod 16)]"

definition to_hex :: "string \<Rightarrow> string" where
  "to_hex bytes = concat (map (\<lambda>c. hex_byte_text (byte c)) bytes)"

datatype hex_error = NotHex | SlicePanic

definition hex_val :: "char \<Rightarrow> nat option" where
  "hex_val c =
     (if 48 \<le> byte c \<and> byte c \<le> 57 then Some (byte c - 48)
      else if 97 \<le> byte c \<and> byte c \<le> 102 then Some (byte c - 87)
      else if 65 \<le> byte c \<and> byte c \<le> 70 then Some (byte c - 55)
      else None)"

text \<open>\<open>u8::from_str_radix\<close> on two bytes: a leading plus sign is accepted.\<close>

definition parse_hex_pair :: "char \<Rightarrow> char \<Rightarrow> nat option" where
  "parse_hex_pair a b =
     (if a = CHR ''+'' then hex_val b
      else case (hex_val a, hex_val b) of (Some x, Some y) \<Rightarrow> Some (16 * x + y) | _ \<Rightarrow> None)"

text \<open>Cutting two bytes off panics where a character would be cut in two.\<close>

fun from_hex_pairs :: "string \<Rightarrow> (string, hex_error) result" where
  "from_hex_pairs (a # b # rest) =
     (if rest \<noteq> [] \<and> is_cont (byte (hd rest)) then Inl SlicePanic
      else case parse_hex_pair a b of
        None \<Rightarrow> Inl NotHex
      | Some n \<Rightarrow> and_then (from_hex_pairs rest) (\<lambda>bs. Inr (char_of n # bs)))"
| "from_hex_pairs _ = Inr []"

definition from_hex :: "string \<Rightarrow> (string, hex_error) result" where
  "from_hex s = (if length s mod 2 \<noteq> 0 then Inl NotHex else from_hex_pairs s)"

record signed_handoff =
  sh_handoff :: grant_handoff
  sh_mac :: string

datatype handoff_error =
    HandoffUnserialized
  | HandoffUnread read_error
  | HandoffUnparsed
  | HandoffPanic
  | Unauthentic
  | SchemaSkew u32
  | RulesetSkew u32
  | RootUnresolved string
  | OtherProject string string
  | NoConsentDigest
  | ConsentChanged
  | NotTrusted
  | ProjectUnloaded
  | MachinePolicyUnloaded
  | PolicyChanged
  | UnknownOrigin string

definition handoff_message :: "string \<Rightarrow> string" where
  "handoff_message payload = HANDOFF_MAC_DOMAIN @ framed payload"

definition handoff_mac ::
  "(string \<Rightarrow> string \<Rightarrow> string) \<Rightarrow> (grant_handoff \<Rightarrow> string option) \<Rightarrow> string \<Rightarrow> grant_handoff \<Rightarrow> (string, handoff_error) result" where
  "handoff_mac hmac to_vec key h =
     and_then (ok_or HandoffUnserialized (to_vec h)) (\<lambda>payload. Inr (hmac key (handoff_message payload)))"

definition seal_handoff ::
  "(string \<Rightarrow> string \<Rightarrow> string) \<Rightarrow> (grant_handoff \<Rightarrow> string option) \<Rightarrow> grant_handoff \<Rightarrow> string \<Rightarrow> (signed_handoff, handoff_error) result" where
  "seal_handoff hmac to_vec h key =
     and_then (handoff_mac hmac to_vec key h) (\<lambda>mac. Inr \<lparr>sh_handoff = h, sh_mac = to_hex mac\<rparr>)"

definition authentic ::
  "(string \<Rightarrow> string \<Rightarrow> string) \<Rightarrow> (grant_handoff \<Rightarrow> string option) \<Rightarrow> string \<Rightarrow> signed_handoff \<Rightarrow> (bool, handoff_error) result" where
  "authentic hmac to_vec key artifact =
     (case from_hex (sh_mac artifact) of
        Inl SlicePanic \<Rightarrow> Inl HandoffPanic
      | Inl NotHex \<Rightarrow> Inr False
      | Inr bytes \<Rightarrow> and_then (handoff_mac hmac to_vec key (sh_handoff artifact)) (\<lambda>mac. Inr (mac = bytes)))"

definition load_handoff ::
  "(string \<Rightarrow> string \<Rightarrow> string) \<Rightarrow> (grant_handoff \<Rightarrow> string option) \<Rightarrow> (string \<Rightarrow> signed_handoff option) \<Rightarrow>
     (string, string) result \<Rightarrow> string \<Rightarrow> (grant_handoff, handoff_error) result" where
  "load_handoff hmac to_vec from_str opened key =
     and_then (map_err HandoffUnread (read_to_string_bounded opened MAX_CONFIG_BYTES)) (\<lambda>text.
     and_then (ok_or HandoffUnparsed (from_str text)) (\<lambda>artifact.
     and_then (authentic hmac to_vec key artifact) (\<lambda>ok.
       if \<not> ok then Inl Unauthentic
       else let h = sh_handoff artifact in
         if gh_schema h \<noteq> HANDOFF_SCHEMA then Inl (SchemaSkew (gh_schema h))
         else if cr_version (gh_ruleset h) \<noteq> RULESET_VERSION then Inl (RulesetSkew (cr_version (gh_ruleset h)))
         else Inr h)))"

section \<open>Checking against the project as it is\<close>

text \<open>
  What the bridge reads when it starts: the trust store and its environment, the three pinned files below a project,
  the project's manifest, the machine policy and the home directory of the compiler.
\<close>

record 'f bridge_env =
  be_trust :: "'f env"
  be_machine :: "'f machine"
  be_read :: "string \<Rightarrow> string \<Rightarrow> string option"
  be_manifest :: "string \<Rightarrow> manifest option"
  be_policy :: "policy option"
  be_home :: "string option"

definition current_ruleset :: "string option \<Rightarrow> policy \<Rightarrow> manifest \<Rightarrow> compiled_ruleset" where
  "current_ruleset home machine m = compile home machine (mf_policy m) (map fst (mf_servers m))"

definition verify_handoff_for ::
  "(string \<Rightarrow> string) \<Rightarrow> 'f bridge_env \<Rightarrow> grant_handoff \<Rightarrow> string \<Rightarrow> (unit, handoff_error) result" where
  "verify_handoff_for sha256 be h base =
     and_then (ok_or (RootUnresolved (gh_project_root h)) (en_canonicalize (be_trust be) (gh_project_root h))) (\<lambda>artifact_root.
     and_then (ok_or (RootUnresolved base) (en_canonicalize (be_trust be) base)) (\<lambda>current_root.
       if components artifact_root \<noteq> components current_root then Inl (OtherProject artifact_root current_root)
       else let digest = digest_for sha256 (be_read be base) in
     and_then (ok_or NoConsentDigest digest) (\<lambda>current.
       if current \<noteq> gh_consent h then Inl ConsentChanged
       else if check_digest (be_trust be) (be_machine be) base digest \<noteq> Trusted then Inl NotTrusted
       else
     and_then (ok_or ProjectUnloaded (be_manifest be base)) (\<lambda>m.
     and_then (ok_or MachinePolicyUnloaded (be_policy be)) (\<lambda>machine.
       if current_ruleset (be_home be) machine m \<noteq> gh_ruleset h then Inl PolicyChanged else Inr ())))))"

definition origin_of :: "string \<Rightarrow> (server_origin, handoff_error) result" where
  "origin_of s =
     (if s = ''inline'' then Inr InlineOrigin
      else if s = ''library'' then Inr LibraryOrigin
      else if s = ''package'' then Inr PackageOrigin
      else Inl (UnknownOrigin s))"

definition resolved_of :: "server_origin \<Rightarrow> handoff_server \<Rightarrow> resolved_server" where
  "resolved_of origin s =
     \<lparr>rs_name = hs_name s, rs_origin = origin, rs_server = hs_server s, rs_checksum = hs_checksum s, rs_provenance = hs_provenance s\<rparr>"

fun frozen_servers :: "handoff_server list \<Rightarrow> ((string \<times> (resolved_server, string) result) list, handoff_error) result" where
  "frozen_servers [] = Inr []"
| "frozen_servers (s # rest) =
     and_then (origin_of (hs_origin s)) (\<lambda>origin.
       and_then (frozen_servers rest) (\<lambda>others. Inr ((hs_name s, Inr (resolved_of origin s)) # others)))"

definition frozen_from_handoff :: "grant_handoff \<Rightarrow> ((string \<times> (resolved_server, string) result) list, handoff_error) result" where
  "frozen_from_handoff h = frozen_servers (gh_servers h)"

section \<open>Hex text\<close>

lemma hex_val_digit: "n < 16 \<Longrightarrow> hex_val (hex_digit n) = Some n \<and> hex_digit n \<noteq> CHR ''+'' \<and> \<not> is_cont (byte (hex_digit n))"
proof -
  assume n: "n < 16"
  then have b: "byte (hex_digit n) = (if n < 10 then 48 + n else 87 + n)" by (simp add: hex_digit_def)
  moreover have "byte (CHR ''+'') = 43" by (simp add: byte_def)
  ultimately have "hex_digit n \<noteq> CHR ''+''" by (auto split: if_splits)
  with n b show ?thesis by (auto simp: hex_val_def is_cont_def)
qed

lemma from_hex_to_hex: "from_hex (to_hex bytes) = Inr bytes"
proof -
  have b: "byte c div 16 < 16 \<and> byte c mod 16 < 16 \<and> 16 * (byte c div 16) + byte c mod 16 = byte c" for c
    using byte_less [of c] by (simp add: less_mult_imp_div_less)
  have "length (to_hex bytes) mod 2 = 0" by (induction bytes) (auto simp: to_hex_def hex_byte_text_def)
  moreover have "from_hex_pairs (to_hex bytes) = Inr bytes"
  proof (induction bytes)
    case (Cons c bytes)
    have "to_hex bytes \<noteq> [] \<Longrightarrow> \<not> is_cont (byte (hd (to_hex bytes)))"
      using b hex_val_digit by (cases bytes) (auto simp: to_hex_def hex_byte_text_def)
    moreover have "to_hex (c # bytes) = hex_digit (byte c div 16) # hex_digit (byte c mod 16) # to_hex bytes"
      by (simp add: to_hex_def hex_byte_text_def)
    ultimately show ?case
      using Cons.IH b [of c] hex_val_digit [of "byte c div 16"] hex_val_digit [of "byte c mod 16"]
      by (auto simp: parse_hex_pair_def byte_def)
  qed (simp add: to_hex_def)
  ultimately show ?thesis by (simp add: from_hex_def)
qed

section \<open>Properties\<close>

lemma mac_exact: "handoff_mac hmac to_vec key h = Inr mac \<longleftrightarrow> (\<exists>p. to_vec h = Some p \<and> mac = hmac key (handoff_message p))"
  by (cases "to_vec h") (auto simp: handoff_mac_def and_then_Inr)

lemma load_handoff_Inr:
  "load_handoff hmac to_vec from_str opened key = Inr h \<longleftrightarrow>
     (\<exists>text artifact. read_to_string_bounded opened MAX_CONFIG_BYTES = Inr text \<and> from_str text = Some artifact \<and>
        authentic hmac to_vec key artifact = Inr True \<and> h = sh_handoff artifact \<and>
        gh_schema h = HANDOFF_SCHEMA \<and> cr_version (gh_ruleset h) = RULESET_VERSION)"
proof -
  have o: "ok_or e x = Inr y \<longleftrightarrow> x = Some y" for e :: handoff_error and x :: "'a option" and y by (cases x) auto
  show ?thesis unfolding load_handoff_def and_then_Inr map_err_Inr o Let_def by auto
qed

text \<open>C34.
  The seal of a handoff authenticates exactly that handoff under exactly that key: if a file carries the authenticator
  of a sealed handoff and loads under some key, it is the key of the seal and the handoff is the one that was sealed.\<close>

theorem handoff_authentic:
  assumes seal: "seal_handoff hmac to_vec h key = Inr artifact"
    and stored: "read_to_string_bounded opened MAX_CONFIG_BYTES = Inr text" "from_str text = Some (artifact\<lparr>sh_handoff := h'\<rparr>)"
    and load: "load_handoff hmac to_vec from_str opened key' = Inr loaded"
    and bytes: "to_vec h = Some p" "to_vec h' = Some p'" "length p < 2 ^ 64" "length p' < 2 ^ 64"
    and mac: "inj_on (\<lambda>(k, m). hmac k m) {(key, handoff_message p), (key', handoff_message p')}"
    and json: "inj_on to_vec {h, h'}"
  shows "loaded = h \<and> h' = h \<and> key' = key"
proof -
  have a: "sh_mac artifact = to_hex (hmac key (handoff_message p))"
    using seal bytes(1) by (auto simp: seal_handoff_def and_then_Inr mac_exact)
  from load obtain tx art where t: "read_to_string_bounded opened MAX_CONFIG_BYTES = Inr tx" "from_str tx = Some art"
    and ok: "authentic hmac to_vec key' art = Inr True" and l: "loaded = sh_handoff art"
    unfolding load_handoff_Inr by blast
  have art: "art = artifact\<lparr>sh_handoff := h'\<rparr>" using t stored by simp
  have "hmac key' (handoff_message p') = hmac key (handoff_message p)"
    using ok unfolding authentic_def art by (simp add: a from_hex_to_hex handoff_mac_def bytes(2))
  then have k: "(key', handoff_message p') = (key, handoff_message p)"
    by (intro inj_onD [OF mac]) simp_all
  then have "framed p' @ [] = framed p @ []" by (simp add: handoff_message_def)
  from framed_inj [OF this bytes(4,3)] bytes(1,2) have "to_vec h' = to_vec h" by simp
  then have "h' = h" by (rule inj_onD [OF json]) simp_all
  moreover have "loaded = h'" by (simp add: l art)
  ultimately show ?thesis using k by simp
qed

definition sample_handoff :: "string \<Rightarrow> policy \<Rightarrow> grant_handoff" where
  "sample_handoff run machine =
     \<lparr>gh_schema = HANDOFF_SCHEMA, gh_run_id = run, gh_grant_digest = digest_display digest_a, gh_project_root = ''/p'',
      gh_consent = snapshot_digest id sample_snapshot, gh_profile = None,
      gh_ruleset = compile None machine default_policy [], gh_servers = []\<rparr>"

text \<open>A run id edited after sealing: the file no longer loads, under this key or another.\<close>

theorem handoff_authentic_witness:
  "\<not> is_ok (load_handoff (@) (\<lambda>h. Some (gh_run_id h)) (\<lambda>_. Some \<lparr>sh_handoff = sample_handoff ''r2'' default_policy,
      sh_mac = to_hex (''k'' @ handoff_message ''r1'')\<rparr>) (Inr ''x'') ''k'')"
proof
  let ?a = "\<lparr>sh_handoff = sample_handoff ''r1'' default_policy, sh_mac = to_hex (''k'' @ handoff_message ''r1'')\<rparr>"
  let ?t = "\<lambda>h. Some (gh_run_id h)"
  assume "is_ok (load_handoff (@) ?t (\<lambda>_. Some \<lparr>sh_handoff = sample_handoff ''r2'' default_policy,
      sh_mac = to_hex (''k'' @ handoff_message ''r1'')\<rparr>) (Inr ''x'') ''k'')"
  then obtain loaded where l: "load_handoff (@) ?t (\<lambda>_. Some \<lparr>sh_handoff = sample_handoff ''r2'' default_policy,
      sh_mac = to_hex (''k'' @ handoff_message ''r1'')\<rparr>) (Inr ''x'') ''k'' = Inr loaded"
    unfolding is_ok_iff by blast
  have r: "gh_run_id (sample_handoff r m) = r" for r m by (simp add: sample_handoff_def)
  have s: "seal_handoff (@) ?t (sample_handoff ''r1'' default_policy) ''k'' = Inr ?a"
    by (simp add: seal_handoff_def handoff_mac_def r)
  have f: "read_to_string_bounded (Inr ''x'') MAX_CONFIG_BYTES = Inr ''x''"
  proof -
    have "from_utf8 ''x'' = Some ''x''" by code_simp
    then show ?thesis by (simp add: read_to_string_bounded_def MAX_CONFIG_BYTES_def)
  qed
  have "sample_handoff ''r2'' default_policy = sample_handoff ''r1'' default_policy"
    using handoff_authentic [OF s f _ l, of "sample_handoff ''r2'' default_policy" "''r1''" "''r2''"]
    by (simp add: r inj_on_def)
  from arg_cong [OF this, of gh_run_id] show False by (simp add: r)
qed

lemma origin_projection:
  assumes "parse_sha256 (hex d) = Inr d" "binding_projection b = (origin, hex d, provenance)"
  obtains o' where "origin_of origin = Inr o'"
    "server_from_resolved \<lparr>rs_name = n, rs_origin = o', rs_server = s, rs_checksum = hex d, rs_provenance = provenance\<rparr>
       = Inr \<lparr>gs_server = s, gs_binding = b\<rparr>"
  using assms by (cases b; fastforce simp: origin_of_def server_from_resolved_def parse_digest_def)

fun binding_digest :: "granted_server_binding \<Rightarrow> sha256_hex" where
  "binding_digest (InlineBinding d) = d"
| "binding_digest (LibraryBinding d p) = d"
| "binding_digest (PackageBinding d p) = d"

lemma projection_digest: "\<exists>o' p. binding_projection b = (o', hex (binding_digest b), p)"
  by (cases b) auto

lemma frozen_round_trip:
  "\<forall>(n, s) \<in> set servers. parse_sha256 (hex (binding_digest (gs_binding s))) = Inr (binding_digest (gs_binding s)) \<Longrightarrow>
   \<exists>frozen. frozen_servers (map handoff_of_server servers) = Inr frozen \<and>
     list_all2 (\<lambda>(n, s) (n', r). n' = n \<and> (\<exists>rs. r = Inr rs \<and> rs_name rs = n \<and> server_from_resolved rs = Inr s)) servers frozen"
proof (induction servers)
  case (Cons e servers)
  obtain n s where e: "e = (n, s)" by fastforce
  obtain o1 p where pr: "binding_projection (gs_binding s) = (o1, hex (binding_digest (gs_binding s)), p)"
    using projection_digest by blast
  have d: "parse_sha256 (hex (binding_digest (gs_binding s))) = Inr (binding_digest (gs_binding s))" using Cons.prems by (simp add: e)
  obtain o' where o': "origin_of o1 = Inr o'"
    "server_from_resolved \<lparr>rs_name = n, rs_origin = o', rs_server = gs_server s,
       rs_checksum = hex (binding_digest (gs_binding s)), rs_provenance = p\<rparr> = Inr \<lparr>gs_server = gs_server s, gs_binding = gs_binding s\<rparr>"
    by (rule origin_projection [OF d pr])
  obtain frozen where "frozen_servers (map handoff_of_server servers) = Inr frozen"
    "list_all2 (\<lambda>(n, s) (n', r). n' = n \<and> (\<exists>rs. r = Inr rs \<and> rs_name rs = n \<and> server_from_resolved rs = Inr s)) servers frozen"
    using Cons by auto
  moreover have "handoff_of_server (n, s) = \<lparr>hs_name = n, hs_origin = o1, hs_server = gs_server s,
      hs_checksum = hex (binding_digest (gs_binding s)), hs_provenance = p\<rparr>" by (simp add: handoff_of_server_def pr)
  ultimately show ?case using o' by (simp add: e resolved_of_def)
qed simp

text \<open>C35.
  What the bridge serves is what the grant bound: the frozen servers rebuilt from a grant's handoff are the grant's
  servers in order, each under its own name and available, and binding each again gives back the granted server with
  its definition, origin, digest and provenance.\<close>

theorem handoff_servers_round_trip:
  assumes "\<forall>(n, s) \<in> set (ag_servers g). parse_sha256 (hex (binding_digest (gs_binding s))) = Inr (binding_digest (gs_binding s))"
  shows "\<exists>frozen. frozen_from_handoff (handoff g env) = Inr frozen \<and>
    list_all2 (\<lambda>(n, s) (n', r). n' = n \<and> (\<exists>rs. r = Inr rs \<and> rs_name rs = n \<and> server_from_resolved rs = Inr s)) (ag_servers g) frozen"
  using frozen_round_trip [OF assms] by (simp add: frozen_from_handoff_def handoff_def)

text \<open>Both kinds of provenance come back.\<close>

definition sample_served :: authority_grant where
  "sample_served = (sample_grant [])\<lparr>ag_servers :=
     [(''a'', sample_granted), (''b'', sample_granted\<lparr>gs_binding := PackageBinding digest_a (Some ''package:x@1#b'')\<rparr>)]\<rparr>"

theorem handoff_servers_round_trip_witness:
  "\<exists>frozen. frozen_from_handoff (handoff sample_served \<lparr>re_run_id = ''r'', re_recorder = ''e'', re_grant_digest = digest_a\<rparr>) = Inr frozen \<and>
     map fst frozen = [''a'', ''b''] \<and>
     (\<exists>rs. snd (frozen ! 1) = Inr rs \<and> server_from_resolved rs = Inr (sample_granted\<lparr>gs_binding := PackageBinding digest_a (Some ''package:x@1#b'')\<rparr>))"
proof -
  have d: "parse_sha256 (hex digest_a) = Inr digest_a" by code_simp
  have b: "gs_binding sample_granted = InlineBinding digest_a" by (simp add: sample_granted_def)
  from handoff_servers_round_trip [of sample_served "\<lparr>re_run_id = ''r'', re_recorder = ''e'', re_grant_digest = digest_a\<rparr>"]
  show ?thesis by (fastforce simp: sample_served_def b d list_all2_Cons1)
qed

text \<open>C36.
  A handoff passes the check only while nothing it rests on has moved: it was frozen for this project, the three pinned
  files have the digest it was frozen at, the project is trusted at that digest, and its ruleset is the one the machine
  and project policies compile to now. So its read, write and deny globs are those the two policies have now, and it
  decides every tool, egress and secret question as they do.\<close>

theorem handoff_holds_now:
  assumes "verify_handoff_for sha256 be h base = Inr ()"
  shows "\<exists>root m machine.
    (\<exists>r. en_canonicalize (be_trust be) (gh_project_root h) = Some r \<and> en_canonicalize (be_trust be) base = Some root \<and> components r = components root) \<and>
    digest_for sha256 (be_read be base) = Some (gh_consent h) \<and>
    check_digest (be_trust be) (be_machine be) base (Some (gh_consent h)) = Trusted \<and>
    be_manifest be base = Some m \<and> be_policy be = Some machine \<and>
    gh_ruleset h = current_ruleset (be_home be) machine m \<and>
    cr_filesystem (gh_ruleset h) =
      \<lparr>fr_read = \<lparr>g_machine = fs_layer (fs_read (p_filesystem machine)), g_bundle = fs_layer (fs_read (p_filesystem (mf_policy m)))\<rparr>,
       fr_write = \<lparr>g_machine = fs_layer (fs_write (p_filesystem machine)), g_bundle = fs_layer (fs_write (p_filesystem (mf_policy m)))\<rparr>,
       fr_deny = \<lparr>g_machine = fs_deny_layer (be_home be) (fs_deny (p_filesystem machine)),
         g_bundle = fs_deny_layer (be_home be) (fs_deny (p_filesystem (mf_policy m)))\<rparr>\<rparr> \<and>
    (\<forall>server tool host reference.
       map_err pd_layer (cr_tool_decision (gh_ruleset h) server tool) = map_err pd_layer (tool_decision machine (mf_policy m) server tool) \<and>
       map_err pd_layer (cr_egress_decision (gh_ruleset h) server host None) = map_err pd_layer (egress_decision machine (mf_policy m) server host) \<and>
       map_err pd_layer (cr_secret_decision (gh_ruleset h) server reference) = map_err pd_layer (secret_decision machine (mf_policy m) server reference))"
proof -
  have o: "ok_or e x = Inr y \<longleftrightarrow> x = Some y" for e :: handoff_error and x :: "'b option" and y by (cases x) auto
  from assms obtain r root m machine where v: "en_canonicalize (be_trust be) (gh_project_root h) = Some r"
    "en_canonicalize (be_trust be) base = Some root" "components r = components root"
    "digest_for sha256 (be_read be base) = Some (gh_consent h)"
    "check_digest (be_trust be) (be_machine be) base (Some (gh_consent h)) = Trusted"
    "be_manifest be base = Some m" "be_policy be = Some machine" and c: "gh_ruleset h = current_ruleset (be_home be) machine m"
    unfolding verify_handoff_for_def and_then_Inr o Let_def by (auto simp: and_then_Inr o split: if_splits)
  note same = compiled_tools.same_layer [of machine "mf_policy m" "(server, tool)" for server tool]
    compiled_egress.same_layer [of machine "mf_policy m" "(server, host)" for server host]
    compiled_secrets.same_layer [of machine "mf_policy m" "(server, reference)" for server reference]
  have f: "cr_filesystem (gh_ruleset h) =
      \<lparr>fr_read = \<lparr>g_machine = fs_layer (fs_read (p_filesystem machine)), g_bundle = fs_layer (fs_read (p_filesystem (mf_policy m)))\<rparr>,
       fr_write = \<lparr>g_machine = fs_layer (fs_write (p_filesystem machine)), g_bundle = fs_layer (fs_write (p_filesystem (mf_policy m)))\<rparr>,
       fr_deny = \<lparr>g_machine = fs_deny_layer (be_home be) (fs_deny (p_filesystem machine)),
         g_bundle = fs_deny_layer (be_home be) (fs_deny (p_filesystem (mf_policy m)))\<rparr>\<rparr>"
    by (simp add: c current_ruleset_def compile_def Let_def)
  have d: "\<forall>server tool host reference.
       map_err pd_layer (cr_tool_decision (gh_ruleset h) server tool) = map_err pd_layer (tool_decision machine (mf_policy m) server tool) \<and>
       map_err pd_layer (cr_egress_decision (gh_ruleset h) server host None) = map_err pd_layer (egress_decision machine (mf_policy m) server host) \<and>
       map_err pd_layer (cr_secret_decision (gh_ruleset h) server reference) = map_err pd_layer (secret_decision machine (mf_policy m) server reference)"
    unfolding c current_ruleset_def using same by simp
  show ?thesis by (intro exI [of _ root] exI [of _ m] exI [of _ machine]) (use v c f d in blast)
qed

definition sample_bridge :: "policy \<Rightarrow> trust_store bridge_env" where
  "sample_bridge machine =
     \<lparr>be_trust = sample_env,
      be_machine = \<lparr>mc_file = Some [(''/p'', \<lparr>te_digest = snapshot_digest id sample_snapshot, te_trusted_at = 0, te_surface = None, te_decisions = None\<rparr>)],
        mc_log = []\<rparr>,
      be_read = \<lambda>_. sample_read None, be_manifest = \<lambda>_. Some (sample_manifest []), be_policy = Some machine, be_home = None\<rparr>"

definition sample_tight :: policy where
  "sample_tight = default_policy\<lparr>p_egress := [(''*'', [''!evil.io''])]\<rparr>"

definition sample_walled :: policy where
  "sample_walled = default_policy\<lparr>p_filesystem := default_fs_policy\<lparr>fs_deny := [''/etc/**'']\<rparr>\<rparr>"

text \<open>The same handoff once the machine policy has been tightened, for a host or for a path, is refused.\<close>

lemma sample_digest: "digest_for id (sample_read None) = Some (snapshot_digest id sample_snapshot)"
  by (simp add: digest_for_def read_snapshot_def sample_read_def sample_snapshot_def)

lemma sample_key: "from_utf8_lossy ''/p'' = ''/p''"
  by code_simp

lemma sample_bridge_reads:
  "en_canonicalize (be_trust (sample_bridge machine)) = Some"
  "digest_for id (be_read (sample_bridge machine) base) = Some (snapshot_digest id sample_snapshot)"
  "check_digest (be_trust (sample_bridge machine)) (be_machine (sample_bridge machine)) ''/p'' (Some (snapshot_digest id sample_snapshot)) = Trusted"
  "be_manifest (sample_bridge machine) base = Some (sample_manifest [])" "be_policy (sample_bridge machine) = Some machine"
  "be_home (sample_bridge machine) = None"
  by (simp_all add: sample_bridge_def sample_env_def check_digest_def load_store_def key_for_def sample_key sample_digest)

lemma sample_frozen:
  "gh_project_root (sample_handoff run frozen) = ''/p''" "gh_consent (sample_handoff run frozen) = snapshot_digest id sample_snapshot"
  "gh_ruleset (sample_handoff run frozen) = compile None frozen default_policy []"
  by (simp_all add: sample_handoff_def)

lemma sample_verify:
  "verify_handoff_for id (sample_bridge machine) (sample_handoff run frozen) ''/p'' =
     (if compile None machine default_policy [] \<noteq> compile None frozen default_policy [] then Inl PolicyChanged else Inr ())"
proof -
  have "current_ruleset None machine (sample_manifest []) = compile None machine default_policy []"
    by (simp add: current_ruleset_def sample_manifest_def)
  then show ?thesis by (simp add: verify_handoff_for_def sample_bridge_reads sample_frozen Let_def)
qed

theorem handoff_holds_now_witness:
  "check_digest sample_env (be_machine (sample_bridge default_policy)) ''/p'' (Some (snapshot_digest id sample_snapshot)) = Trusted \<and>
   verify_handoff_for id (sample_bridge sample_tight) (sample_handoff ''r'' default_policy) ''/p'' = Inl PolicyChanged \<and>
   verify_handoff_for id (sample_bridge sample_walled) (sample_handoff ''r'' default_policy) ''/p'' = Inl PolicyChanged"
proof -
  have "verify_handoff_for id (sample_bridge default_policy) (sample_handoff ''r'' default_policy) ''/p'' = Inr ()"
    by (simp add: sample_verify)
  from handoff_holds_now [OF this]
  have "check_digest sample_env (be_machine (sample_bridge default_policy)) ''/p'' (Some (snapshot_digest id sample_snapshot)) = Trusted"
    by (auto simp: sample_bridge_def sample_handoff_def)
  moreover have "compile_server_rules sample_tight default_policy ''*'' \<noteq> compile_server_rules default_policy default_policy ''*''"
    by code_simp
  then have "cr_any (compile None sample_tight default_policy []) \<noteq> cr_any (compile None default_policy default_policy [])"
    by (simp add: compile_def Let_def)
  then have "compile None sample_tight default_policy [] \<noteq> compile None default_policy default_policy []" by metis
  moreover have "fs_deny_layer None (fs_deny (p_filesystem sample_walled)) \<noteq> fs_deny_layer None (fs_deny (p_filesystem default_policy))"
    by code_simp
  then have "cr_filesystem (compile None sample_walled default_policy []) \<noteq> cr_filesystem (compile None default_policy default_policy [])"
    by (simp add: compile_def Let_def)
  then have "compile None sample_walled default_policy [] \<noteq> compile None default_policy default_policy []" by metis
  ultimately show ?thesis by (simp add: sample_verify)
qed

section \<open>Provisioning\<close>

text \<open>What is under the key's name in a real directory.\<close>

fun dir_entry :: "key_dir \<Rightarrow> key_entry" where
  "dir_entry (RealDir m e) = e"
| "dir_entry _ = NoKey"

lemma load_provisioned:
  "length key = 32 \<Longrightarrow> load_commitment_key (RealDir 0x1C0 (KeyFile 0x180 key)) = Inr key"
  by (simp add: load_commitment_key_def)

text \<open>C37.
  Provisioning never replaces what stands under the key's name, whoever put it there, and when it reports success the
  key that is there loads and a second provisioning changes nothing.\<close>

theorem provision_keeps_keys:
  assumes "provision_commitment_key (Some key) attempt winner st = (r, st')" "length key = 32"
  shows "(dir_entry st \<noteq> NoKey \<longrightarrow> dir_entry st' = dir_entry st) \<and>
    (r = Inr () \<longrightarrow> is_ok (load_commitment_key st') \<and>
       provision_commitment_key (Some key') attempt' winner' st' = (Inr (), st'))"
proof -
  have ok: "key_exists st'" if "is_ok (load_commitment_key st')" for st'
    using that by (auto simp: load_commitment_key_def Let_def split: key_dir.splits key_entry.splits if_splits)
  have again: "provision_commitment_key k t w st' = (Inr (), st')" if "is_ok (load_commitment_key st')" for st' k t w
    using that ok [OF that] by (cases "load_commitment_key st'") (simp_all add: provision_commitment_key_def)
  have u: "and_then x (\<lambda>_. Inr ()) = Inr () \<longleftrightarrow> is_ok x" for x :: "(string, key_error) result"
    by (cases x) auto
  have "(dir_entry st \<noteq> NoKey \<longrightarrow> dir_entry st' = dir_entry st) \<and> (r = Inr () \<longrightarrow> is_ok (load_commitment_key st'))"
    using assms(1) by (cases st) (auto simp: provision_commitment_key_def link_into_place_def Let_def u split: if_splits attempt.splits)
  then show ?thesis using again by blast
qed

theorem provision_keeps_keys_witness:
  "provision_commitment_key (Some (replicate 32 (CHR ''k''))) Linking (KeyFile 0x180 (replicate 32 (CHR ''w''))) NoDir
     = (Inr (), RealDir 0x1C0 (KeyFile 0x180 (replicate 32 (CHR ''w'')))) \<and>
   provision_commitment_key (Some []) TempFails NoKey (RealDir 0x1C0 (KeyFile 0x180 (replicate 32 (CHR ''w''))))
     = (Inr (), RealDir 0x1C0 (KeyFile 0x180 (replicate 32 (CHR ''w''))))"
proof -
  have "provision_commitment_key (Some (replicate 32 (CHR ''k''))) Linking (KeyFile 0x180 (replicate 32 (CHR ''w''))) NoDir
     = (Inr (), RealDir 0x1C0 (KeyFile 0x180 (replicate 32 (CHR ''w''))))"
    by (simp add: provision_commitment_key_def link_into_place_def load_provisioned Let_def)
  with provision_keeps_keys [OF this, of "[]" TempFails NoKey] show ?thesis by simp
qed

text \<open>What a live run does with the key: provision, then load.\<close>

definition live_key :: "string \<Rightarrow> key_dir \<Rightarrow> bool" where
  "live_key key st \<longleftrightarrow>
     (case provision_commitment_key (Some key) Linking NoKey st of (r, st') \<Rightarrow> is_ok r \<and> is_ok (load_commitment_key st'))"

text \<open>
  A plan and a live run, which provisions and then loads, agree on whether there will be a usable key in every state of
  the directory but one: a real directory without a key. There the live run secures the directory and makes the key,
  and the plan reports a blocker.\<close>

theorem plan_differs_from_live:
  assumes "length key = 32"
  shows "((\<nexists>e. plan_commitment_key st = PlanBlocked e) \<longleftrightarrow> live_key key st) \<longleftrightarrow> (\<nexists>mode. st = RealDir mode NoKey)"
proof (cases st)
  case NoDir
  then show ?thesis
    by (simp add: plan_commitment_key_def live_key_def provision_commitment_key_def link_into_place_def Let_def load_provisioned [OF assms])
next
  case (RealDir mode e)
  then show ?thesis
    by (cases e; cases "load_commitment_key st")
      (auto simp: plan_commitment_key_def live_key_def provision_commitment_key_def link_into_place_def Let_def load_provisioned [OF assms],
       auto simp: load_commitment_key_def split: if_splits)
next
  case (LinkDir e)
  then show ?thesis by (simp add: plan_commitment_key_def live_key_def provision_commitment_key_def load_commitment_key_def)
next
  case NotDir
  then show ?thesis by (simp add: plan_commitment_key_def live_key_def provision_commitment_key_def load_commitment_key_def)
qed

theorem plan_differs_from_live_witness:
  "\<not> ((\<nexists>e. plan_commitment_key (RealDir 0x1C0 NoKey) = PlanBlocked e) \<longleftrightarrow> live_key (replicate 32 (CHR ''k'')) (RealDir 0x1C0 NoKey))"
  using plan_differs_from_live [of "replicate 32 (CHR ''k'')" "RealDir 0x1C0 NoKey"] by simp

end
