(* ===== verification/History.thy ===== *)
theory History
  imports Paths "HOL-Library.Finite_Map" "HOL-Library.Product_Lexorder"
begin

unbundle bit_operations_syntax

text \<open>
  The undo ledger of crates/cli/src/history.rs, with the file writes of crates/core/src/util/atomic.rs and the directory
  helpers of crates/core/src/util/fsx.rs it rests on. A file system maps locations to files, directories and links; a
  link is to a file, whose content reading through it gives, or dangles. A path is the location it names. Input and
  output succeed where the shape of the file system allows them, and the ledger's own directory can always be written.
  Left out are the rolling backups, which no read here looks at, and file modes: \<open>atomic_write\<close> renames a new file
  over the old one, which keeps the content it was given and not the old file's mode. The clock is an argument.
\<close>

section \<open>Files\<close>

datatype fs_entry = FileAt string | DirAt | LinkAt "string option"

type_synonym fs = "(location, fs_entry) fmap"

datatype fs_error =
    Creating location
  | Replacing location
  | Removing location
  | ReadingEntry string
  | Unparsed string
  | AlreadyUndone

fun error_text :: "fs_error \<Rightarrow> string" where
  "error_text (Creating p) = ''creating '' @ show_location p"
| "error_text (Replacing p) = ''replacing '' @ show_location p"
| "error_text (Removing p) = ''removing '' @ show_location p @ '' during rollback''"
| "error_text (ReadingEntry i) = ''reading history entry '' @ i"
| "error_text (Unparsed msg) = msg"
| "error_text AlreadyUndone = ''this change was already undone''"

definition read_to_string :: "fs \<Rightarrow> location \<Rightarrow> string option" where
  "read_to_string fs p =
     (case fmlookup fs p of
        Some (FileAt bytes) \<Rightarrow> from_utf8 bytes
      | Some (LinkAt (Some bytes)) \<Rightarrow> from_utf8 bytes
      | _ \<Rightarrow> None)"

definition path_exists :: "fs \<Rightarrow> location \<Rightarrow> bool" where
  "path_exists fs p = (case fmlookup fs p of None \<Rightarrow> False | Some (LinkAt t) \<Rightarrow> t \<noteq> None | Some _ \<Rightarrow> True)"

text \<open>The walk up from the parent of a path: the ancestors that are not there, deepest first.\<close>

function missing_from :: "fs \<Rightarrow> location \<Rightarrow> location list" where
  "missing_from fs dir =
     (if dir = [] \<or> fmlookup fs dir \<noteq> None then []
      else dir # (case parent dir of None \<Rightarrow> [] | Some up \<Rightarrow> missing_from fs up))"
  by pat_completeness auto
termination
  by (relation "measure (\<lambda>(_, dir). length dir)") (auto simp: parent_def split: if_splits)

declare missing_from.simps [simp del]

definition dirs_a_write_will_create :: "fs \<Rightarrow> location \<Rightarrow> location list" where
  "dirs_a_write_will_create fs p = (case parent p of None \<Rightarrow> [] | Some up \<Rightarrow> missing_from fs up)"

text \<open>\<open>create_dir_all\<close>: the first ancestor that is there must be a directory.\<close>

definition create_dir_all :: "fs \<Rightarrow> location \<Rightarrow> (fs, fs_error) result" where
  "create_dir_all fs dir =
     (let missing = missing_from fs dir;
          there = (case missing of [] \<Rightarrow> Some dir | _ \<Rightarrow> parent (last missing))
      in case there of
           None \<Rightarrow> Inl (Creating dir)
         | Some up \<Rightarrow>
             if up = [] \<or> fmlookup fs up = Some DirAt then Inr (fold (\<lambda>d. fmupd d DirAt) missing fs)
             else Inl (Creating up))"

text \<open>\<open>write_inner\<close>: the directories are made first, and stay when the rename fails.\<close>

definition atomic_write :: "fs \<Rightarrow> location \<Rightarrow> string \<Rightarrow> (unit, fs_error) result \<times> fs" where
  "atomic_write fs p contents =
     (case (case parent p of None \<Rightarrow> Inr fs | Some up \<Rightarrow> create_dir_all fs up) of
        Inl e \<Rightarrow> (Inl e, fs)
      | Inr fs \<Rightarrow>
          if file_name p = None \<or> fmlookup fs p = Some DirAt then (Inl (Replacing p), fs)
          else (Inr (), fmupd p (FileAt contents) fs))"

definition is_empty_dir :: "fs \<Rightarrow> location \<Rightarrow> bool" where
  "is_empty_dir fs dir \<longleftrightarrow> fmlookup fs dir = Some DirAt \<and> fBall (fmdom fs) (\<lambda>p. parent p \<noteq> Some dir)"

text \<open>The order of paths: by component, a root before \<open>.\<close> before \<open>..\<close> before a name.\<close>

fun component_rank :: "component \<Rightarrow> nat \<times> string" where
  "component_rank RootDir = (0, [])"
| "component_rank CurDir = (1, [])"
| "component_rank ParentDir = (2, [])"
| "component_rank (Normal n) = (3, n)"

definition deepest_first :: "location list \<Rightarrow> location list" where
  "deepest_first dirs = remdups_adj (sort_key (\<lambda>d. (- int (length d), map component_rank d)) dirs)"

fun prune_in_order :: "fs \<Rightarrow> location list \<Rightarrow> location list \<times> fs" where
  "prune_in_order fs [] = ([], fs)"
| "prune_in_order fs (d # ds) =
     (if is_empty_dir fs d
      then (case prune_in_order (fmdrop d fs) ds of (removed, fs) \<Rightarrow> (d # removed, fs))
      else prune_in_order fs ds)"

definition prune_empty_dirs :: "fs \<Rightarrow> location list \<Rightarrow> location list \<times> fs" where
  "prune_empty_dirs fs candidates = prune_in_order fs (deepest_first candidates)"

section \<open>Captures and their rollback\<close>

record file_change =
  fc_path :: location
  fc_before :: "string option"
  fc_label :: string
  fc_created_dirs :: "location list"

definition capture :: "fs \<Rightarrow> location \<Rightarrow> string \<Rightarrow> file_change" where
  "capture fs p label =
     \<lparr>fc_path = p, fc_before = read_to_string fs p, fc_label = label, fc_created_dirs = dirs_a_write_will_create fs p\<rparr>"

definition remove_file :: "fs \<Rightarrow> location \<Rightarrow> (unit, fs_error) result \<times> fs" where
  "remove_file fs p = (if fmlookup fs p = Some DirAt then (Inl (Removing p), fs) else (Inr (), fmdrop p fs))"

definition prune_created_dirs :: "fs \<Rightarrow> file_change \<Rightarrow> fs" where
  "prune_created_dirs fs f = (if fc_created_dirs f = [] then fs else snd (prune_empty_dirs fs (fc_created_dirs f)))"

definition rollback_one :: "fs \<Rightarrow> file_change \<Rightarrow> (unit, fs_error) result \<times> fs" where
  "rollback_one fs f =
     (case fc_before f of
        Some content \<Rightarrow> atomic_write fs (fc_path f) content
      | None \<Rightarrow>
          (case (if path_exists fs (fc_path f) then remove_file fs (fc_path f) else (Inr (), fs)) of
             (Inl e, fs) \<Rightarrow> (Inl e, fs)
           | (Inr _, fs) \<Rightarrow> (Inr (), prune_created_dirs fs f)))"

fun rollback_each :: "fs \<Rightarrow> file_change list \<Rightarrow> (unit, fs_error) result \<times> fs" where
  "rollback_each fs [] = (Inr (), fs)"
| "rollback_each fs (f # rest) =
     (case rollback_one fs f of
        (Inl e, fs) \<Rightarrow> (Inl e, fs)
      | (Inr _, fs) \<Rightarrow> rollback_each fs rest)"

definition rollback :: "fs \<Rightarrow> file_change list \<Rightarrow> (unit, fs_error) result \<times> fs" where
  "rollback fs files = rollback_each fs (rev files)"

definition prunable_dirs :: "fs \<Rightarrow> file_change list \<Rightarrow> location list" where
  "prunable_dirs fs files =
     deepest_first (filter (\<lambda>d. fmlookup fs d = Some DirAt)
       (concat (map fc_created_dirs (filter (\<lambda>f. fc_before f = None) files))))"

section \<open>The ledger\<close>

definition MAX_ENTRIES :: nat where
  "MAX_ENTRIES = 40"

record entry =
  hy_id :: string
  hy_time_unix :: u64
  hy_scope :: string
  hy_summary :: string
  hy_targets :: "string list"
  hy_files :: "file_change list"
  hy_batch :: "string option"
  hy_operation :: string
  hy_undone :: bool

text \<open>A file of the ledger holds an entry, or text for which the parser gives a message; files are in listing order.\<close>

datatype stored = StoredEntry entry | Unparsable string

type_synonym ledger = "(string \<times> stored) list"

record state =
  st_fs :: fs
  st_ledger :: ledger
  st_last_id :: u64
  st_batch :: "string option"

definition hex16 :: "u64 \<Rightarrow> string" where
  "hex16 w = map (\<lambda>i. hex_digit (unat w div 16 ^ (15 - i) mod 16)) [0..<16]"

definition monotonic_id_nanos :: "u64 \<Rightarrow> nat \<Rightarrow> u64" where
  "monotonic_id_nanos prev observed = max (of_nat observed) (prev + 1)"

definition entries_of :: "ledger \<Rightarrow> entry list" where
  "entries_of l = List.map_filter (\<lambda>(n, s). case s of StoredEntry e \<Rightarrow> Some e | Unparsable _ \<Rightarrow> None) l"

text \<open>Newest first: by time, then by id, both descending; equal keys keep the listing's order.\<close>

definition newest_first :: "ledger \<Rightarrow> entry list" where
  "newest_first l = rev (sort_key (\<lambda>e. (hy_time_unix e, hy_id e)) (rev (entries_of l)))"

definition prune_ledger :: "nat \<Rightarrow> ledger \<Rightarrow> ledger" where
  "prune_ledger limit l =
     (let es = newest_first l in
      if length es \<le> limit then l
      else filter (\<lambda>(n, s). n \<notin> hy_id ` set (drop limit es)) l)"

definition put_stored :: "string \<Rightarrow> stored \<Rightarrow> ledger \<Rightarrow> ledger" where
  "put_stored n s l = (if n \<in> fst ` set l then map (\<lambda>(m, t). (m, if m = n then s else t)) l else l @ [(n, s)])"

definition summary :: "file_change list \<Rightarrow> string list \<Rightarrow> string" where
  "summary files targets =
     show_nat (length files) @ '' file'' @ (if length files = 1 then [] else ''s'') @ '' '' @ [CHR 0xC2, CHR 0xB7] @ '' '' @
       (if targets = [] then em_dash else join_with '', '' targets)"

definition record_change ::
  "nat \<Rightarrow> string \<Rightarrow> string \<Rightarrow> string list \<Rightarrow> file_change list \<Rightarrow> state \<Rightarrow> string option \<times> state" where
  "record_change now scope operation targets files st =
     (if files = [] then (None, st)
      else let n = monotonic_id_nanos (st_last_id st) now;
               e = \<lparr>hy_id = hex16 n, hy_time_unix = of_nat (now div 10 ^ 9), hy_scope = scope, hy_summary = summary files targets,
                    hy_targets = targets, hy_files = files, hy_batch = st_batch st, hy_operation = operation, hy_undone = False\<rparr>
        in (Some (hex16 n),
            st\<lparr>st_last_id := n, st_ledger := prune_ledger MAX_ENTRIES (put_stored (hex16 n) (StoredEntry e) (st_ledger st))\<rparr>))"

definition undo :: "string \<Rightarrow> state \<Rightarrow> (unit, fs_error) result \<times> state" where
  "undo i st =
     (case map_of (st_ledger st) i of
        None \<Rightarrow> (Inl (ReadingEntry i), st)
      | Some (Unparsable msg) \<Rightarrow> (Inl (Unparsed msg), st)
      | Some (StoredEntry e) \<Rightarrow>
          if hy_undone e then (Inl AlreadyUndone, st)
          else (case rollback (st_fs st) (hy_files e) of
            (Inl err, fs) \<Rightarrow> (Inl err, st\<lparr>st_fs := fs\<rparr>)
          | (Inr _, fs) \<Rightarrow>
              (Inr (), st\<lparr>st_fs := fs, st_ledger := put_stored i (StoredEntry (e\<lparr>hy_undone := True\<rparr>)) (st_ledger st)\<rparr>)))"

definition discard :: "string \<Rightarrow> state \<Rightarrow> state" where
  "discard i st = st\<lparr>st_ledger := filter (\<lambda>(n, s). n \<noteq> i) (st_ledger st)\<rparr>"

text \<open>The captures of a revert: every path once, at its first sighting, and the scope of the newest entry.\<close>

fun capture_new :: "fs \<Rightarrow> file_change list \<Rightarrow> file_change list \<Rightarrow> file_change list" where
  "capture_new fs before [] = before"
| "capture_new fs before (f # rest) =
     capture_new fs (if fc_path f \<in> fc_path ` set before then before else before @ [capture fs (fc_path f) (fc_label f)]) rest"

fun capture_revert :: "fs \<Rightarrow> ledger \<Rightarrow> string \<Rightarrow> file_change list \<Rightarrow> string list \<Rightarrow> string \<times> file_change list" where
  "capture_revert fs l scope before [] = (scope, before)"
| "capture_revert fs l scope before (i # is) =
     (case map_of l i of
        Some (StoredEntry e) \<Rightarrow>
          capture_revert fs l (if before = [] then hy_scope e else scope) (capture_new fs before (hy_files e)) is
      | _ \<Rightarrow> capture_revert fs l scope before is)"

fun undo_each :: "string list \<Rightarrow> state \<Rightarrow> (unit, fs_error) result \<times> state" where
  "undo_each [] st = (Inr (), st)"
| "undo_each (i # is) st =
     (case undo i st of
        (Inr _, st) \<Rightarrow> undo_each is st
      | (Inl e, st) \<Rightarrow> if find_sub ''already undone'' (error_text e) \<noteq> None then undo_each is st else (Inl e, st))"

definition undo_recorded :: "nat \<Rightarrow> string list \<Rightarrow> state \<Rightarrow> (string option, fs_error) result \<times> state" where
  "undo_recorded now ids st =
     (if ids = [] then (Inr None, st)
      else case capture_revert (st_fs st) (st_ledger st) ''project'' [] ids of (scope, before) \<Rightarrow>
        (case record_change now scope (''undo of '' @ show_nat (length ids) @ '' change(s)'')
                ([''back to before '' @ show_nat (length ids) @ '' change(s)'']) before st of (recorded, st) \<Rightarrow>
           (case undo_each ids st of (r, st) \<Rightarrow> (and_then r (\<lambda>_. Inr recorded), st))))"


text \<open>A batch tags the records made while its guard lives; dropping the guard restores the outer batch.\<close>

definition begin_batch :: "nat \<Rightarrow> string \<Rightarrow> state \<Rightarrow> string option \<times> state" where
  "begin_batch now label st =
     (let h = show_hex now in
      (st_batch st, st\<lparr>st_batch := Some (label @ ''-'' @ replicate (16 - length h) (CHR ''0'') @ h)\<rparr>))"

definition drop_batch :: "string option \<Rightarrow> state \<Rightarrow> state" where
  "drop_batch previous st = st\<lparr>st_batch := previous\<rparr>"

text \<open>The \<open>undo\<close> command: the changes of one project newest first, numbered from one, and the ids down to a point.\<close>

definition timeline :: "location \<Rightarrow> ledger \<Rightarrow> (entry \<times> nat) list" where
  "timeline dir l =
     (let es = filter (\<lambda>e. list_ex (\<lambda>f. starts_with (fc_path f) dir) (hy_files e))
                 (filter (\<lambda>e. \<not> hy_undone e) (newest_first l))
      in zip es [1..<length es + 1])"

definition selection :: "(entry \<times> nat) list \<Rightarrow> nat \<Rightarrow> string list" where
  "selection rows point = map (\<lambda>(e, _). hy_id e) (filter (\<lambda>(_, i). i \<le> point) rows)"

definition when_text :: "u64 \<Rightarrow> u64 \<Rightarrow> string" where
  "when_text now t =
     (let age = if t \<le> now then unat now - unat t else 0 in
      if age < 60 then ''just now''
      else if age < 3600 then show_nat (age div 60) @ ''m ago''
      else if age < 86400 then show_nat (age div 3600) @ ''h ago''
      else if age < 172800 then ''yesterday''
      else show_nat (age div 86400) @ ''d ago'')"

definition undo_to :: "nat \<Rightarrow> location \<Rightarrow> nat \<Rightarrow> state \<Rightarrow> ((string option, fs_error) result \<times> state) option" where
  "undo_to now dir point st =
     (let rows = timeline dir (st_ledger st) in
      if rows = [] \<or> point = 0 \<or> point > length rows then None else Some (undo_recorded now (selection rows point) st))"

section \<open>Undoing a list of writes\<close>

text \<open>A file system is a tree when the parent of everything in it is a directory of it.\<close>

definition tree :: "fs \<Rightarrow> bool" where
  "tree fs \<longleftrightarrow> (\<forall>p e up. fmlookup fs p = Some e \<longrightarrow> parent p = Some up \<longrightarrow> up = [] \<or> fmlookup fs up = Some DirAt)"

text \<open>A path the ledger can restore: nothing is there, or a file of text.\<close>

definition capturable :: "fs \<Rightarrow> location \<Rightarrow> bool" where
  "capturable fs p \<longleftrightarrow>
     (case fmlookup fs p of None \<Rightarrow> True | Some (FileAt bytes) \<Rightarrow> utf8_valid bytes | _ \<Rightarrow> False)"

text \<open>An apply: every file is captured just before it is written.\<close>

fun capture_and_write :: "(location \<times> string) list \<Rightarrow> fs \<Rightarrow> (unit, fs_error) result \<times> fs \<times> file_change list" where
  "capture_and_write [] fs = (Inr (), fs, [])"
| "capture_and_write ((p, contents) # ws) fs =
     (case atomic_write fs p contents of
        (Inl e, fs') \<Rightarrow> (Inl e, fs', [capture fs p []])
      | (Inr _, fs') \<Rightarrow> (case capture_and_write ws fs' of (r, fs'', cs) \<Rightarrow> (r, fs'', capture fs p [] # cs)))"

lemma parent_length: "parent p = Some up \<Longrightarrow> length up < length p"
  by (auto simp: parent_def split: if_splits)

lemma missing_from_props:
  assumes "q \<in> set (missing_from fs dir)"
  shows "fmlookup fs q = None" "q \<noteq> []" "length q \<le> length dir"
proof -
  from assms have "fmlookup fs q = None \<and> q \<noteq> [] \<and> length q \<le> length dir"
  proof (induction fs dir rule: missing_from.induct)
    case (1 fs dir)
    show ?case
    proof (cases "dir = [] \<or> fmlookup fs dir \<noteq> None \<or> q = dir \<or> parent dir = None")
      case True
      with "1.prems" show ?thesis by (subst (asm) missing_from.simps) (auto split: if_splits)
    next
      case False
      then obtain up where up: "parent dir = Some up" and h: "\<not> (dir = [] \<or> fmlookup fs dir \<noteq> None)" "q \<noteq> dir" by auto
      with "1.prems" have "q \<in> set (missing_from fs up)" by (subst (asm) missing_from.simps) auto
      from "1.IH" [OF h(1) up this] parent_length [OF up] show ?thesis by simp
    qed
  qed
  then show "fmlookup fs q = None" "q \<noteq> []" "length q \<le> length dir" by simp_all
qed

lemma missing_from_shorter: "sorted_wrt (\<lambda>a b. length b < length a) (missing_from fs dir)"
proof (induction fs dir rule: missing_from.induct)
  case (1 fs dir)
  show ?case
  proof (cases "dir = [] \<or> fmlookup fs dir \<noteq> None \<or> parent dir = None")
    case True
    then show ?thesis by (subst missing_from.simps) auto
  next
    case False
    then obtain up where up: "parent dir = Some up" and h: "\<not> (dir = [] \<or> fmlookup fs dir \<noteq> None)" by auto
    from h up have m: "missing_from fs dir = dir # missing_from fs up" by (subst missing_from.simps) simp
    show ?thesis
      using "1.IH" [OF h up] missing_from_props(3) [of _ fs up] parent_length [OF up]
      by (simp add: m) (meson le_less_trans)
  qed
qed

text \<open>What the walk stops at: every missing ancestor has its parent in the list, or the place where the list ends.\<close>

lemma missing_from_parent:
  assumes "q \<in> set (missing_from fs dir)" "parent q = Some up"
  shows "up \<in> set (missing_from fs dir) \<or> up = [] \<or> (parent (last (missing_from fs dir)) = Some up \<and> fmlookup fs up \<noteq> None)"
  using assms
proof (induction fs dir rule: missing_from.induct)
  case (1 fs dir)
  from "1.prems"(1) have h: "\<not> (dir = [] \<or> fmlookup fs dir \<noteq> None)" by (subst (asm) missing_from.simps) (auto split: if_splits)
  show ?case
  proof (cases "parent dir")
    case None
    with h "1.prems" show ?thesis by (subst (asm) missing_from.simps) auto
  next
    case (Some d)
    with h have m: "missing_from fs dir = dir # missing_from fs d" by (subst missing_from.simps) simp
    show ?thesis
    proof (cases "q \<in> set (missing_from fs d)")
      case True
      then have "missing_from fs d \<noteq> []" by auto
      with "1.IH" [OF h Some True "1.prems"(2)] show ?thesis by (auto simp: m)
    next
      case False
      with "1.prems" m Some have "up = d" by auto
      show ?thesis
      proof (cases "d = [] \<or> fmlookup fs d \<noteq> None")
        case True
        then have "missing_from fs d = []" by (subst missing_from.simps) simp
        with True \<open>up = d\<close> Some show ?thesis by (auto simp: m)
      next
        case False
        then have "d \<in> set (missing_from fs d)" by (subst missing_from.simps) simp
        with \<open>up = d\<close> show ?thesis by (simp add: m)
      qed
    qed
  qed
qed


lemma lookup_add_dirs:
  "fmlookup (fold (\<lambda>d. fmupd d DirAt) ds fs) q = (if q \<in> set ds then Some DirAt else fmlookup fs q)"
  by (induction ds arbitrary: fs) auto

lemma create_dir_all_Inr:
  "create_dir_all fs dir = Inr fs' \<Longrightarrow> fs' = fold (\<lambda>d. fmupd d DirAt) (missing_from fs dir) fs"
  by (auto simp: create_dir_all_def Let_def split: option.splits if_splits list.splits)

lemma create_dir_all_there:
  assumes "create_dir_all fs dir = Inr fs'"
  shows "dir = [] \<or> fmlookup fs' dir = Some DirAt"
proof (cases "missing_from fs dir")
  case Nil
  with assms show ?thesis by (auto simp: create_dir_all_def split: if_splits)
next
  case (Cons d ds)
  then have "dir \<in> set (missing_from fs dir)" by (subst (asm) missing_from.simps, subst missing_from.simps) (auto split: if_splits)
  then show ?thesis unfolding create_dir_all_Inr [OF assms] by (simp add: lookup_add_dirs)
qed

lemma tree_create_dir_all:
  assumes "tree fs" "create_dir_all fs dir = Inr fs'"
  shows "tree fs'"
proof -
  note f = create_dir_all_Inr [OF assms(2)]
  show ?thesis
    unfolding tree_def
  proof (intro allI impI)
    fix p e up assume p: "fmlookup fs' p = Some e" and up: "parent p = Some up"
    show "up = [] \<or> fmlookup fs' up = Some DirAt"
    proof (cases "p \<in> set (missing_from fs dir)")
      case False
      with p have "fmlookup fs p = Some e" by (simp add: f lookup_add_dirs)
      with assms(1) up have "up = [] \<or> fmlookup fs up = Some DirAt" by (auto simp: tree_def)
      then show ?thesis by (auto simp: f lookup_add_dirs)
    next
      case True
      from missing_from_parent [OF True up] show ?thesis
      proof (elim disjE conjE)
        assume l: "parent (last (missing_from fs dir)) = Some up" and n: "fmlookup fs up \<noteq> None"
        from True have "missing_from fs dir \<noteq> []" by auto
        with assms(2) l have "up = [] \<or> fmlookup fs up = Some DirAt"
          by (auto simp: create_dir_all_def Let_def split: if_splits list.splits)
        then show ?thesis by (auto simp: f lookup_add_dirs)
      qed (simp_all add: f lookup_add_dirs)
    qed
  qed
qed

lemma tree_fmupd_file:
  assumes "tree fs" "fmlookup fs p \<noteq> Some DirAt" "\<forall>up. parent p = Some up \<longrightarrow> up = [] \<or> fmlookup fs up = Some DirAt"
  shows "tree (fmupd p (FileAt b) fs)"
  using assms by (auto simp: tree_def)

lemma tree_atomic_write:
  assumes "tree fs" "atomic_write fs p c = (r, fs')"
  shows "tree fs'"
proof (cases "parent p")
  case None
  with assms show ?thesis by (auto simp: atomic_write_def split: if_splits intro!: tree_fmupd_file)
next
  case (Some up)
  show ?thesis
  proof (cases "create_dir_all fs up")
    case (Inl e)
    with Some assms show ?thesis by (simp add: atomic_write_def)
  next
    case (Inr fs1)
    with Some assms tree_create_dir_all [OF assms(1) Inr] create_dir_all_there [OF Inr] show ?thesis
      by (auto simp: atomic_write_def split: if_splits intro!: tree_fmupd_file)
  qed
qed


lemma atomic_write_Inr:
  assumes "atomic_write fs p c = (Inr (), fs')"
  shows "fs' = fmupd p (FileAt c) (fold (\<lambda>d. fmupd d DirAt) (dirs_a_write_will_create fs p) fs)"
    "file_name p \<noteq> None"
  using assms create_dir_all_Inr [of fs]
  by (auto simp: atomic_write_def dirs_a_write_will_create_def split: option.splits sum.splits if_splits)

lemma atomic_write_over:
  assumes "tree fs" "fmlookup fs p = Some (FileAt b)" "file_name p \<noteq> None"
  shows "atomic_write fs p c = (Inr (), fmupd p (FileAt c) fs)"
proof (cases "parent p")
  case None
  with assms show ?thesis by (simp add: atomic_write_def)
next
  case (Some up)
  with assms(1,2) have up: "up = [] \<or> fmlookup fs up = Some DirAt" by (auto simp: tree_def)
  then have "missing_from fs up = []" by (subst missing_from.simps) auto
  with up have "create_dir_all fs up = Inr fs" by (auto simp: create_dir_all_def)
  with Some assms show ?thesis by (simp add: atomic_write_def)
qed

lemma dirs_over_file:
  assumes "tree fs" "fmlookup fs p = Some e"
  shows "dirs_a_write_will_create fs p = []"
proof (cases "parent p")
  case (Some up)
  with assms have "up = [] \<or> fmlookup fs up = Some DirAt" by (auto simp: tree_def)
  with Some show ?thesis by (auto simp: dirs_a_write_will_create_def missing_from.simps [of fs up])
qed (simp add: dirs_a_write_will_create_def)

lemma prune_added_dirs:
  assumes "tree fs" "sorted_wrt (\<lambda>a b. length b < length a) ds" "\<forall>q \<in> set ds. fmlookup fs q = None \<and> q \<noteq> []"
  shows "prune_in_order (fold (\<lambda>d. fmupd d DirAt) ds fs) ds = (ds, fs)"
  using assms(2,3)
proof (induction ds)
  case (Cons d ds)
  let ?g = "fold (\<lambda>d. fmupd d DirAt) (d # ds) fs"
  have "parent p \<noteq> Some d" if p: "fmlookup ?g p = Some e" for p e
  proof (cases "p \<in> set (d # ds)")
    case True
    with Cons.prems(1) have "length p \<le> length d" by auto
    then show ?thesis using parent_length [of p d] by auto
  next
    case False
    with p have "fmlookup fs p = Some e" unfolding lookup_add_dirs by simp
    with assms(1) Cons.prems(2) show ?thesis by (auto simp: tree_def)
  qed
  moreover have "fmlookup ?g d = Some DirAt" unfolding lookup_add_dirs by simp
  ultimately have e: "is_empty_dir ?g d" by (auto simp: is_empty_dir_def simp del: fold_simps intro!: fBallI elim!: fmdomE)
  have "d \<notin> set ds" using Cons.prems(1) by auto
  then have "fmdrop d ?g = fold (\<lambda>d. fmupd d DirAt) ds fs"
    using Cons.prems(2) by (intro fmap_ext) (auto simp: lookup_add_dirs simp del: fold_simps)
  with e Cons show ?case by (simp del: fold_simps)
qed simp

lemma shorter_distinct: "sorted_wrt (\<lambda>a b. length b < length a) ds \<Longrightarrow> distinct ds"
  by (induction ds) auto

lemma deepest_first_missing: "deepest_first (missing_from fs dir) = missing_from fs dir"
proof -
  have "sorted (map (\<lambda>d. (- int (length d), map component_rank d)) (missing_from fs dir))"
    unfolding sorted_map by (rule sorted_wrt_mono_rel [OF _ missing_from_shorter]) (auto simp: less_eq_prod_def)
  moreover have "distinct (missing_from fs dir)" by (rule shorter_distinct [OF missing_from_shorter])
  ultimately show ?thesis by (simp add: deepest_first_def sort_key_id_if_sorted remdups_adj_distinct)
qed

lemma prune_created_capture:
  assumes "tree fs"
  shows "prune_created_dirs (fold (\<lambda>d. fmupd d DirAt) (dirs_a_write_will_create fs p) fs) (capture fs p l) = fs"
proof (cases "parent p")
  case (Some up)
  have "\<forall>q \<in> set (missing_from fs up). fmlookup fs q = None \<and> q \<noteq> []" using missing_from_props(1,2) by blast
  from prune_added_dirs [OF assms missing_from_shorter this] Some show ?thesis
    by (simp add: prune_created_dirs_def capture_def prune_empty_dirs_def dirs_a_write_will_create_def deepest_first_missing)
qed (simp add: prune_created_dirs_def capture_def dirs_a_write_will_create_def)

lemma rollback_capture:
  assumes "tree fs" "capturable fs p" "atomic_write fs p c = (Inr (), fs')"
  shows "rollback_one fs' (capture fs p l) = (Inr (), fs)"
proof (cases "fmlookup fs p")
  case None
  then have b: "fc_before (capture fs p l) = None" by (simp add: capture_def read_to_string_def)
  let ?g = "fold (\<lambda>d. fmupd d DirAt) (dirs_a_write_will_create fs p) fs"
  have "p \<notin> set (dirs_a_write_will_create fs p)"
  proof (cases "parent p")
    case (Some up)
    then have "length up < length p" by (rule parent_length)
    with missing_from_props(3) [of p fs up] Some show ?thesis by (auto simp: dirs_a_write_will_create_def)
  qed (simp add: dirs_a_write_will_create_def)
  with None have "fmlookup ?g p = None" by (simp add: lookup_add_dirs)
  then have "fmdrop p fs' = ?g" unfolding atomic_write_Inr [OF assms(3)] by (intro fmap_ext) auto
  moreover have "path_exists fs' p" "fmlookup fs' p \<noteq> Some DirAt" by (simp_all add: atomic_write_Inr [OF assms(3)] path_exists_def)
  ultimately show ?thesis using prune_created_capture [OF assms(1), of p l] b
    by (simp add: rollback_one_def remove_file_def) (simp add: capture_def)
next
  case (Some e)
  with assms(2) obtain b where b: "fmlookup fs p = Some (FileAt b)" and v: "utf8_valid b"
    by (cases e) (auto simp: capturable_def)
  have f: "fs' = fmupd p (FileAt c) fs" using atomic_write_Inr [OF assms(3)] dirs_over_file [OF assms(1) b] by simp
  have "atomic_write fs' p b = (Inr (), fs)"
    using atomic_write_over [OF tree_atomic_write [OF assms(1,3)], of p c b] atomic_write_Inr(2) [OF assms(3)] b
    by (simp add: f) (intro fmap_ext, auto)
  with b v show ?thesis by (simp add: rollback_one_def capture_def read_to_string_def from_utf8_def)
qed

lemma rollback_each_append:
  "rollback_each fs (a @ b) =
     (case rollback_each fs a of (Inl e, fs') \<Rightarrow> (Inl e, fs') | (Inr _, fs') \<Rightarrow> rollback_each fs' b)"
  by (induction a arbitrary: fs) (auto split: prod.splits sum.splits)

lemma capturable_after:
  assumes "capturable fs q \<or> fmlookup fs q = Some DirAt" "utf8_valid c" "atomic_write fs p c = (Inr (), fs')"
  shows "capturable fs' q \<or> fmlookup fs' q = Some DirAt"
  using assms(1,2) by (auto simp: atomic_write_Inr(1) [OF assms(3)] capturable_def lookup_add_dirs)

lemma rollback_writes:
  assumes "tree fs" "\<forall>(p, c) \<in> set ws. (capturable fs p \<or> fmlookup fs p = Some DirAt) \<and> utf8_valid c"
    "capture_and_write ws fs = (Inr (), fs', cs)"
  shows "rollback fs' cs = (Inr (), fs)"
  using assms
proof (induction ws arbitrary: fs cs)
  case Nil
  then show ?case by (simp add: rollback_def)
next
  case (Cons w ws)
  obtain p c where w: "w = (p, c)" by (cases w)
  with Cons.prems(3) obtain fs1 cs1 where a: "atomic_write fs p c = (Inr (), fs1)"
    and r: "capture_and_write ws fs1 = (Inr (), fs', cs1)" and cs: "cs = capture fs p [] # cs1"
    by (auto split: prod.splits sum.splits)
  have "\<forall>(p, c) \<in> set ws. (capturable fs1 p \<or> fmlookup fs1 p = Some DirAt) \<and> utf8_valid c"
    using Cons.prems(2) w capturable_after [OF _ _ a] by auto
  from Cons.IH [OF tree_atomic_write [OF Cons.prems(1) a] this r]
  have "rollback_each fs' (rev cs1) = (Inr (), fs1)" by (simp add: rollback_def)
  moreover have "capturable fs p"
  proof -
    have "fmlookup fs p \<noteq> Some DirAt"
      using a by (auto simp: atomic_write_def create_dir_all_def Let_def lookup_add_dirs split: option.splits sum.splits if_splits list.splits)
    with Cons.prems(2) w show ?thesis by auto
  qed
  ultimately show ?case
    using rollback_capture [OF Cons.prems(1) _ a] by (simp add: rollback_def cs rollback_each_append)
qed

section \<open>The ledger keeps the newest\<close>

lemma insort_last: "\<forall>x \<in> set xs. f x < f a \<Longrightarrow> insort_key f a xs = xs @ [a]"
  by (induction xs) auto

lemma newest_first_added:
  assumes "\<forall>f \<in> set (entries_of l). hy_time_unix f < hy_time_unix e"
  shows "newest_first (l @ [(n, StoredEntry e)]) = e # newest_first l"
proof -
  have "entries_of (l @ [(n, StoredEntry e)]) = entries_of l @ [e]"
    by (simp add: entries_of_def List.map_filter_def)
  with assms show ?thesis by (simp add: newest_first_def insort_last)
qed

lemma newest_first_set [simp]: "set (newest_first l) = set (entries_of l)" "length (newest_first l) = length (entries_of l)"
  by (simp_all add: newest_first_def)


lemma map_of_filter_names: "map_of (filter (\<lambda>(n, s). n \<notin> S) l) i = (if i \<in> S then None else map_of l i)"
  by (induction l) auto

lemma put_stored_new: "n \<notin> fst ` set l \<Longrightarrow> put_stored n s l = l @ [(n, s)]"
  by (simp add: put_stored_def)

lemma put_stored_lookup: "map_of (put_stored n s l) n = Some s"
proof (cases "n \<in> fst ` set l")
  case True
  have "n \<in> fst ` set l \<Longrightarrow> map_of (map (\<lambda>(m, t). (m, if m = n then s else t)) l) n = Some s" by (induction l) auto
  with True show ?thesis by (simp add: put_stored_def)
next
  case False
  then have "map_of l n = None" by (simp add: map_of_eq_None_iff)
  with False show ?thesis by (simp add: put_stored_def map_add_def)
qed

lemma put_stored_names: "n \<in> fst ` set l \<Longrightarrow> fst ` set (put_stored n s l) = fst ` set l"
  by (force simp: put_stored_def image_def)

text \<open>What recording one more change leaves of the ledger.\<close>

lemma record_change_ledger:
  assumes r: "record_change now scope operation targets files st = (Some i, st')"
    and t: "\<forall>f \<in> set (entries_of (st_ledger st)). hy_time_unix f < of_nat (now div 10 ^ 9)"
    and n: "i \<notin> fst ` set (st_ledger st)"
  obtains e where "hy_files e = files" "\<not> hy_undone e" "st_fs st' = st_fs st"
    "st_ledger st' = filter (\<lambda>(m, s). m \<notin> hy_id ` set (drop 39 (newest_first (st_ledger st)))) (st_ledger st @ [(i, StoredEntry e)])"
proof -
  define e where "e = \<lparr>hy_id = i, hy_time_unix = of_nat (now div 10 ^ 9), hy_scope = scope, hy_summary = summary files targets,
    hy_targets = targets, hy_files = files, hy_batch = st_batch st, hy_operation = operation, hy_undone = False\<rparr>"
  with r have e: "hy_files e = files" "\<not> hy_undone e" "hy_time_unix e = of_nat (now div 10 ^ 9)" "st_fs st' = st_fs st"
    and l: "st_ledger st' = prune_ledger MAX_ENTRIES (put_stored i (StoredEntry e) (st_ledger st))"
    by (auto simp: record_change_def Let_def split: if_splits)
  have nf: "newest_first (st_ledger st @ [(i, StoredEntry e)]) = e # newest_first (st_ledger st)"
    using t e by (intro newest_first_added) simp
  have "st_ledger st' = filter (\<lambda>(m, s). m \<notin> hy_id ` set (drop 39 (newest_first (st_ledger st)))) (st_ledger st @ [(i, StoredEntry e)])"
    unfolding l put_stored_new [OF n] prune_ledger_def Let_def nf by (auto simp: MAX_ENTRIES_def)
  with e that show ?thesis by blast
qed

lemma undo_names: "undo j st = (r, st') \<Longrightarrow> fst ` set (st_ledger st') = fst ` set (st_ledger st)"
proof -
  assume u: "undo j st = (r, st')"
  show ?thesis
  proof (cases "map_of (st_ledger st) j")
    case (Some s)
    then have "j \<in> fst ` set (st_ledger st)" by (metis domI dom_map_of_conv_image_fst)
    then have "fst ` set (put_stored j t (st_ledger st)) = fst ` set (st_ledger st)" for t by (rule put_stored_names)
    moreover from u Some have "st_ledger st' = st_ledger st \<or> (\<exists>t. st_ledger st' = put_stored j t (st_ledger st))"
      by (auto simp: undo_def split: stored.splits if_splits prod.splits sum.splits)
    ultimately show ?thesis by metis
  qed (use u in \<open>simp add: undo_def\<close>)
qed

lemma undo_each_missing:
  assumes "i \<in> set is" "i \<notin> fst ` set (st_ledger st)" "find_sub ''already undone'' (error_text (ReadingEntry i)) = None"
  shows "\<exists>e st'. undo_each is st = (Inl e, st')"
  using assms(1,2)
proof (induction "is" arbitrary: st)
  case (Cons j js)
  obtain r st' where u: "undo j st = (r, st')" by (cases "undo j st")
  from undo_names [OF u] Cons.prems(2) have n: "i \<notin> fst ` set (st_ledger st')" by simp
  show ?case
  proof (cases "i = j")
    case True
    with Cons.prems(2) have "undo j st = (Inl (ReadingEntry j), st)"
      using map_of_eq_None_iff [of "st_ledger st" j] by (simp add: undo_def)
    with assms(3) True show ?thesis by simp
  next
    case False
    with Cons.prems(1) have "i \<in> set js" by simp
    from Cons.IH [OF this n] u show ?thesis by (cases r) auto
  qed
qed simp

lemma hex16_no_l: "CHR ''l'' \<notin> set (hex16 w)"
proof -
  have "hex_digit n \<noteq> CHR ''l''" if "n < 16" for n
  proof -
    have "\<forall>n \<in> set [0..<16]. hex_digit n \<noteq> CHR ''l''" by code_simp
    with that show ?thesis by simp
  qed
  then show ?thesis by (metis (no_types, lifting) hex16_def image_iff list.set_map mod_less_divisor zero_less_numeral)
qed

lemma reading_is_fatal: "find_sub ''already undone'' (error_text (ReadingEntry (hex16 w))) = None"
proof (cases "find_sub ''already undone'' (error_text (ReadingEntry (hex16 w)))")
  case (Some k)
  let ?s = "error_text (ReadingEntry (hex16 w))"
  from find_sub_Some_split [OF Some] have "?s = take k ?s @ ''already undone'' @ drop (k + length ''already undone'') ?s" by blast
  then have "CHR ''l'' \<in> set ?s" by (metis Un_iff list.set_intros(1,2) set_append)
  then have "CHR ''l'' \<in> set (hex16 w)" by simp
  with hex16_no_l show ?thesis by blast
qed

lemma capture_new_grows: "before \<noteq> [] \<Longrightarrow> capture_new fs before fl \<noteq> []"
  by (induction fl arbitrary: before) auto

lemma capture_revert_grows: "before \<noteq> [] \<Longrightarrow> snd (capture_revert fs l scope before is) \<noteq> []"
  by (induction "is" arbitrary: scope before) (auto simp: capture_new_grows split: option.splits stored.splits)


section \<open>Properties\<close>

text \<open>C38. Undoing a recorded apply restores the modelled file system: every path is again absent, a directory, a link
  or a file with the content it had before the first write. This holds for any list of writes of text that succeeded
  over a tree in which every touched path was absent or a file of UTF-8 text; modes are not modelled, and for other
  content the next property shows the loss. The change cannot be undone twice. The record is of a later second than the
  ledger's, and its id is new there.\<close>

theorem undo_restores:
  assumes "tree fs" "\<forall>(p, c) \<in> set ws. capturable fs p \<and> utf8_valid c"
    "capture_and_write ws fs = (Inr (), st_fs st, cs)" "record_change now scope operation targets cs st = (Some i, st')"
    "\<forall>f \<in> set (entries_of (st_ledger st)). hy_time_unix f < of_nat (now div 10 ^ 9) \<and> hy_id f \<noteq> i"
    "i \<notin> fst ` set (st_ledger st)"
  shows "\<exists>st''. undo i st' = (Inr (), st'') \<and> st_fs st'' = fs \<and> undo i st'' = (Inl AlreadyUndone, st'')"
proof -
  from assms(5) have t: "\<forall>f \<in> set (entries_of (st_ledger st)). hy_time_unix f < of_nat (now div 10 ^ 9)" by blast
  obtain e where e: "hy_files e = cs" "\<not> hy_undone e" "st_fs st' = st_fs st"
    "st_ledger st' = filter (\<lambda>(m, s). m \<notin> hy_id ` set (drop 39 (newest_first (st_ledger st)))) (st_ledger st @ [(i, StoredEntry e)])"
    by (rule record_change_ledger [OF assms(4) t assms(6)])
  have "i \<notin> hy_id ` set (drop 39 (newest_first (st_ledger st)))"
    using assms(5) set_drop_subset [of 39 "newest_first (st_ledger st)"] by auto
  then have "map_of (st_ledger st') i = Some (StoredEntry e)"
    using assms(6) map_of_eq_None_iff [of "st_ledger st" i] unfolding e(4) map_of_filter_names by (simp add: map_add_def)
  moreover have "rollback (st_fs st') cs = (Inr (), fs)"
    unfolding e(3) using assms(2) by (intro rollback_writes [OF assms(1) _ assms(3)]) auto
  ultimately show ?thesis using e by (simp add: undo_def put_stored_lookup)
qed

text \<open>C39. A file that is not UTF-8 is captured as if it were absent, so undoing the write over it does not bring it
  back and does not leave it overwritten: it deletes it, and reports success.\<close>

theorem undo_deletes_non_text:
  assumes "tree fs" "fmlookup fs p = Some (FileAt b)" "\<not> utf8_valid b" "atomic_write fs p c = (Inr (), fs')"
  shows "rollback fs' [capture fs p l] = (Inr (), fmdrop p fs)"
proof -
  have f: "fs' = fmupd p (FileAt c) fs" using atomic_write_Inr [OF assms(4)] dirs_over_file [OF assms(1,2)] by simp
  have c: "fc_before (capture fs p l) = None" "fc_created_dirs (capture fs p l) = []" "fc_path (capture fs p l) = p"
    using assms dirs_over_file [OF assms(1,2)] by (simp_all add: capture_def read_to_string_def from_utf8_def)
  then have "rollback_one fs' (capture fs p l) = (Inr (), fmdrop p fs)"
    by (simp add: rollback_one_def remove_file_def prune_created_dirs_def path_exists_def f)
       (intro fmap_ext, simp)
  then show ?thesis by (simp add: rollback_def)
qed

lemma map_zip_firsts: "length xs \<le> length ys \<Longrightarrow> map (\<lambda>(x, _). g x) (zip xs ys) = map g xs"
  by (induction xs arbitrary: ys) (auto simp: zip_Cons1 split: list.splits)

text \<open>C40. With a full ledger, all of one project and none undone, reverting to before the oldest change listed
  fails: recording the revert first prunes that very change, whose undo then finds no entry.\<close>

theorem undo_to_oldest_fails:
  assumes "length (entries_of (st_ledger st)) = MAX_ENTRIES"
    "\<forall>(n, s) \<in> set (st_ledger st). \<exists>e w. s = StoredEntry e \<and> hy_id e = n \<and> n = hex16 w \<and> \<not> hy_undone e \<and>
       hy_time_unix e < of_nat (now div 10 ^ 9) \<and> list_ex (\<lambda>f. starts_with (fc_path f) dir) (hy_files e)"
    "hex16 (monotonic_id_nanos (st_last_id st) now) \<notin> fst ` set (st_ledger st)"
  shows "\<exists>e st'. undo_to now dir MAX_ENTRIES st = Some (Inl e, st')"
proof -
  let ?l = "st_ledger st" and ?nf = "newest_first (st_ledger st)"
  have ent: "\<exists>w. (hy_id e, StoredEntry e) \<in> set ?l \<and> hy_id e = hex16 w \<and> \<not> hy_undone e \<and> hy_time_unix e < of_nat (now div 10 ^ 9) \<and>
      list_ex (\<lambda>f. starts_with (fc_path f) dir) (hy_files e)" if "e \<in> set (entries_of ?l)" for e
    using that assms(2) by (fastforce simp: entries_of_def List.map_filter_def split: stored.splits)
  define ids where "ids = map hy_id ?nf"
  have "filter (\<lambda>e. list_ex (\<lambda>f. starts_with (fc_path f) dir) (hy_files e)) (filter (\<lambda>e. \<not> hy_undone e) ?nf) = ?nf"
    using ent by (simp add: filter_True cong: filter_cong)
  then have rows: "timeline dir ?l = zip ?nf [1..<length ?nf + 1]" by (simp add: timeline_def Let_def)
  have "filter (\<lambda>(_, i). i \<le> MAX_ENTRIES) (zip ?nf [1..<length ?nf + 1]) = zip ?nf [1..<length ?nf + 1]"
    using assms(1) by (auto intro!: filter_True dest!: set_zip_rightD)
  then have sel: "selection (timeline dir ?l) MAX_ENTRIES = ids" unfolding rows
    by (simp add: selection_def ids_def map_zip_firsts del: upt_Suc)
  have len: "length ?nf = MAX_ENTRIES" "length (timeline dir ?l) = MAX_ENTRIES" using assms(1) by (simp_all add: rows)
  then have "[?nf ! 39] = drop 39 ?nf" using Cons_nth_drop_Suc [of 39 ?nf] by (simp add: MAX_ENTRIES_def)
  then obtain old where old: "drop 39 ?nf = [old]" by metis
  then have "old \<in> set ?nf" by (metis in_set_dropD list.set_intros(1))
  then have old_in: "hy_id old \<in> set ids" "\<exists>w. hy_id old = hex16 w" using ent by (auto simp: ids_def)
  obtain scope before where cr: "capture_revert (st_fs st) ?l ''project'' [] ids = (scope, before)" by fastforce
  have "before \<noteq> []"
  proof -
    have "ids \<noteq> []" using old_in(1) by auto
    then obtain i js where ids: "ids = i # js" by (cases ids) auto
    then have "i \<in> hy_id ` set ?nf" unfolding ids_def by (metis list.set_intros(1) list.set_map)
    then obtain e0 where "i = hy_id e0" "e0 \<in> set (entries_of ?l)" by auto
    with ent [of e0] have "i \<in> fst ` set ?l" by (metis fst_conv image_eqI)
    then obtain s where s: "map_of ?l i = Some s" "(i, s) \<in> set ?l"
      by (metis domD dom_map_of_conv_image_fst map_of_SomeD)
    from bspec [OF assms(2) s(2)] obtain e where e: "s = StoredEntry e" and t: "list_ex (\<lambda>f. starts_with (fc_path f) dir) (hy_files e)"
      by auto
    then obtain f fl where "hy_files e = f # fl" by (cases "hy_files e") auto
    with s e have "snd (capture_revert (st_fs st) ?l ''project'' [] ids) \<noteq> []"
      by (simp add: ids capture_revert_grows capture_new_grows)
    with cr show ?thesis by simp
  qed
  then obtain i st1 where rec: "record_change now scope (''undo of '' @ show_nat (length ids) @ '' change(s)'')
      [''back to before '' @ show_nat (length ids) @ '' change(s)''] before st = (Some i, st1)"
    and i: "i = hex16 (monotonic_id_nanos (st_last_id st) now)"
    by (auto simp: record_change_def Let_def)
  have t: "\<forall>f \<in> set (entries_of ?l). hy_time_unix f < of_nat (now div 10 ^ 9)" using ent by blast
  obtain e' where l1: "st_ledger st1 = filter (\<lambda>(m, s). m \<notin> hy_id ` set (drop 39 ?nf)) (?l @ [(i, StoredEntry e')])"
    by (rule record_change_ledger [OF rec t]) (use assms(3) i in simp)
  then have "hy_id old \<notin> fst ` set (st_ledger st1)" by (auto simp: old)
  moreover have "find_sub ''already undone'' (error_text (ReadingEntry (hy_id old))) = None"
    using old_in(2) reading_is_fatal by metis
  ultimately obtain err st2 where "undo_each ids st1 = (Inl err, st2)" using undo_each_missing [OF old_in(1)] by blast
  with rec cr old_in(1) have "undo_recorded now ids st = (Inl err, st2)" by (auto simp: undo_recorded_def)
  moreover have "timeline dir ?l \<noteq> []" using len(2) by (auto simp: MAX_ENTRIES_def)
  ultimately show ?thesis using len(2) by (simp add: undo_to_def Let_def sel) (simp add: MAX_ENTRIES_def)
qed


section \<open>The properties at a concrete project\<close>

definition sample_fs :: fs where
  "sample_fs = fmap_of_list [([RootDir], DirAt), ([RootDir, Normal ''p''], DirAt), ([RootDir, Normal ''p'', Normal ''a''], FileAt ''one'')]"

definition sample_writes :: "(location \<times> string) list" where
  "sample_writes = [([RootDir, Normal ''p'', Normal ''a''], ''two''), ([RootDir, Normal ''p'', Normal ''d'', Normal ''b''], ''new'')]"

definition sample_state :: "fs \<Rightarrow> ledger \<Rightarrow> state" where
  "sample_state fs l = \<lparr>st_fs = fs, st_ledger = l, st_last_id = 0, st_batch = None\<rparr>"

lemma sample_tree: "tree sample_fs"
  by (auto simp: tree_def sample_fs_def parent_def split: if_splits)

lemma sample_text: "utf8_valid ''one''" "utf8_valid ''two''" "utf8_valid ''new''"
  by code_simp+

definition sample_run :: "(unit, fs_error) result \<times> fs \<times> file_change list" where
  "sample_run = capture_and_write sample_writes sample_fs"

lemma sample_run_ok: "fst sample_run = Inr ()" "snd (snd sample_run) \<noteq> []"
  by (simp_all add: sample_run_def sample_writes_def sample_fs_def atomic_write_def create_dir_all_def parent_def
      missing_from.simps file_name_def split: prod.splits)

theorem undo_restores_witness:
  "\<exists>i st' st''. record_change (10 ^ 10) ''project'' ''apply'' [] (snd (snd sample_run)) (sample_state (fst (snd sample_run)) []) = (Some i, st') \<and>
     undo i st' = (Inr (), st'') \<and> st_fs st'' = sample_fs"
proof -
  obtain fs' cs where r: "capture_and_write sample_writes sample_fs = (Inr (), fs', cs)" "cs \<noteq> []"
    using sample_run_ok by (cases sample_run) (auto simp: sample_run_def)
  then obtain i st' where rec: "record_change (10 ^ 10) ''project'' ''apply'' [] cs (sample_state fs' []) = (Some i, st')"
    by (auto simp: record_change_def Let_def)
  have v: "\<forall>(p, c) \<in> set sample_writes. capturable sample_fs p \<and> utf8_valid c"
    using sample_text by (simp add: sample_writes_def sample_fs_def capturable_def)
  have "capture_and_write sample_writes sample_fs = (Inr (), st_fs (sample_state fs' []), cs)" using r by (simp add: sample_state_def)
  from undo_restores [OF sample_tree v this rec] r rec show ?thesis
    by (auto simp: sample_state_def entries_of_def List.map_filter_def sample_run_def)
qed

theorem undo_deletes_non_text_witness:
  "rollback (fmupd [RootDir, Normal ''b''] (FileAt ''text'') (fmap_of_list [([RootDir], DirAt), ([RootDir, Normal ''b''], FileAt [CHR 0xFF])]))
     [capture (fmap_of_list [([RootDir], DirAt), ([RootDir, Normal ''b''], FileAt [CHR 0xFF])]) [RootDir, Normal ''b''] []]
   = (Inr (), fmap_of_list [([RootDir], DirAt)])"
proof -
  let ?fs = "fmap_of_list [([RootDir], DirAt), ([RootDir, Normal ''b''], FileAt [CHR 0xFF])]" and ?p = "[RootDir, Normal ''b'']"
  have t: "tree ?fs" by (auto simp: tree_def parent_def split: if_splits)
  have "\<not> utf8_valid [CHR 0xFF]" by code_simp
  moreover have "atomic_write ?fs ?p ''text'' = (Inr (), fmupd ?p (FileAt ''text'') ?fs)"
    by (rule atomic_write_over [OF t]) (simp_all add: file_name_def)
  ultimately have "rollback (fmupd ?p (FileAt ''text'') ?fs) [capture ?fs ?p []] = (Inr (), fmdrop ?p ?fs)"
    by (intro undo_deletes_non_text [OF t]) auto
  moreover have "fmdrop ?p ?fs = fmap_of_list [([RootDir], DirAt)]" by (intro fmap_ext) auto
  ultimately show ?thesis by simp
qed

definition sample_entry :: "nat \<Rightarrow> entry" where
  "sample_entry k =
     \<lparr>hy_id = hex16 (of_nat k), hy_time_unix = 0, hy_scope = ''project'', hy_summary = [], hy_targets = [],
      hy_files = [\<lparr>fc_path = [RootDir, Normal ''p''], fc_before = None, fc_label = [], fc_created_dirs = []\<rparr>],
      hy_batch = None, hy_operation = ''apply'', hy_undone = False\<rparr>"

definition full_ledger :: ledger where
  "full_ledger = map (\<lambda>k. (hex16 (of_nat k), StoredEntry (sample_entry k))) [0..<40]"

theorem undo_to_oldest_fails_witness:
  "\<exists>e st'. undo_to (2 ^ 60) [RootDir, Normal ''p''] MAX_ENTRIES (sample_state fmempty full_ledger) = Some (Inl e, st')"
proof -
  have h: "hex16 w = hex_digit (unat w div 16 ^ 15 mod 16) # map (\<lambda>i. hex_digit (unat w div 16 ^ (15 - i) mod 16)) [1..<16]" for w
    by (simp add: hex16_def upt_conv_Cons del: upt_Suc)
  have small: "hd (hex16 (of_nat k)) = hex_digit 0" if "k < 40" for k
    using that by (simp add: h unat_of_nat take_bit_nat_eq_self)
  have big: "hd (hex16 (monotonic_id_nanos 0 (2 ^ 60))) = hex_digit 1"
    by (simp add: h monotonic_id_nanos_def)
  have "hex_digit 0 \<noteq> hex_digit 1" by code_simp
  note differ = this
  show ?thesis
  proof (rule undo_to_oldest_fails)
    show "length (entries_of (st_ledger (sample_state fmempty full_ledger))) = MAX_ENTRIES"
      by (simp add: sample_state_def full_ledger_def entries_of_def MAX_ENTRIES_def List.map_filter_def filter_True comp_def)
    show "hex16 (monotonic_id_nanos (st_last_id (sample_state fmempty full_ledger)) (2 ^ 60)) \<notin> fst ` set (st_ledger (sample_state fmempty full_ledger))"
      using small big differ by (fastforce simp: sample_state_def full_ledger_def)
  qed (auto simp: sample_state_def full_ledger_def sample_entry_def starts_with_iff)
qed

end
