(* ===== verification/Spec2Isabelle.thy ===== *)
theory Spec2Isabelle
  imports Fence Proxy Auth Execution_Relay Executor Trust Manifest Digest Lock Load Recorder Guard_Consent Guard_Protocol Scan Merge_Json Handoff History
begin

text \<open>
  A verification library for agentstack, the tool that installs, pins, confines and runs agent harnesses and
  their servers. This theory imports the rest and holds the properties that span components.

  The program and its model. A project declares its capabilities in a manifest; a lock pins what they resolve to; a
  machine-local store records which manifest and lock the user granted; policies of machine and project are compiled
  to one ruleset; a run freezes all of this in a grant; and while the harness runs, a proxy, a relay and hooks decide
  each connection, tool call and file write. A Rust string or byte slice is its list of bytes (\<open>string\<close>), an error is
  the left side of a sum, a machine integer is a word wherever wrapping could matter, and an insertion-ordered map is
  its list of entries.

  Foundations.
  \<^item> Prelude, Strings, Utf8: results, splitting, searching, trimming, integers in text, UTF-8 and its lossy reading,
    as the standard library gives them.
  \<^item> Framing: the length-framed streams all digests hash. Paths: lexical paths and the machine home
    (core/src/util/paths.rs). Config: bounded reads and schema versions (core/src/util/mod.rs).

  Manifest and lock.
  \<^item> Manifest: the declared capabilities and secret references (core/src/manifest/model.rs, core/src/refs.rs).
  \<^item> Load: discovery, overlay merge, schema gate and the user layer (core/src/manifest/load.rs).
  \<^item> Digest: digest strings, tree walks and contained paths (core/src/digest.rs).
  \<^item> Lock: the eight pin tables and the manifest stamp (core/src/lock.rs).
  \<^item> Executable: which files a server runs out of the project, and their pins (cli/src/executable.rs).
  \<^item> Merge_Json: edits of a harness's own config that leave the rest of the file alone (cli/src/render/merge_json.rs).
  \<^item> History: the undo ledger over a model of the file system, with the directories a write makes and an undo prunes
    (cli/src/history.rs, cli/src/commands/undo.rs, core/src/util/fsx.rs, core/src/util/atomic.rs).

  Policy.
  \<^item> Patterns, Policy: globs, egress patterns and the two-layer decisions (core/src/manifest/model.rs,
    policy/src/lib.rs).
  \<^item> Ruleset, Compile: the compiled ruleset and its decisions (policy/src/ruleset.rs, policy/src/compile.rs).
  \<^item> Fence: the hosts only the gateway may reach (\<open>gateway_only_hosts\<close> of cli/src/resolve.rs).

  Consent and grants.
  \<^item> Trust: the store of grants, its operations and the consent digest (trust/src/lib.rs).
  \<^item> Grant, Grant_Digest, Handoff: the sealed run grant, its builder, its canonical digest, the commitment key and the
    sealed handoff to the bridge (cli/src/grant.rs).
  \<^item> Text_Safe, Scan: text shown to a human and the scan of content before it is adopted (cli/src/text.rs,
    cli/src/scan.rs).

  Enforcement.
  \<^item> Decide, Netguard, Connect, Sni, Auth, Proxy: one connection through the egress proxy, from its head to the
    tunnel (egress/src). A connection is a function from what client and network do to the ordered list of effects.
  \<^item> Limiter, Execution_Relay, Executor: the connection counters and the execution relay as step relations over
    interleaved connections, and the plan a relay enforces (egress/src/relay.rs, egress/src/execution_relay.rs,
    executor/src/lib.rs).
  \<^item> Guard_Paths, Guard_Shell, Guard_Protocol: the hook that judges a harness's tool calls (cli/src/guard.rs).
    Guard_Consent: a grammar of the command lines that grant consent, written for the shell and not from the hook's
    parser, against which the hook is judged.
  \<^item> Recorder: audit streams, their rotation and their readers (recorder/src/lib.rs).

  What the lemmas show. Each component has the behaviour of its operations on every branch, the invariant of its state
  and its preservation, and, where the code promises something to others, the promise: matchers and readers agree with
  reference definitions, merges change what they should and nothing else, digests determine what was hashed, limits
  hold however connections interleave, and refusals are final. Interfaces are locales interpreted on the model's own
  definitions: self-delimiting encodings (Grant_Digest), the lock's tables (Lock), host normalisation (Patterns) and the
  others where they are declared. The properties that show the code falling short of its comments are stated as they
  are, with the input that shows it.

  Parameters and bounds. SHA-256, HMAC, JSON and TOML text, regular expressions, the clock, randomness, name
  resolution, sockets and the file system are arguments; a theorem that needs something of them says so as a
  hypothesis, collision freedom only for the streams at hand, and its witness instantiates it. No definition has fuel:
  loops are structural or have a termination proof, and nested shells stop at the code's own depth of three. Sizes are
  bounded by \<open>2 ^ 64\<close> where the code casts a length to 64 bits. File modes and the rolling backups of
  core/src/util/atomic.rs are outside the file system of History.

  Not modelled. The command line (cli/src/cli.rs) and the interactive commands (cli/src/commands) arrange calls into
  the modelled parts and print; the MCP server and gateway (cli/src/mcp_server.rs, cli/src/gateway.rs, crates/mcp) are
  asynchronous input and output around the modelled decisions; rendering for each harness besides the JSON splice, the
  library and package store with its network and git fetches, secret providers and the desktop keychain, container
  runtimes (crates/runtime), the adapters' descriptor files, and the workflow engine's process handling rest on
  services and formats outside the repository.
\<close>

section \<open>Properties across components\<close>

text \<open>C2.
  From the frozen servers to the socket: in a proxy whose ruleset carries the derived fence, a CONNECT to any
  spelling of a declared upstream's host touches the network in no way, whatever the policy allows.\<close>

theorem lockdown_no_direct_upstream:
  assumes "gateway_only_hosts servers = Inr H" "(name, Inr s) \<in> set servers" "declared_host s = Some h"
    and "cr_gateway_only_hosts (px_guard p) = H"
    and "read_head (cl_head cl) = Some head" "parse_connect_target head = Some t"
    and "normalize_host (t_host t) = normalize_host h"
  shows "set (handle_connection p net cl) \<subseteq> range Reply \<union> range Emit"
proof
  fix x assume x: "x \<in> set (handle_connection p net cl)"
  show "x \<in> range Reply \<union> range Emit"
  proof (rule ccontr)
    assume n: "x \<notin> range Reply \<union> range Emit"
    from x obtain pre post where "handle_connection p net cl = pre @ x # post" by (auto simp: in_set_conv_decomp)
    from network_checked [OF this n] obtain t' where a: "admitted p cl t'" by blast
    with assms(5,6) have "t' = t" by (auto simp: admitted_def)
    with a have "\<not> is_gateway_only_host (px_guard p) (t_host t)" by (auto simp: admitted_def decide_allowed)
    moreover have "normalize_host h \<in> H" using assms(1-3) by (auto simp: gateway_only_hosts_def fence_hosts_Inr)
    ultimately show False using assms(4,7) by (auto simp: is_gateway_only_host_def split: if_splits)
  qed
qed

definition fenced_proxy :: server_proxy where
  "fenced_proxy = (sample_proxy True)\<lparr>px_guard := default_ruleset\<lparr>cr_gateway_only_hosts := {''a.b''}\<rparr>\<rparr>"

definition fenced_server :: server where
  "fenced_server = sample_server\<lparr>sv_url := Some ''https://A.b/mcp''\<rparr>"

theorem lockdown_no_direct_upstream_witness:
  "set (handle_connection fenced_proxy sample_network (sample_client [])) \<subseteq> range Reply \<union> range Emit"
proof -
  have u: "host_from_url ''https://A.b/mcp'' = Some ''A.b''" by code_simp
  have d: "declared_host fenced_server = Some ''A.b''"
    by (simp add: declared_host_def fenced_server_def sample_server_def u)
  have n: "normalize_host ''A.b'' = ''a.b''" "normalize_host ''a.b'' = ''a.b''" by code_simp+
  have f: "gateway_only_hosts [(''m'', Inr fenced_server)] = Inr {''a.b''}"
    unfolding gateway_only_hosts_def fence_hosts_Inr by (auto simp: d n)
  have m: "(''m'', Inr fenced_server) \<in> set [(''m'', Inr fenced_server :: (server, string) result)]" by simp
  have g: "cr_gateway_only_hosts (px_guard fenced_proxy) = {''a.b''}" by (simp add: fenced_proxy_def)
  have t: "normalize_host (t_host sample_target) = normalize_host ''A.b''" by (simp add: sample_target_def n)
  show ?thesis
    by (rule lockdown_no_direct_upstream [OF f m d g sample_head sample_parse t])
qed

text \<open>C7.
  From the request to the tool call: when a relay is started on the authority of a plan, then whatever its eight
  connections send and however they interleave, the calls dispatched are at most the machine's limit, at most
  100, and each names a tool the request listed exactly and the authority knows, with the session's token.\<close>

theorem execution_authority:
  assumes "build_plan digest to_vec describe request context = Inr plan"
    and "start_relay token (ep_grant plan) (el_max_calls (ep_limits plan)) bound = Inr sh"
    and "relay_reachable parse sh (unat EXECUTION_MAX_CONNECTIONS) s"
  shows "length (xs_log s) \<le> unat (ml_max_calls (pc_machine_limits context)) \<and> length (xs_log s) \<le> 100 \<and>
    (\<forall>(i, rq) \<in> set (xs_log s). rq_token rq = token \<and> rq_tool rq \<in> trim ` set (er_allow_tools request) \<and>
       describe (rq_tool rq) \<noteq> None)"
proof -
  have sh: "sh = \<lparr>es_token = token, es_grant = ep_grant plan, es_max_calls = el_max_calls (ep_limits plan)\<rparr>"
    using assms(2) by (auto simp: start_relay_def and_then_Inr split: if_splits)
  note p = build_plan_Inr [OF assms(1)]
  note l = limits_bounded(2) [OF conjunct1 [OF conjunct2 [OF p]]]
  from l have le: "unat (es_max_calls sh) \<le> unat (ml_max_calls (pc_machine_limits context))"
    "unat (ml_max_calls (pc_machine_limits context)) \<le> 100"
    by (simp_all add: sh MAX_CALLS_def word_le_nat_alt)
  then have room: "unat (es_max_calls sh) + unat EXECUTION_MAX_CONNECTIONS < 2 ^ 32"
    by (simp add: EXECUTION_MAX_CONNECTIONS_def)
  note c = relay_ceiling [OF assms(3) room]
  have "rq_token rq = token \<and> rq_tool rq \<in> trim ` set (er_allow_tools request) \<and> describe (rq_tool rq) \<noteq> None"
    if "(i, rq) \<in> set (xs_log s)" for i rq
    using c(2) [OF that] conjunct1 [OF p] by (auto simp: sh build_grant_Inr)
  then show ?thesis using c(1) le by fastforce
qed

theorem execution_authority_witness:
  "\<exists>plan sh. build_plan id Some Some sample_exec_request sample_exec_context = Inr plan \<and>
     start_relay (replicate 32 (CHR ''t'')) (ep_grant plan) (el_max_calls (ep_limits plan)) (Inr ()) = Inr sh \<and>
     length (xs_log (relay_init 8 :: unit relay_state)) \<le> unat (ml_max_calls (pc_machine_limits sample_exec_context))"
proof -
  obtain plan where p: "build_plan id Some Some sample_exec_request sample_exec_context = Inr plan"
    and l: "ep_limits plan = \<lparr>el_timeout_ms = 15000, el_max_calls = 20, el_max_output_bytes = 65536\<rparr>" "ep_grant plan = {''read''}"
    using sample_exec_plan by blast
  then obtain sh where s: "start_relay (replicate 32 (CHR ''t'')) (ep_grant plan) (el_max_calls (ep_limits plan)) (Inr ()) = Inr sh"
    by (simp add: start_relay_def)
  have "relay_reachable (\<lambda>_. None :: unit relay_request option) sh (unat EXECUTION_MAX_CONNECTIONS) (relay_init 8)"
    by (simp add: relay_reachable_def EXECUTION_MAX_CONNECTIONS_def)
  from execution_authority [OF p s this] p s show ?thesis by blast
qed

end
